(* ===== verification/Prelude.thy ===== *)
theory Prelude
  imports Main "HOL-Library.DAList" "HOL-Library.Char_ord" "HOL-Library.List_Lexorder"
    "HOL-Library.Word"
begin

text \<open>
  Shared vocabulary of the development: Go strings and integers, Go maps as association
  lists, the collections of rewrite rules the component theories fill, and the generic
  facts on lists and maps that more than one component uses.
\<close>

section \<open>Collections of facts\<close>

named_theorems hbtd_defs \<open>unfolding rules of the small helpers of the model\<close>

named_theorems gomap_simps \<open>lookup and domain facts of Go maps\<close>

section \<open>Strings and integers\<close>

text \<open>
  A Go string is a sequence of bytes, and HOL's \<^typ>\<open>char\<close> is an 8-bit byte, so a Go string
  is a \<^typ>\<open>string\<close>, compared bytewise in lexicographic order as Go does.
\<close>

type_synonym bytes = string

abbreviation byte_of :: "char \<Rightarrow> nat" where
  "byte_of c \<equiv> (of_char c :: nat)"

abbreviation byte :: "nat \<Rightarrow> char" where
  "byte n \<equiv> (char_of n :: char)"

text \<open>Go's \<open>int\<close> and \<open>int64\<close> are 64-bit two's complement; arithmetic wraps around.\<close>

definition int64 :: "int \<Rightarrow> int" where
  "int64 x = signed_take_bit 63 x"

text \<open>The conversion \<open>uint64(x)\<close> of a signed value.\<close>

definition uint64 :: "int \<Rightarrow> nat" where
  "uint64 x = nat (x mod 2 ^ 64)"

definition fits_int64 :: "int \<Rightarrow> bool" where
  "fits_int64 x \<longleftrightarrow> - (2 ^ 63) \<le> x \<and> x < 2 ^ 63"

lemma int64_id [simp]: "fits_int64 x \<Longrightarrow> int64 x = x"
  by (simp add: int64_def fits_int64_def signed_take_bit_int_eq_self)

lemma int64_fits [simp]: "fits_int64 (int64 x)"
  using signed_take_bit_int_less_exp [of 63 x] signed_take_bit_int_greater_eq_minus_exp [of 63 x]
  by (simp add: int64_def fits_int64_def)

lemma uint64_of_nonneg: "0 \<le> x \<Longrightarrow> x < 2 ^ 64 \<Longrightarrow> uint64 x = nat x"
  by (simp add: uint64_def)

section \<open>Go maps\<close>

text \<open>
  A Go map has one entry per key: an association list with distinct keys
  (\<open>HOL-Library.DAList\<close>). Reading a missing key gives the zero value. Go leaves the order in
  which \<open>range\<close> visits a map open; the model visits it in the order of the list, and no
  property below depends on that order.
\<close>

type_synonym 'v gomap = "(string, 'v) alist"

definition gm_empty :: "'v gomap" where
  "gm_empty = DAList.empty"

definition gm_get :: "'v::zero gomap \<Rightarrow> string \<Rightarrow> 'v" where
  "gm_get m k = (case DAList.lookup m k of None \<Rightarrow> 0 | Some v \<Rightarrow> v)"

definition gm_set :: "string \<Rightarrow> 'v \<Rightarrow> 'v gomap \<Rightarrow> 'v gomap" where
  "gm_set k v m = DAList.update k v m"

text \<open>The entries and the keys, in the order a \<open>range\<close> loop visits them.\<close>

definition gm_entries :: "'v gomap \<Rightarrow> (string \<times> 'v) list" where
  "gm_entries m = DAList.impl_of m"

definition gm_keys :: "'v gomap \<Rightarrow> string list" where
  "gm_keys m = map fst (gm_entries m)"

lemma gm_get_empty [simp, gomap_simps]: "gm_get gm_empty k = 0"
  by (simp add: gm_get_def gm_empty_def)

lemma gm_get_set [simp, gomap_simps]:
  "gm_get (gm_set k v m) k' = (if k' = k then v else gm_get m k')"
  by (simp add: gm_get_def gm_set_def lookup_update)

lemma gm_entries_empty [simp, gomap_simps]: "gm_entries gm_empty = []"
  by (simp add: gm_entries_def gm_empty_def DAList.empty.rep_eq)

lemma gm_entries_set [gomap_simps]: "gm_entries (gm_set k v m) = AList.update k v (gm_entries m)"
  by (simp add: gm_entries_def gm_set_def DAList.update.rep_eq)

lemma gm_keys_empty [simp, gomap_simps]: "gm_keys gm_empty = []"
  by (simp add: gm_keys_def)

lemma gm_keys_set [simp, gomap_simps]:
  "set (gm_keys (gm_set k v m)) = insert k (set (gm_keys m))"
  by (simp add: gm_keys_def gm_entries_set dom_update)

lemma distinct_gm_keys [simp, intro]: "distinct (gm_keys m)"
  by (simp add: gm_keys_def gm_entries_def)

lemma gm_entry_get: "(k, v) \<in> set (gm_entries m) \<Longrightarrow> gm_get m k = v"
  by (simp add: gm_get_def gm_entries_def DAList.lookup.rep_eq)

lemma gm_get_not_key: "k \<notin> set (gm_keys m) \<Longrightarrow> gm_get m k = 0"
  by (simp add: gm_get_def gm_keys_def gm_entries_def DAList.lookup.rep_eq
      map_of_eq_None_iff [THEN iffD2])

lemma gm_get_nz_key: "gm_get m k \<noteq> 0 \<Longrightarrow> k \<in> set (gm_keys m)"
  using gm_get_not_key by metis

lemma gm_get_nz_entry: "gm_get m k \<noteq> 0 \<Longrightarrow> (k, gm_get m k) \<in> set (gm_entries m)"
  by (auto simp: gm_get_def gm_entries_def DAList.lookup.rep_eq
      split: option.splits dest: map_of_SomeD)

end
