(* ===== verification/Go_Strconv.thy ===== *)
theory Go_Strconv
  imports Prelude
begin

text \<open>
  The parts of Go's \<open>strconv\<close> and \<open>strings\<close> packages the program calls:
  \<open>ParseUint\<close>, \<open>ParseInt\<close>, \<open>Atoi\<close> (which agrees with \<open>ParseInt\<close> in base 10), \<open>FormatUint\<close>,
  \<open>Itoa\<close>, \<open>Split\<close> and \<open>ToLower\<close>. Numbers are read the way Go reads them: the value returned
  beside an error (the clamped maximum on overflow) is part of the result, because the
  heartbeat checker uses it. The last section proves that what \<open>FormatUint\<close> and \<open>Itoa\<close>
  print is read back.
\<close>

section \<open>Reading numbers\<close>

datatype num_error = ErrSyntax | ErrRange

definition digit_val :: "char \<Rightarrow> nat option" where
  "digit_val c =
     (let b = byte_of c in
      if 48 \<le> b \<and> b \<le> 57 then Some (b - 48)
      else if 97 \<le> b \<and> b \<le> 122 then Some (b - 87)
      else if 65 \<le> b \<and> b \<le> 90 then Some (b - 55)
      else None)"

text \<open>
  The digit loop of \<open>ParseUint\<close>. Go tests \<open>n >= cutoff\<close> and \<open>n1 < n || n1 > maxVal\<close> on
  \<open>uint64\<close>; over the naturals both say that \<open>n * base + d\<close> exceeds \<open>maxVal\<close>.
\<close>

fun parse_digits :: "nat \<Rightarrow> bool \<Rightarrow> nat \<Rightarrow> nat \<Rightarrow> string \<Rightarrow> nat \<times> num_error option" where
  "parse_digits base base0 maxv n [] = (n, None)"
| "parse_digits base base0 maxv n (c # cs) =
     (if c = CHR ''_'' \<and> base0 then parse_digits base base0 maxv n cs
      else case digit_val c of
          None \<Rightarrow> (0, Some ErrSyntax)
        | Some d \<Rightarrow>
            if base \<le> d then (0, Some ErrSyntax)
            else if maxv < n * base + d then (maxv, Some ErrRange)
            else parse_digits base base0 maxv (n * base + d) cs)"

definition lower_byte :: "char \<Rightarrow> char" where
  "lower_byte c = (if 65 \<le> byte_of c \<and> byte_of c \<le> 90 then byte (byte_of c + 32) else c)"

text \<open>Base 0: the base is read off the prefix \<open>0b\<close>, \<open>0o\<close>, \<open>0x\<close> or \<open>0\<close>.\<close>

definition base_prefix :: "string \<Rightarrow> nat \<times> string" where
  "base_prefix s =
     (if s \<noteq> [] \<and> hd s = CHR ''0'' then
        if 3 \<le> length s \<and> lower_byte (s ! 1) = CHR ''b'' then (2, drop 2 s)
        else if 3 \<le> length s \<and> lower_byte (s ! 1) = CHR ''o'' then (8, drop 2 s)
        else if 3 \<le> length s \<and> lower_byte (s ! 1) = CHR ''x'' then (16, drop 2 s)
        else (8, tl s)
      else (10, s))"

datatype saw = SawStart | SawDigit | SawUnderscore | SawOther

fun underscore_scan :: "bool \<Rightarrow> saw \<Rightarrow> string \<Rightarrow> bool" where
  "underscore_scan hex w [] = (w \<noteq> SawUnderscore)"
| "underscore_scan hex w (c # cs) =
     (if (48 \<le> byte_of c \<and> byte_of c \<le> 57) \<or>
         (hex \<and> 97 \<le> byte_of (lower_byte c) \<and> byte_of (lower_byte c) \<le> 102)
      then underscore_scan hex SawDigit cs
      else if c = CHR ''_'' then w = SawDigit \<and> underscore_scan hex SawUnderscore cs
      else w \<noteq> SawUnderscore \<and> underscore_scan hex SawOther cs)"

definition underscore_ok :: "string \<Rightarrow> bool" where
  "underscore_ok s0 =
     (let s = (if s0 \<noteq> [] \<and> (hd s0 = CHR ''-'' \<or> hd s0 = CHR ''+'') then tl s0 else s0) in
      if 2 \<le> length s \<and> hd s = CHR ''0'' \<and>
         (lower_byte (s ! 1) = CHR ''b'' \<or> lower_byte (s ! 1) = CHR ''o'' \<or>
          lower_byte (s ! 1) = CHR ''x'')
      then underscore_scan (lower_byte (s ! 1) = CHR ''x'') SawDigit (drop 2 s)
      else underscore_scan False SawStart s)"

definition parse_uint :: "string \<Rightarrow> nat \<Rightarrow> nat \<Rightarrow> nat \<times> num_error option" where
  "parse_uint s base bits =
     (if s = [] then (0, Some ErrSyntax)
      else
        let (b, ds) = (if base = 0 then base_prefix s else (base, s));
            (n, err) = parse_digits b (base = 0) (2 ^ bits - 1) 0 ds
        in if err = None \<and> base = 0 \<and> CHR ''_'' \<in> set ds \<and> \<not> underscore_ok s
           then (0, Some ErrSyntax) else (n, err))"

definition parse_int :: "string \<Rightarrow> nat \<Rightarrow> nat \<Rightarrow> int \<times> num_error option" where
  "parse_int s base bits =
     (if s = [] then (0, Some ErrSyntax)
      else
        let neg = (hd s = CHR ''-'');
            ds = (if hd s = CHR ''+'' \<or> hd s = CHR ''-'' then tl s else s);
            (un, err) = parse_uint ds base bits;
            cutoff = 2 ^ (bits - 1)
        in if err = Some ErrSyntax then (0, Some ErrSyntax)
           else if \<not> neg \<and> cutoff \<le> un then (int cutoff - 1, Some ErrRange)
           else if neg \<and> cutoff < un then (- int cutoff, Some ErrRange)
           else (if neg then - int un else int un, None))"

definition atoi :: "string \<Rightarrow> int \<times> num_error option" where
  "atoi s = parse_int s 10 64"

section \<open>Printing numbers\<close>

definition digit_char :: "nat \<Rightarrow> char" where
  "digit_char d = byte (if d < 10 then 48 + d else 87 + d)"

function fmt_base :: "nat \<Rightarrow> nat \<Rightarrow> string" where
  "fmt_base base n =
     (if base < 2 \<or> n < base then [digit_char n]
      else fmt_base base (n div base) @ [digit_char (n mod base)])"
  by pat_completeness auto
termination
  by (relation "measure snd") (auto simp: div_less_dividend)

declare fmt_base.simps [simp del]

definition format_uint :: "nat \<Rightarrow> nat \<Rightarrow> string" where
  "format_uint n base = fmt_base base n"

definition itoa :: "int \<Rightarrow> string" where
  "itoa i = (if i < 0 then CHR ''-'' # fmt_base 10 (nat (- i)) else fmt_base 10 (nat i))"

section \<open>Strings\<close>

fun split_on :: "char \<Rightarrow> string \<Rightarrow> string list" where
  "split_on sep [] = [[]]"
| "split_on sep (c # cs) =
     (if c = sep then [] # split_on sep cs
      else case split_on sep cs of
          [] \<Rightarrow> [[c]]
        | t # ts \<Rightarrow> (c # t) # ts)"

text \<open>
  \<open>strings.ToLower\<close> is used only to compare with \<open>0, no, off, false, 1, yes, on, true\<close>. No
  rune outside ASCII lowers to one of their letters, so lowering the ASCII bytes and
  keeping the others decides these comparisons as Go does.
\<close>

definition to_lower :: "string \<Rightarrow> string" where
  "to_lower s = map lower_byte s"

section \<open>Round trips\<close>

lemma digit_val_digit_char: "d < 36 \<Longrightarrow> digit_val (digit_char d) = Some d"
  by (simp add: digit_val_def digit_char_def Let_def)

lemma digit_char_neq_underscore: "d < 36 \<Longrightarrow> digit_char d \<noteq> CHR ''_''"
proof
  assume d: "d < 36" and "digit_char d = CHR ''_''"
  then have "digit_val (digit_char d) = digit_val CHR ''_''" by simp
  with digit_val_digit_char [OF d] show False by (simp add: digit_val_def)
qed

lemma digit_char_neq_sign:
  assumes "d < 36" shows "digit_char d \<noteq> CHR ''-''" and "digit_char d \<noteq> CHR ''+''"
proof -
  have "digit_val (digit_char d) \<noteq> digit_val CHR ''-''"
    and "digit_val (digit_char d) \<noteq> digit_val CHR ''+''"
    using digit_val_digit_char [OF assms] by (simp_all add: digit_val_def)
  then show "digit_char d \<noteq> CHR ''-''" and "digit_char d \<noteq> CHR ''+''" by auto
qed

lemma parse_digits_snoc:
  "parse_digits b b0 m a xs = (n, None) \<Longrightarrow>
   parse_digits b b0 m a (xs @ ys) = parse_digits b b0 m n ys"
  by (induction b b0 m a xs rule: parse_digits.induct) (auto split: if_splits option.splits)

lemma fmt_base_small: "n < base \<Longrightarrow> fmt_base base n = [digit_char n]"
  by (subst fmt_base.simps) simp

lemma fmt_base_step:
  "2 \<le> base \<Longrightarrow> base \<le> n \<Longrightarrow>
   fmt_base base n = fmt_base base (n div base) @ [digit_char (n mod base)]"
  by (subst fmt_base.simps) simp

lemma fmt_base_nonempty [simp]: "fmt_base base n \<noteq> []"
  by (cases "base < 2 \<or> n < base") (simp_all add: fmt_base.simps [of base n])

lemma fmt_induct [case_names small step]:
  assumes "2 \<le> base" and "\<And>n. n < base \<Longrightarrow> P n"
    and "\<And>n. base \<le> n \<Longrightarrow> P (n div base) \<Longrightarrow> P n"
  shows "P (n::nat)"
proof (induction n rule: less_induct)
  case (less n)
  show ?case
  proof (cases "n < base")
    case True then show ?thesis by (rule assms(2))
  next
    case False
    with assms(1) have "n div base < n" by (intro div_less_dividend) auto
    then have "P (n div base)" by (rule less.IH)
    with False show ?thesis by (simp add: assms(3))
  qed
qed

lemma fmt_base_digits:
  assumes "2 \<le> base"
  shows "c \<in> set (fmt_base base n) \<Longrightarrow> \<exists>d < base. c = digit_char d"
proof (induction n rule: fmt_induct [OF assms])
  case (1 n)
  then show ?case by (auto simp: fmt_base_small)
next
  case (2 n)
  have "n mod base < base" using assms by simp
  then have "\<exists>d<base. digit_char (n mod base) = digit_char d" by blast
  moreover have "c \<in> set (fmt_base base (n div base)) \<or> c = digit_char (n mod base)"
    using 2 assms by (auto simp: fmt_base_step)
  ultimately show ?case using 2(2) by blast
qed

lemma parse_digits_fmt_base:
  assumes "2 \<le> base" "base \<le> 36"
  shows "n \<le> m \<Longrightarrow> parse_digits base b0 m 0 (fmt_base base n) = (n, None)"
proof (induction n rule: fmt_induct [OF assms(1)])
  case (1 n)
  then show ?case using assms
    by (auto simp: fmt_base_small digit_val_digit_char digit_char_neq_underscore)
next
  case (2 n)
  have "n div base \<le> m" using 2(3) div_le_dividend [of n base] by linarith
  then have "parse_digits base b0 m 0 (fmt_base base (n div base)) = (n div base, None)"
    by (rule 2(2))
  moreover have d: "n mod base < base" using assms by simp
  then have "\<not> base \<le> n mod base" by simp
  moreover have "n mod base < 36" using d assms by linarith
  ultimately show ?case using 2(1,3) assms
    by (auto simp: fmt_base_step parse_digits_snoc digit_val_digit_char digit_char_neq_underscore)
qed

lemma fmt_base_no:
  assumes "2 \<le> base" "base \<le> 36" and c: "c \<in> {CHR ''-'', CHR ''+'', CHR ''_''}"
  shows "c \<notin> set (fmt_base base n)"
proof
  assume "c \<in> set (fmt_base base n)"
  then obtain d where "d < base" "c = digit_char d" using fmt_base_digits assms(1) by blast
  with assms digit_char_neq_sign [of d] digit_char_neq_underscore [of d] show False by auto
qed

lemma parse_uint_fmt_base:
  assumes "2 \<le> base" "base \<le> 36" "n < 2 ^ bits"
  shows "parse_uint (fmt_base base n) base bits = (n, None)"
proof -
  from assms(3) have "n \<le> 2 ^ bits - 1" by linarith
  from parse_digits_fmt_base [OF assms(1,2) this] assms show ?thesis
    by (simp add: parse_uint_def Let_def)
qed

lemma hd_fmt_base_no:
  assumes "2 \<le> base" "base \<le> 36" and "c \<in> {CHR ''-'', CHR ''+'', CHR ''_''}"
  shows "hd (fmt_base base n) \<noteq> c"
  using fmt_base_no [OF assms, of n] hd_in_set [OF fmt_base_nonempty, of base n] by metis

text \<open>What \<open>FormatUint(x, 16)\<close> prints for a time stamp, \<open>ParseInt(s, 16, 64)\<close> reads back.\<close>

lemma parse_int_format_uint:
  assumes "2 \<le> base" "base \<le> 36" "n < 2 ^ 63"
  shows "parse_int (format_uint n base) base 64 = (int n, None)"
proof -
  have "n < 2 ^ 64" using assms(3) by simp
  from parse_uint_fmt_base [OF assms(1,2) this] assms(3)
    hd_fmt_base_no [OF assms(1,2)]
  show ?thesis by (simp add: parse_int_def format_uint_def Let_def)
qed

lemma digit_char_0 [simp]: "digit_char 0 = CHR ''0''"
proof -
  have "byte (byte_of CHR ''0'') = CHR ''0''" by (rule char_of_char)
  then show ?thesis by (simp add: digit_char_def)
qed

lemma hd_fmt_base_pos:
  assumes "2 \<le> base" "base \<le> 36"
  shows "0 < n \<Longrightarrow> hd (fmt_base base n) \<noteq> CHR ''0''"
proof (induction n rule: fmt_induct [OF assms(1)])
  case (1 n)
  then have "n < 36" using assms(2) by linarith
  then have "digit_val (digit_char n) \<noteq> digit_val (digit_char 0)"
    using 1 digit_val_digit_char [of n] digit_val_digit_char [of 0] by simp
  with 1 show ?case by (auto simp: fmt_base_small)
next
  case (2 n)
  then have "0 < n div base" using assms(1) by (simp add: div_greater_zero_iff)
  with 2 assms show ?case by (auto simp: fmt_base_step)
qed

lemma parse_uint0_itoa:
  assumes "0 \<le> i" "i < 2 ^ bits"
  shows "parse_uint (itoa i) 0 bits = (nat i, None)"
proof (cases "i = 0")
  case True
  then show ?thesis by (simp add: itoa_def fmt_base_small parse_uint_def base_prefix_def Let_def)
next
  case False
  with assms have n: "0 < nat i" "nat i < 2 ^ bits" by (auto simp: nat_less_iff)
  then have "nat i \<le> 2 ^ bits - 1" by linarith
  from parse_digits_fmt_base [of 10, OF _ _ this] hd_fmt_base_pos [of 10, OF _ _ n(1)]
    fmt_base_no [of 10 "CHR ''_''" "nat i"] assms
  show ?thesis by (simp add: itoa_def parse_uint_def base_prefix_def Let_def)
qed

lemma parse_int0_itoa:
  assumes "fits_int64 i"
  shows "parse_int (itoa i) 0 64 = (i, None)"
proof (cases "i < 0")
  case True
  then have "parse_uint (itoa (- i)) 0 64 = (nat (- i), None)"
    using assms by (intro parse_uint0_itoa) (auto simp: fits_int64_def)
  moreover have "itoa i = CHR ''-'' # itoa (- i)" using True by (simp add: itoa_def)
  moreover have "nat (- i) \<le> 2 ^ 63" using assms by (simp add: fits_int64_def nat_le_iff)
  ultimately show ?thesis using True by (simp add: parse_int_def Let_def)
next
  case False
  then have "parse_uint (itoa i) 0 64 = (nat i, None)"
    using assms by (intro parse_uint0_itoa) (auto simp: fits_int64_def)
  moreover have "hd (itoa i) \<noteq> CHR ''-''" "hd (itoa i) \<noteq> CHR ''+''" "itoa i \<noteq> []"
    using False hd_fmt_base_no [of 10] by (simp_all add: itoa_def)
  moreover have "nat i < 2 ^ 63" using assms False by (auto simp: fits_int64_def nat_less_iff)
  ultimately show ?thesis using False by (simp add: parse_int_def Let_def)
qed

lemma split_on_nonempty [simp]: "split_on c s \<noteq> []"
  by (cases s) (auto split: list.splits)

lemma split_on_append:
  "c \<notin> set x \<Longrightarrow> split_on c (x @ c # y) = x # split_on c y"
  by (induction x) (auto split: list.splits)

lemma split_on_none: "c \<notin> set x \<Longrightarrow> split_on c x = [x]"
  by (induction x) (auto split: list.splits)

lemma length_split_on: "length (split_on c s) = Suc (count_list s c)"
  by (induction c s rule: split_on.induct) (auto split: list.splits)

end
