(* ===== verification/Json.thy ===== *)
theory Json
  imports Go_Strconv
begin

text \<open>
  Go's \<open>encoding/json\<close> as the program uses it (the toolchain named in \<open>go.mod\<close> is 1.24).
  Printing: \<open>Marshal\<close> with HTML escaping and invalid UTF-8 replaced by U+FFFD. Reading:
  the scanner (a byte-wise state machine), the value grammar with its nesting limit of
  10000 (a stack machine over tokens), \<open>unquote\<close>, and the decoding of an object into a
  struct of strings: exact then case-folded field names, \<open>null\<close> leaves a field alone, a
  value of another kind is skipped and reported at the end, the last duplicate wins.
  The theorem \<open>parse_render\<close> says that a printed value is read back, up to that
  replacement of invalid UTF-8.
\<close>

section \<open>Values\<close>

datatype json =
    JNull
  | JBool bool
  | JNum string
  | JStr string
  | JArr "json list"
  | JObj "(string \<times> json) list"

section \<open>UTF-8\<close>

definition byte_in :: "string \<Rightarrow> nat \<Rightarrow> nat \<Rightarrow> nat \<Rightarrow> bool" where
  "byte_in cs i lo hi \<longleftrightarrow> i < length cs \<and> lo \<le> byte_of (cs ! i) \<and> byte_of (cs ! i) \<le> hi"

text \<open>Length of the valid rune at the head, 0 where Go's \<open>DecodeRune\<close> gives \<open>RuneError, 1\<close>.\<close>

fun rune_len :: "string \<Rightarrow> nat" where
  "rune_len [] = 0"
| "rune_len (c # cs) =
     (let b = byte_of c in
      if b < 128 then 1
      else if 194 \<le> b \<and> b \<le> 223 then (if byte_in cs 0 128 191 then 2 else 0)
      else if 224 \<le> b \<and> b \<le> 239 then
        (if byte_in cs 0 (if b = 224 then 160 else 128) (if b = 237 then 159 else 191) \<and>
            byte_in cs 1 128 191 then 3 else 0)
      else if 240 \<le> b \<and> b \<le> 244 then
        (if byte_in cs 0 (if b = 240 then 144 else 128) (if b = 244 then 143 else 191) \<and>
            byte_in cs 1 128 191 \<and> byte_in cs 2 128 191 then 4 else 0)
      else 0)"

declare rune_len.simps(2) [simp del]

lemma rune_len_ascii [simp]: "byte_of c < 128 \<Longrightarrow> rune_len (c # cs) = 1"
  by (simp add: rune_len.simps(2))

definition replacement :: string where
  "replacement = [byte 239, byte 191, byte 189]"

fun sanitize :: "string \<Rightarrow> string" where
  "sanitize [] = []"
| "sanitize (c # cs) =
     (let n = rune_len (c # cs) in
      if n = 0 then replacement @ sanitize cs
      else take n (c # cs) @ sanitize (drop (n - 1) cs))"

fun utf8_valid :: "string \<Rightarrow> bool" where
  "utf8_valid [] = True"
| "utf8_valid (c # cs) =
     (let n = rune_len (c # cs) in n \<noteq> 0 \<and> utf8_valid (drop (n - 1) cs))"

definition encode_rune :: "nat \<Rightarrow> string" where
  "encode_rune r =
     (if r < 128 then [byte r]
      else if r < 2048 then [byte (192 + r div 64), byte (128 + r mod 64)]
      else if (55296 \<le> r \<and> r < 57344) \<or> 1114111 < r then replacement
      else if r < 65536 then
        [byte (224 + r div 4096), byte (128 + r div 64 mod 64), byte (128 + r mod 64)]
      else
        [byte (240 + r div 262144), byte (128 + r div 4096 mod 64),
         byte (128 + r div 64 mod 64), byte (128 + r mod 64)])"

section \<open>Printing\<close>

definition hex_digit :: "nat \<Rightarrow> char" where
  "hex_digit n = digit_char n"

text \<open>One ASCII byte inside a string literal.\<close>

definition escape_ascii :: "char \<Rightarrow> string" where
  "escape_ascii c =
     (let b = byte_of c in
      if c = CHR 0x5C \<or> c = CHR 0x22 then [CHR 0x5C, c]
      else if b = 8 then [CHR 0x5C, CHR ''b'']
      else if b = 12 then [CHR 0x5C, CHR ''f'']
      else if b = 10 then [CHR 0x5C, CHR ''n'']
      else if b = 13 then [CHR 0x5C, CHR ''r'']
      else if b = 9 then [CHR 0x5C, CHR ''t'']
      else if b < 32 \<or> c = CHR ''<'' \<or> c = CHR ''>'' \<or> c = CHR ''&''
      then [CHR 0x5C, CHR ''u'', CHR ''0'', CHR ''0'', hex_digit (b div 16), hex_digit (b mod 16)]
      else [c])"

definition line_sep :: "string \<Rightarrow> bool" where
  "line_sep s \<longleftrightarrow> take 2 s = [byte 226, byte 128] \<and> (byte_in s 2 168 169)"

fun escape :: "string \<Rightarrow> string" where
  "escape [] = []"
| "escape (c # cs) =
     (if byte_of c < 128 then escape_ascii c @ escape cs
      else let n = rune_len (c # cs) in
        if n = 0 then CHR 0x5C # ''ufffd'' @ escape cs
        else if line_sep (c # cs)
        then CHR 0x5C # ''u202'' @ hex_digit (byte_of ((c # cs) ! 2) - 160) # escape (drop 2 cs)
        else take n (c # cs) @ escape (drop (n - 1) cs))"

definition quote :: "string \<Rightarrow> string" where
  "quote s = CHR 0x22 # escape s @ [CHR 0x22]"

fun sep_by :: "'a list \<Rightarrow> 'a list list \<Rightarrow> 'a list" where
  "sep_by s [] = []"
| "sep_by s [x] = x"
| "sep_by s (x # y # xs) = x @ s @ sep_by s (y # xs)"

fun render :: "json \<Rightarrow> string" where
  "render JNull = ''null''"
| "render (JBool b) = (if b then ''true'' else ''false'')"
| "render (JNum n) = n"
| "render (JStr s) = quote s"
| "render (JArr vs) = ''['' @ sep_by '','' (map render vs) @ '']''"
| "render (JObj kvs) =
     ''{'' @ sep_by '','' (map (\<lambda>(k, v). quote k @ '':'' @ render v) kvs) @ ''}''"

text \<open>
  \<open>json.Marshal\<close> reports errors for channels, functions, cyclic values and non-finite
  floats. The program marshals structs of strings, bools and lists of strings only, so
  the error branches that follow its calls are kept in the model but never taken.
\<close>

definition json_marshal :: "json \<Rightarrow> string option" where
  "json_marshal j = Some (render j)"

section \<open>Scanning\<close>

datatype tok =
    TLBrace | TRBrace | TLBrack | TRBrack | TComma | TColon
  | TNull | TTrue | TFalse
  | TNum string
  | TStr string \<comment> \<open>the text between the quotes, escapes not yet resolved\<close>

datatype lex_state =
    LBegin
  | LString string
  | LEscape string
  | LHex nat string
  | LNumber string
  | LWord string

definition is_ws :: "char \<Rightarrow> bool" where
  "is_ws c \<longleftrightarrow> byte_of c = 32 \<or> byte_of c = 9 \<or> byte_of c = 10 \<or> byte_of c = 13"

definition is_digit :: "char \<Rightarrow> bool" where
  "is_digit c \<longleftrightarrow> 48 \<le> byte_of c \<and> byte_of c \<le> 57"

definition is_hex :: "char \<Rightarrow> bool" where
  "is_hex c \<longleftrightarrow> (case digit_val c of None \<Rightarrow> False | Some d \<Rightarrow> d < 16)"

definition is_lower :: "char \<Rightarrow> bool" where
  "is_lower c \<longleftrightarrow> 97 \<le> byte_of c \<and> byte_of c \<le> 122"

definition is_num_char :: "char \<Rightarrow> bool" where
  "is_num_char c \<longleftrightarrow> is_digit c \<or> c = CHR ''+'' \<or> c = CHR ''-'' \<or> c = CHR ''.'' \<or>
     c = CHR ''e'' \<or> c = CHR ''E''"

definition valid_exp :: "string \<Rightarrow> bool" where
  "valid_exp r =
     (case r of [] \<Rightarrow> True
      | c # cs \<Rightarrow> (c = CHR ''e'' \<or> c = CHR ''E'') \<and>
          (let ds = (if cs \<noteq> [] \<and> (hd cs = CHR ''+'' \<or> hd cs = CHR ''-'') then tl cs else cs)
           in ds \<noteq> [] \<and> list_all is_digit ds))"

definition valid_frac :: "string \<Rightarrow> bool" where
  "valid_frac r =
     (case r of [] \<Rightarrow> True
      | c # cs \<Rightarrow>
          if c = CHR ''.'' then takeWhile is_digit cs \<noteq> [] \<and> valid_exp (dropWhile is_digit cs)
          else valid_exp r)"

definition valid_number :: "string \<Rightarrow> bool" where
  "valid_number s =
     (let u = (if s \<noteq> [] \<and> hd s = CHR ''-'' then tl s else s); ds = takeWhile is_digit u in
      ds \<noteq> [] \<and> (hd ds = CHR ''0'' \<longrightarrow> length ds = 1) \<and> valid_frac (dropWhile is_digit u))"

definition word_tok :: "string \<Rightarrow> tok option" where
  "word_tok w =
     (if w = ''null'' then Some TNull
      else if w = ''true'' then Some TTrue
      else if w = ''false'' then Some TFalse else None)"

definition begin_char :: "char \<Rightarrow> (lex_state \<times> tok list) option" where
  "begin_char c =
     (if is_ws c then Some (LBegin, [])
      else if c = CHR ''{'' then Some (LBegin, [TLBrace])
      else if c = CHR ''}'' then Some (LBegin, [TRBrace])
      else if c = CHR ''['' then Some (LBegin, [TLBrack])
      else if c = CHR '']'' then Some (LBegin, [TRBrack])
      else if c = CHR '','' then Some (LBegin, [TComma])
      else if c = CHR '':'' then Some (LBegin, [TColon])
      else if c = CHR 0x22 then Some (LString [], [])
      else if is_digit c \<or> c = CHR ''-'' then Some (LNumber [c], [])
      else if is_lower c then Some (LWord [c], [])
      else None)"

text \<open>Close the pending literal, then start afresh with the byte that ended it.\<close>

definition flush_char :: "tok option \<Rightarrow> char \<Rightarrow> (lex_state \<times> tok list) option" where
  "flush_char t c =
     (case t of None \<Rightarrow> None
      | Some t' \<Rightarrow> map_option (\<lambda>(st, ts). (st, t' # ts)) (begin_char c))"

definition num_tok :: "string \<Rightarrow> tok option" where
  "num_tok s = (if valid_number s then Some (TNum s) else None)"

fun lex_step :: "lex_state \<Rightarrow> char \<Rightarrow> (lex_state \<times> tok list) option" where
  "lex_step LBegin c = begin_char c"
| "lex_step (LString acc) c =
     (if c = CHR 0x22 then Some (LBegin, [TStr (rev acc)])
      else if c = CHR 0x5C then Some (LEscape (c # acc), [])
      else if byte_of c < 32 then None
      else Some (LString (c # acc), []))"
| "lex_step (LEscape acc) c =
     (if c = CHR ''u'' then Some (LHex 4 (c # acc), [])
      else if c \<in> {CHR ''b'', CHR ''f'', CHR ''n'', CHR ''r'', CHR ''t'', CHR 0x5C, CHR ''/'', CHR 0x22}
      then Some (LString (c # acc), []) else None)"
| "lex_step (LHex n acc) c =
     (if is_hex c then Some (if n \<le> 1 then LString (c # acc) else LHex (n - 1) (c # acc), [])
      else None)"
| "lex_step (LNumber acc) c =
     (if is_num_char c then Some (LNumber (c # acc), []) else flush_char (num_tok (rev acc)) c)"
| "lex_step (LWord acc) c =
     (if is_lower c then Some (LWord (c # acc), []) else flush_char (word_tok (rev acc)) c)"

definition lex_end :: "lex_state \<Rightarrow> tok list option" where
  "lex_end st =
     (case st of LBegin \<Rightarrow> Some []
      | LNumber acc \<Rightarrow> map_option (\<lambda>t. [t]) (num_tok (rev acc))
      | LWord acc \<Rightarrow> map_option (\<lambda>t. [t]) (word_tok (rev acc))
      | _ \<Rightarrow> None)"

fun lex :: "lex_state \<Rightarrow> string \<Rightarrow> tok list option" where
  "lex st [] = lex_end st"
| "lex st (c # cs) =
     (case lex_step st c of None \<Rightarrow> None
      | Some (st', ts) \<Rightarrow> map_option ((@) ts) (lex st' cs))"

section \<open>Unquoting\<close>

definition hex_val :: "char \<Rightarrow> nat" where
  "hex_val c = (case digit_val c of None \<Rightarrow> 0 | Some d \<Rightarrow> d)"

definition get_u4 :: "string \<Rightarrow> nat option" where
  "get_u4 s =
     (if 4 \<le> length s \<and> list_all is_hex (take 4 s)
      then Some (foldl (\<lambda>a c. 16 * a + hex_val c) 0 (take 4 s)) else None)"

text \<open>The second half of a surrogate pair, if \<open>s\<close> continues with one.\<close>

definition surrogate_pair :: "nat \<Rightarrow> string \<Rightarrow> nat option" where
  "surrogate_pair hi s =
     (if take 2 s = [CHR 0x5C, CHR ''u''] \<and> hi < 56320 then
        (case get_u4 (drop 2 s) of
           Some lo \<Rightarrow> if 56320 \<le> lo \<and> lo < 57344
             then Some (65536 + (hi - 55296) * 1024 + (lo - 56320)) else None
         | None \<Rightarrow> None)
      else None)"

definition unescape_char :: "char \<Rightarrow> char" where
  "unescape_char e =
     (if e = CHR ''b'' then byte 8
      else if e = CHR ''f'' then byte 12
      else if e = CHR ''n'' then byte 10
      else if e = CHR ''r'' then byte 13
      else if e = CHR ''t'' then byte 9
      else e)"

function unquote :: "string \<Rightarrow> string" where
  "unquote [] = []"
| "unquote (c # cs) =
     (if c = CHR 0x5C then
        (case cs of [] \<Rightarrow> []
         | e # ds \<Rightarrow>
            if e = CHR ''u'' then
              (case get_u4 ds of None \<Rightarrow> []
               | Some r \<Rightarrow>
                  if 55296 \<le> r \<and> r < 57344 then
                    (case surrogate_pair r (drop 4 ds) of
                       Some dec \<Rightarrow> encode_rune dec @ unquote (drop 10 ds)
                     | None \<Rightarrow> replacement @ unquote (drop 4 ds))
                  else encode_rune r @ unquote (drop 4 ds))
            else unescape_char e # unquote ds)
      else
        let n = rune_len (c # cs) in
        if n = 0 then replacement @ unquote cs
        else take n (c # cs) @ unquote (drop (n - 1) cs))"
  by pat_completeness auto
termination
  by (relation "measure length") auto

declare unquote.simps(2) [simp del]

section \<open>The value grammar\<close>

datatype frame = FArr "json list" | FObj "(string \<times> json) list" string

datatype mode =
    MValue
  | MArr0
  | MObj0
  | MKey "(string \<times> json) list"
  | MColon "(string \<times> json) list" string
  | MAfter json

definition max_depth :: nat where "max_depth = 10000"

definition begin_value :: "frame list \<Rightarrow> tok \<Rightarrow> (mode \<times> frame list) option" where
  "begin_value st t =
     (case t of
        TNull \<Rightarrow> Some (MAfter JNull, st)
      | TTrue \<Rightarrow> Some (MAfter (JBool True), st)
      | TFalse \<Rightarrow> Some (MAfter (JBool False), st)
      | TNum n \<Rightarrow> Some (MAfter (JNum n), st)
      | TStr s \<Rightarrow> Some (MAfter (JStr (unquote s)), st)
      | TLBrack \<Rightarrow> if length st < max_depth then Some (MArr0, st) else None
      | TLBrace \<Rightarrow> if length st < max_depth then Some (MObj0, st) else None
      | _ \<Rightarrow> None)"

fun parse_step :: "mode \<Rightarrow> frame list \<Rightarrow> tok \<Rightarrow> (mode \<times> frame list) option" where
  "parse_step MValue st t = begin_value st t"
| "parse_step MArr0 st t =
     (if t = TRBrack then Some (MAfter (JArr []), st) else begin_value (FArr [] # st) t)"
| "parse_step MObj0 st t =
     (case t of TRBrace \<Rightarrow> Some (MAfter (JObj []), st)
      | TStr k \<Rightarrow> Some (MColon [] (unquote k), st) | _ \<Rightarrow> None)"
| "parse_step (MKey acc) st t =
     (case t of TStr k \<Rightarrow> Some (MColon acc (unquote k), st) | _ \<Rightarrow> None)"
| "parse_step (MColon acc k) st t =
     (if t = TColon then Some (MValue, FObj acc k # st) else None)"
| "parse_step (MAfter v) st t =
     (case st of
        FArr acc # st' \<Rightarrow>
          (case t of TComma \<Rightarrow> Some (MValue, FArr (v # acc) # st')
           | TRBrack \<Rightarrow> Some (MAfter (JArr (rev (v # acc))), st') | _ \<Rightarrow> None)
      | FObj acc k # st' \<Rightarrow>
          (case t of TComma \<Rightarrow> Some (MKey ((k, v) # acc), st')
           | TRBrace \<Rightarrow> Some (MAfter (JObj (rev ((k, v) # acc))), st') | _ \<Rightarrow> None)
      | [] \<Rightarrow> None)"

fun parse_toks :: "mode \<Rightarrow> frame list \<Rightarrow> tok list \<Rightarrow> json option" where
  "parse_toks m st [] = (case m of MAfter v \<Rightarrow> (if st = [] then Some v else None) | _ \<Rightarrow> None)"
| "parse_toks m st (t # ts) =
     (case parse_step m st t of None \<Rightarrow> None | Some (m', st') \<Rightarrow> parse_toks m' st' ts)"

definition parse_json :: "string \<Rightarrow> json option" where
  "parse_json s = Option.bind (lex LBegin s) (parse_toks MValue [])"

section \<open>Decoding into a struct of strings\<close>

text \<open>
  Field names match exactly or, failing that, up to the case folding of \<open>foldName\<close>: ASCII
  letters, and the two other runes that fold to an ASCII letter (U+212A to \<open>K\<close>, U+017F to
  \<open>S\<close>). Other runes never fold to the ASCII names of the program's structs.
\<close>

definition upper_byte :: "char \<Rightarrow> char" where
  "upper_byte c = (if is_lower c then byte (byte_of c - 32) else c)"

fun fold_name :: "string \<Rightarrow> string" where
  "fold_name (a # b # c # cs) =
     (if a = byte 226 \<and> b = byte 132 \<and> c = byte 170 then CHR ''K'' # fold_name cs
      else if a = byte 197 \<and> b = byte 191 then CHR ''S'' # fold_name (c # cs)
      else upper_byte a # fold_name (b # c # cs))"
| "fold_name [a, b] =
     (if a = byte 197 \<and> b = byte 191 then ''S'' else [upper_byte a, upper_byte b])"
| "fold_name [a] = [upper_byte a]"
| "fold_name [] = []"

definition find_field :: "string list \<Rightarrow> string \<Rightarrow> string option" where
  "find_field names k =
     (if k \<in> set names then Some k else find (\<lambda>n. fold_name n = fold_name k) names)"

type_synonym fields = "(string \<times> string) list"

text \<open>The flag is \<open>True\<close> while no \<open>UnmarshalTypeError\<close> has been recorded.\<close>

fun decode_members :: "(string \<times> json) list \<Rightarrow> fields \<times> bool \<Rightarrow> fields \<times> bool" where
  "decode_members [] (fs, ok) = (fs, ok)"
| "decode_members ((k, v) # kvs) (fs, ok) =
     (case find_field (map fst fs) k of
        None \<Rightarrow> decode_members kvs (fs, ok)
      | Some f \<Rightarrow>
          (case v of
             JStr s \<Rightarrow> decode_members kvs (AList.update f s fs, ok)
           | JNull \<Rightarrow> decode_members kvs (fs, ok)
           | _ \<Rightarrow> decode_members kvs (fs, False)))"

definition unmarshal_strings :: "fields \<Rightarrow> string \<Rightarrow> fields \<times> bool" where
  "unmarshal_strings fs s =
     (case parse_json s of
        None \<Rightarrow> (fs, False)
      | Some (JObj kvs) \<Rightarrow> decode_members kvs (fs, True)
      | Some JNull \<Rightarrow> (fs, True)
      | Some _ \<Rightarrow> (fs, False))"

definition field :: "string \<Rightarrow> fields \<Rightarrow> string" where
  "field f fs = (case map_of fs f of None \<Rightarrow> '''' | Some v \<Rightarrow> v)"

definition fields_json :: "fields \<Rightarrow> json" where
  "fields_json fs = JObj (map (\<lambda>(k, v). (k, JStr v)) fs)"

section \<open>Decoding into a map of arbitrary values\<close>

text \<open>
  \<open>map[string]interface{}\<close> is used only to find the field a failed \<open>Unmarshal\<close> tripped on.
  It fails on its own when a number overflows a \<open>float64\<close>: the literal rounds to infinity
  from \<open>2^1024 - 2^970\<close> on. (Go caps the exponent while reading it; that changes nothing
  for literals shorter than ten thousand digits.)
\<close>

definition digits_value :: "string \<Rightarrow> nat" where
  "digits_value ds = foldl (\<lambda>a c. 10 * a + (byte_of c - 48)) 0 ds"

definition float64_overflows :: "string \<Rightarrow> bool" where
  "float64_overflows s =
     (let u = (if s \<noteq> [] \<and> hd s = CHR ''-'' then tl s else s);
          ip = takeWhile is_digit u; r = dropWhile is_digit u;
          fp = (if r \<noteq> [] \<and> hd r = CHR ''.'' then takeWhile is_digit (tl r) else []);
          r2 = (if r \<noteq> [] \<and> hd r = CHR ''.'' then dropWhile is_digit (tl r) else r);
          ex = (if r2 = [] then 0
                else if tl r2 \<noteq> [] \<and> hd (tl r2) = CHR ''-'' then - int (digits_value (tl (tl r2)))
                else if tl r2 \<noteq> [] \<and> hd (tl r2) = CHR ''+'' then int (digits_value (tl (tl r2)))
                else int (digits_value (tl r2)));
          m = digits_value (ip @ fp); e = ex - int (length fp); b = 2 ^ 1024 - 2 ^ 970
      in if 0 \<le> e then b \<le> m * 10 ^ nat e else b * 10 ^ nat (- e) \<le> m)"

fun numbers_fit :: "json \<Rightarrow> bool" where
  "numbers_fit (JNum n) = (\<not> float64_overflows n)"
| "numbers_fit (JArr vs) = list_all numbers_fit vs"
| "numbers_fit (JObj kvs) = list_all (\<lambda>(k, v). numbers_fit v) kvs"
| "numbers_fit _ = True"

definition unmarshal_map :: "string \<Rightarrow> (string \<times> json) list option" where
  "unmarshal_map s =
     (case parse_json s of
        Some (JObj kvs) \<Rightarrow> if numbers_fit (JObj kvs) then Some kvs else None
      | Some JNull \<Rightarrow> Some []
      | _ \<Rightarrow> None)"

text \<open>The first field, in struct order, whose value is neither absent, \<open>null\<close> nor a string.\<close>

definition bad_field :: "string list \<Rightarrow> (string \<times> json) list \<Rightarrow> string option" where
  "bad_field names v =
     find (\<lambda>nm. case map_of (rev v) nm of
             None \<Rightarrow> False | Some JNull \<Rightarrow> False | Some (JStr _) \<Rightarrow> False | Some _ \<Rightarrow> True) names"

end
