(* ===== verification/Json_Roundtrip.thy ===== *)
theory Json_Roundtrip
  imports Json
begin

text \<open>
  What \<open>Json\<close> prints it reads back: scanning a printed string literal, resolving its
  escapes, scanning a printed value into its tokens, and running the value grammar over
  those tokens. \<open>parse_render\<close> puts them together, and the last section derives the form
  the components use: a marshalled struct of strings is unmarshalled field by field.
\<close>

section \<open>Runes\<close>

lemma map_option_append_Nil [simp]: "map_option ((@) []) x = x"
  by (cases x) auto

lemma map_option_append_append [simp]:
  "map_option ((@) xs) (map_option ((@) ys) z) = map_option ((@) (xs @ ys)) z"
  by (cases z) auto

lemma byte_in_append:
  "byte_in cs i lo hi \<Longrightarrow> i < n \<Longrightarrow> byte_in (take n cs @ r) i lo hi"
  by (auto simp: byte_in_def nth_append)

lemma rune_len_take:
  "rune_len (c # cs) = Suc n \<Longrightarrow> rune_len (c # take n cs @ r) = Suc n"
  by (auto simp: rune_len.simps(2) Let_def split: if_splits intro: byte_in_append)

lemma rune_len_high:
  assumes "rune_len (c # cs) = Suc n" "128 \<le> byte_of c" "x \<in> set (c # take n cs)"
  shows "128 \<le> byte_of x"
proof -
  have "128 \<le> byte_of (cs ! i)" if "i < n" "i < length cs" for i
    using assms(1,2) that
    by (auto simp: rune_len.simps(2) Let_def byte_in_def less_Suc_eq numeral_eq_Suc split: if_splits)
  with assms(2,3) show ?thesis by (auto simp: in_set_conv_nth)
qed

lemma sanitize_valid: "utf8_valid s \<Longrightarrow> sanitize s = s"
proof (induction s rule: utf8_valid.induct)
  case (2 c cs)
  then obtain n where n: "rune_len (c # cs) = Suc n"
    by (cases "rune_len (c # cs)") (auto simp: Let_def)
  with 2 show ?case by (simp add: Let_def)
qed simp

lemma utf8_valid_ascii: "list_all (\<lambda>c. byte_of c < 128) s \<Longrightarrow> utf8_valid s"
  by (induction s) (auto simp: Let_def)

section \<open>Scanning a string literal\<close>

definition plain :: "char \<Rightarrow> bool" where
  "plain c \<longleftrightarrow> c \<noteq> CHR 0x22 \<and> c \<noteq> CHR 0x5C \<and> 32 \<le> byte_of c"

lemma lex_plain: "plain c \<Longrightarrow> lex (LString acc) (c # r) = lex (LString (c # acc)) r"
  by (simp add: plain_def)

lemma lex_plains:
  "list_all plain p \<Longrightarrow> lex (LString acc) (p @ r) = lex (LString (rev p @ acc)) r"
  by (induction p arbitrary: acc) (auto simp: lex_plain simp del: lex.simps)

lemma lex_escape2:
  "e \<in> {CHR ''b'', CHR ''f'', CHR ''n'', CHR ''r'', CHR ''t'', CHR 0x5C, CHR ''/'', CHR 0x22} \<Longrightarrow>
   lex (LString acc) (CHR 0x5C # e # r) = lex (LString (e # CHR 0x5C # acc)) r"
  by auto

lemma lex_escape_u:
  "is_hex a \<Longrightarrow> is_hex b \<Longrightarrow> is_hex c \<Longrightarrow> is_hex d \<Longrightarrow>
   lex (LString acc) (CHR 0x5C # CHR ''u'' # a # b # c # d # r) =
   lex (LString (d # c # b # a # CHR ''u'' # CHR 0x5C # acc)) r"
  by simp

lemma digit_val_hex_digit: "n < 16 \<Longrightarrow> digit_val (hex_digit n) = Some n"
  by (simp add: hex_digit_def digit_val_digit_char)

lemma is_hex_hex_digit [simp]: "n < 16 \<Longrightarrow> is_hex (hex_digit n)"
  by (simp add: is_hex_def digit_val_hex_digit)

lemma is_hex_literals [simp]:
  "is_hex CHR ''0''" "is_hex CHR ''2''" "is_hex CHR ''f''" "is_hex CHR ''d''"
  by (simp_all add: is_hex_def digit_val_def)

lemma lex_escape_ascii:
  assumes "byte_of c < 128"
  shows "lex (LString acc) (escape_ascii c @ r) = lex (LString (rev (escape_ascii c) @ acc)) r"
proof -
  have "byte_of c div 16 < 16" "byte_of c mod 16 < 16" using assms by auto
  then show ?thesis
    by (simp add: escape_ascii_def Let_def lex_escape2 lex_escape_u lex_plain plain_def
        del: lex.simps)
qed

lemma lex_escape: "lex (LString acc) (escape s @ r) = lex (LString (rev (escape s) @ acc)) r"
proof (induction s arbitrary: acc rule: escape.induct)
  case (2 c cs)
  consider "byte_of c < 128" | "\<not> byte_of c < 128" "rune_len (c # cs) = 0"
    | n where "\<not> byte_of c < 128" "rune_len (c # cs) = Suc n" "line_sep (c # cs)"
    | n where "\<not> byte_of c < 128" "rune_len (c # cs) = Suc n" "\<not> line_sep (c # cs)"
    by (cases "rune_len (c # cs)") auto
  then show ?case
  proof cases
    case 1
    with 2(1) show ?thesis by (simp add: lex_escape_ascii del: lex.simps)
  next
    case 2
    with "2.IH"(2) show ?thesis
      by (simp add: lex_escape_u Let_def del: lex.simps)
  next
    case (3 n)
    then have "byte_of ((c # cs) ! 2) - 160 < 16" by (auto simp: line_sep_def byte_in_def)
    with 3 "2.IH"(3) show ?thesis
      by (simp add: lex_escape_u Let_def del: lex.simps)
  next
    case (4 n)
    have "plain x" if "x \<in> set (c # take n cs)" for x
      using rune_len_high [OF 4(2) _ that] 4(1) by (auto simp: plain_def)
    then have "list_all plain (c # take n cs)" by (simp add: list_all_iff)
    then have "lex (LString acc) ((c # take n cs) @ s) = lex (LString (rev (c # take n cs) @ acc)) s"
      for s by (rule lex_plains)
    with 4 "2.IH"(4) show ?thesis
      by (simp add: Let_def del: lex.simps)
  qed
qed simp

lemma lex_quote: "lex LBegin (quote s @ r) = map_option ((#) (TStr (escape s))) (lex LBegin r)"
proof -
  have "lex LBegin (quote s @ r) = lex (LString []) (escape s @ CHR 0x22 # r)"
    by (simp add: quote_def begin_char_def is_ws_def)
  also have "\<dots> = lex (LString (rev (escape s))) (CHR 0x22 # r)"
    by (simp add: lex_escape del: lex.simps)
  also have "\<dots> = map_option ((#) (TStr (escape s))) (lex LBegin r)"
    by (cases "lex LBegin r") auto
  finally show ?thesis .
qed

section \<open>Resolving the escapes\<close>

lemma hex_val_hex_digit: "n < 16 \<Longrightarrow> hex_val (hex_digit n) = n"
  by (simp add: hex_val_def digit_val_hex_digit)

lemma hex_val_literals [simp]:
  "hex_val CHR ''0'' = 0" "hex_val CHR ''2'' = 2" "hex_val CHR ''f'' = 15" "hex_val CHR ''d'' = 13"
  by (simp_all add: hex_val_def digit_val_def)

lemma unquote_u:
  assumes "is_hex a" "is_hex b" "is_hex c" "is_hex d"
    and v: "v = ((hex_val a * 16 + hex_val b) * 16 + hex_val c) * 16 + hex_val d"
    and "\<not> (55296 \<le> v \<and> v < 57344)"
  shows "unquote (CHR 0x5C # CHR ''u'' # a # b # c # d # r) = encode_rune v @ unquote r"
proof -
  have "get_u4 (a # b # c # d # r) = Some v"
    using assms(1-4) by (simp add: get_u4_def v mult.commute)
  with assms(6) show ?thesis by (auto simp: unquote.simps(2))
qed

lemma unquote_escape2:
  "e \<noteq> CHR ''u'' \<Longrightarrow> unquote (CHR 0x5C # e # r) = unescape_char e # unquote r"
  by (simp add: unquote.simps(2))

lemma rune_len_length: "rune_len (c # cs) = Suc n \<Longrightarrow> n \<le> length cs"
  by (auto simp: rune_len.simps(2) Let_def byte_in_def Suc_le_eq split: if_splits)

lemma unquote_rune:
  "rune_len (c # cs) = Suc n \<Longrightarrow> c \<noteq> CHR 0x5C \<Longrightarrow>
   unquote (c # take n cs @ r) = c # take n cs @ unquote r"
  using rune_len_take [of c cs n r] rune_len_length [of c cs n]
  by (simp add: unquote.simps(2) Let_def)

lemma byte_byte_of [simp]: "byte (byte_of c) = c"
  by (rule char_of_char)

lemma byte_eqI: "byte_of c = n \<Longrightarrow> byte n = c"
  using byte_byte_of by blast

lemma unquote_escape_ascii:
  assumes "byte_of c < 128"
  shows "unquote (escape_ascii c @ r) = c # unquote r"
proof -
  let ?b = "byte_of c"
  have h: "?b div 16 < 16" "?b mod 16 < 16" using assms by auto
  have u: "unquote (CHR 0x5C # CHR ''u'' # CHR ''0'' # CHR ''0'' # hex_digit (?b div 16) #
      hex_digit (?b mod 16) # r) = c # unquote r"
    using h assms unquote_u [of "CHR ''0''" "CHR ''0''" "hex_digit (?b div 16)"
        "hex_digit (?b mod 16)" ?b r]
    by (simp add: hex_val_hex_digit encode_rune_def)
  have p: "unquote (c # r) = c # unquote r" if "c \<noteq> CHR 0x5C"
    using that unquote_rune [of c "[]" 0 r] assms by simp
  show ?thesis
    using u p by (auto simp: escape_ascii_def Let_def unquote_escape2 unescape_char_def byte_eqI)
qed

lemma unquote_ufffd: "unquote (CHR 0x5C # ''ufffd'' @ r) = replacement @ unquote r"
  using unquote_u [of "CHR ''f''" "CHR ''f''" "CHR ''f''" "CHR ''d''" 65533 r]
  by (simp add: encode_rune_def replacement_def)

lemma line_sep_len:
  assumes "line_sep (c # cs)"
  shows "rune_len (c # cs) = 3"
    and "take 3 (c # cs) = encode_rune (8192 + (32 + (byte_of ((c # cs) ! 2) - 160)))"
proof -
  from assms obtain d where d: "c = byte 226" "take 1 cs = [byte 128]" "byte_in (c # cs) 2 168 169"
    by (auto simp: line_sep_def numeral_2_eq_2)
  then obtain e rest where cs: "cs = byte 128 # e # rest" and e: "168 \<le> byte_of e" "byte_of e \<le> 169"
    by (cases cs; cases "tl cs") (auto simp: byte_in_def)
  show "rune_len (c # cs) = 3"
    using d(1) cs e by (simp add: rune_len.simps(2) byte_in_def)
  have "byte_of e = 168 \<or> byte_of e = 169" using e by linarith
  then have "encode_rune (8192 + (32 + (byte_of e - 160))) = [byte 226, byte 128, byte (byte_of e)]"
    by (auto simp: encode_rune_def byte_eqI)
  then show "take 3 (c # cs) = encode_rune (8192 + (32 + (byte_of ((c # cs) ! 2) - 160)))"
    using d(1) cs by simp
qed

lemma unquote_escape: "unquote (escape s) = sanitize s"
proof (induction s rule: escape.induct)
  case (2 c cs)
  consider "byte_of c < 128" | "\<not> byte_of c < 128" "rune_len (c # cs) = 0"
    | n where "\<not> byte_of c < 128" "rune_len (c # cs) = Suc n" "line_sep (c # cs)"
    | n where "\<not> byte_of c < 128" "rune_len (c # cs) = Suc n" "\<not> line_sep (c # cs)"
    by (cases "rune_len (c # cs)") auto
  then show ?case
  proof cases
    case 1
    with "2.IH"(1) show ?thesis by (simp add: unquote_escape_ascii Let_def)
  next
    case 2
    with "2.IH"(2) unquote_ufffd [of "escape cs"] show ?thesis by (simp add: Let_def)
  next
    case (3 n)
    let ?h = "byte_of ((c # cs) ! 2) - 160"
    from 3 have h: "?h < 16" by (auto simp: line_sep_def byte_in_def)
    from line_sep_len [OF 3(3)] 3(2) have n: "n = 2"
      and "take 3 (c # cs) = encode_rune (8192 + (32 + ?h))" by simp_all
    moreover have "take 3 (c # cs) = c # take 2 cs" by (simp add: numeral_3_eq_3 numeral_2_eq_2)
    ultimately have t: "c # take 2 cs = encode_rune (8192 + (32 + ?h))" by simp
    have "unquote (CHR 0x5C # CHR ''u'' # CHR ''2'' # CHR ''0'' # CHR ''2'' # hex_digit ?h # r)
        = encode_rune (8192 + (32 + ?h)) @ unquote r" for r
      using h by (intro unquote_u) (auto simp: hex_val_hex_digit)
    with t 3 n "2.IH"(3) show ?thesis by (simp add: Let_def)
  next
    case (4 n)
    then have "c \<noteq> CHR 0x5C" by auto
    with 4 "2.IH"(4) show ?thesis by (simp add: Let_def unquote_rune)
  qed
qed simp

section \<open>Scanning a printed value\<close>

fun toks :: "json \<Rightarrow> tok list" where
  "toks JNull = [TNull]"
| "toks (JBool b) = [if b then TTrue else TFalse]"
| "toks (JNum n) = [TNum n]"
| "toks (JStr s) = [TStr (escape s)]"
| "toks (JArr vs) = TLBrack # sep_by [TComma] (map toks vs) @ [TRBrack]"
| "toks (JObj kvs) =
     TLBrace # sep_by [TComma] (map (\<lambda>(k, v). TStr (escape k) # TColon # toks v) kvs) @ [TRBrace]"

fun numbers_ok :: "json \<Rightarrow> bool" where
  "numbers_ok (JNum n) = valid_number n"
| "numbers_ok (JArr vs) = list_all numbers_ok vs"
| "numbers_ok (JObj kvs) = list_all (\<lambda>(k, v). numbers_ok v) kvs"
| "numbers_ok _ = True"

definition delimited :: "string \<Rightarrow> bool" where
  "delimited r \<longleftrightarrow> r = [] \<or> \<not> is_num_char (hd r) \<and> \<not> is_lower (hd r)"

lemma lex_LNumber_run:
  "list_all is_num_char p \<Longrightarrow> lex (LNumber acc) (p @ r) = lex (LNumber (rev p @ acc)) r"
  by (induction p arbitrary: acc) auto

lemma lex_LWord_run:
  "list_all is_lower p \<Longrightarrow> lex (LWord acc) (p @ r) = lex (LWord (rev p @ acc)) r"
  by (induction p arbitrary: acc) auto

lemma lex_flush_step:
  assumes "lex_step st c = flush_char (Some t) c"
  shows "lex st (c # cs) = map_option ((#) t) (lex LBegin (c # cs))"
proof (cases "begin_char c")
  case None
  then show ?thesis using assms by (simp add: flush_char_def)
next
  case (Some p)
  obtain st' ts where p: "p = (st', ts)" by (cases p)
  show ?thesis using assms Some p
    by (cases "lex st' cs") (simp_all add: flush_char_def)
qed

lemma lex_flush_number:
  assumes "delimited r" "num_tok (rev acc) = Some t"
  shows "lex (LNumber acc) r = map_option ((#) t) (lex LBegin r)"
proof (cases r)
  case Nil
  then show ?thesis using assms(2) by (simp add: lex_end_def)
next
  case (Cons c cs)
  then have "lex_step (LNumber acc) c = flush_char (Some t) c"
    using assms by (simp add: delimited_def)
  then show ?thesis unfolding Cons by (rule lex_flush_step)
qed

lemma lex_flush_word:
  assumes "delimited r" "word_tok (rev acc) = Some t"
  shows "lex (LWord acc) r = map_option ((#) t) (lex LBegin r)"
proof (cases r)
  case Nil
  then show ?thesis using assms(2) by (simp add: lex_end_def)
next
  case (Cons c cs)
  then have "lex_step (LWord acc) c = flush_char (Some t) c"
    using assms by (simp add: delimited_def)
  then show ?thesis unfolding Cons by (rule lex_flush_step)
qed

lemma lex_word:
  assumes "delimited r" "word_tok (c # w) = Some t" "list_all is_lower (c # w)"
    and "begin_char c = Some (LWord [c], [])"
  shows "lex LBegin ((c # w) @ r) = map_option ((#) t) (lex LBegin r)"
proof -
  have w: "list_all is_lower w" using assms(3) by simp
  have "lex LBegin ((c # w) @ r) = lex (LWord [c]) (w @ r)" by (simp add: assms(4))
  also have "\<dots> = lex (LWord (rev (c # w))) r" by (simp add: lex_LWord_run [OF w])
  also have "\<dots> = map_option ((#) t) (lex LBegin r)"
    using assms(1,2) by (intro lex_flush_word) simp_all
  finally show ?thesis .
qed

lemma digits_num_chars: "list_all is_digit ds \<Longrightarrow> list_all is_num_char ds"
  by (auto simp: list_all_iff is_num_char_def)

lemma valid_exp_chars: "valid_exp r \<Longrightarrow> list_all is_num_char r"
proof (cases r)
  case (Cons c cs)
  assume "valid_exp r"
  with Cons have c: "is_num_char c"
    and ds: "list_all is_digit (if cs \<noteq> [] \<and> (hd cs = CHR ''+'' \<or> hd cs = CHR ''-'') then tl cs else cs)"
    by (auto simp: valid_exp_def Let_def is_num_char_def)
  have "list_all is_num_char cs"
  proof (cases "cs \<noteq> [] \<and> (hd cs = CHR ''+'' \<or> hd cs = CHR ''-'')")
    case True
    then have "is_num_char (hd cs)" by (auto simp: is_num_char_def)
    moreover have "list_all is_num_char (tl cs)" using True ds by (simp add: digits_num_chars)
    ultimately show ?thesis using True by (cases cs) simp_all
  next
    case False
    with ds show ?thesis by (simp add: digits_num_chars)
  qed
  with c Cons show ?thesis by simp
qed simp

lemma takeWhile_digits: "list_all is_num_char (takeWhile is_digit r)"
  by (auto simp: list_all_iff is_num_char_def dest: set_takeWhileD)

lemma chars_split:
  "list_all is_num_char (dropWhile is_digit r) \<Longrightarrow> list_all is_num_char r"
  using takeWhile_digits [of r] takeWhile_dropWhile_id [of is_digit r]
  by (metis list_all_append)

lemma valid_frac_chars: "valid_frac r \<Longrightarrow> list_all is_num_char r"
proof (cases r)
  case (Cons c cs)
  assume v: "valid_frac r"
  show ?thesis
  proof (cases "c = CHR ''.''")
    case True
    with v Cons have "valid_exp (dropWhile is_digit cs)" by (simp add: valid_frac_def)
    then have "list_all is_num_char cs" by (rule chars_split [OF valid_exp_chars])
    with True Cons show ?thesis by (simp add: is_num_char_def)
  next
    case False
    with v Cons have "valid_exp r" by (simp add: valid_frac_def)
    then show ?thesis by (rule valid_exp_chars)
  qed
qed simp

lemma valid_number_chars:
  assumes "valid_number n"
  shows "list_all is_num_char n" and "n \<noteq> []" and "is_digit (hd n) \<or> hd n = CHR ''-''"
proof -
  define u where "u = (if n \<noteq> [] \<and> hd n = CHR ''-'' then tl n else n)"
  from assms have ne: "takeWhile is_digit u \<noteq> []" and f: "valid_frac (dropWhile is_digit u)"
    by (simp_all add: valid_number_def Let_def u_def)
  from f have u: "list_all is_num_char u" by (rule chars_split [OF valid_frac_chars])
  from ne have "u \<noteq> []" "is_digit (hd u)" by (cases u; simp split: if_splits)+
  then show "n \<noteq> []" and "is_digit (hd n) \<or> hd n = CHR ''-''"
    by (auto simp: u_def split: if_splits)
  show "list_all is_num_char n"
  proof (cases "n \<noteq> [] \<and> hd n = CHR ''-''")
    case True
    with u show ?thesis by (cases n) (auto simp: u_def is_num_char_def)
  next
    case False
    with u show ?thesis by (auto simp: u_def)
  qed
qed

lemma begin_char_number:
  assumes "is_digit c \<or> c = CHR ''-''"
  shows "begin_char c = Some (LNumber [c], [])"
proof -
  have "byte_of c = 45 \<or> (48 \<le> byte_of c \<and> byte_of c \<le> 57)" using assms by (auto simp: is_digit_def)
  then have "c \<noteq> CHR ''{''" "c \<noteq> CHR ''}''" "c \<noteq> CHR ''[''" "c \<noteq> CHR '']''" "c \<noteq> CHR '',''"
    "c \<noteq> CHR '':''" "c \<noteq> CHR 0x22" "\<not> is_ws c"
    by (auto simp: is_ws_def)
  with assms show ?thesis by (simp add: begin_char_def)
qed

lemma lex_number:
  assumes "valid_number n" "delimited r"
  shows "lex LBegin (n @ r) = map_option ((#) (TNum n)) (lex LBegin r)"
proof -
  from valid_number_chars [OF assms(1)] obtain c cs where n: "n = c # cs"
    and c: "is_digit c \<or> c = CHR ''-''" and cs: "list_all is_num_char cs"
    by (cases n) auto
  have "lex LBegin (n @ r) = lex (LNumber [c]) (cs @ r)"
    by (simp add: n begin_char_number [OF c])
  also have "\<dots> = lex (LNumber (rev n)) r" by (simp add: lex_LNumber_run [OF cs] n)
  also have "\<dots> = map_option ((#) (TNum n)) (lex LBegin r)"
    using assms by (intro lex_flush_number) (auto simp: num_tok_def)
  finally show ?thesis .
qed

lemma lex_punct:
  "lex LBegin (CHR ''{'' # r) = map_option ((#) TLBrace) (lex LBegin r)"
  "lex LBegin (CHR ''}'' # r) = map_option ((#) TRBrace) (lex LBegin r)"
  "lex LBegin (CHR ''['' # r) = map_option ((#) TLBrack) (lex LBegin r)"
  "lex LBegin (CHR '']'' # r) = map_option ((#) TRBrack) (lex LBegin r)"
  "lex LBegin (CHR '','' # r) = map_option ((#) TComma) (lex LBegin r)"
  "lex LBegin (CHR '':'' # r) = map_option ((#) TColon) (lex LBegin r)"
  by (cases "lex LBegin r"; simp add: begin_char_def is_ws_def)+

declare lex.simps(2) [simp del]

lemma delimited_simps [simp]:
  "delimited []" "delimited (CHR '','' # r)" "delimited (CHR '']'' # r)" "delimited (CHR ''}'' # r)"
  by (simp_all add: delimited_def is_num_char_def is_digit_def is_lower_def)

lemma map_option_Cons_append [simp]:
  "map_option ((#) x) (map_option ((@) ys) z) = map_option ((@) (x # ys)) z"
  "map_option ((@) ys) (map_option ((#) x) z) = map_option ((@) (ys @ [x])) z"
  "map_option ((#) x) (map_option ((#) y) z) = map_option ((@) [x, y]) z"
  by (cases z; simp)+

text \<open>
  A printed list of items between separators: \<open>R\<close> prints an item, \<open>T\<close> is its tokens.
\<close>

lemma lex_sep_by:
  assumes item: "\<And>x r. x \<in> set xs \<Longrightarrow> delimited r \<Longrightarrow>
      lex LBegin (R x @ r) = map_option ((@) (T x)) (lex LBegin r)"
    and "c = CHR '']'' \<or> c = CHR ''}''"
  shows "lex LBegin (sep_by '','' (map R xs) @ c # r) =
    map_option ((@) (sep_by [TComma] (map T xs))) (lex LBegin (c # r))"
  using item
proof (induction xs rule: induct_list012)
  case 1
  then show ?case by (simp add: option.map_ident)
next
  case (2 x)
  have "delimited (c # r)" using assms(2) by auto
  then show ?case using 2 by simp
next
  case (3 x y zs)
  then have IH: "lex LBegin (sep_by '','' (map R (y # zs)) @ c # r) =
      map_option ((@) (sep_by [TComma] (map T (y # zs)))) (lex LBegin (c # r))" by simp
  have "lex LBegin (R x @ CHR '','' # q) = map_option ((@) (T x @ [TComma])) (lex LBegin q)" for q
    using 3(3) [of x "CHR '','' # q"] by (simp add: lex_punct)
  with IH show ?case by (cases "lex LBegin (c # r)") simp_all
qed

lemma lex_render:
  "numbers_ok j \<Longrightarrow> delimited r \<Longrightarrow>
   lex LBegin (render j @ r) = map_option ((@) (toks j)) (lex LBegin r)"
proof (induction j arbitrary: r rule: render.induct)
  case 1
  have "lex LBegin ((CHR ''n'' # ''ull'') @ r) = map_option ((#) TNull) (lex LBegin r)"
    using 1(2) by (rule lex_word)
      (simp_all add: word_tok_def is_lower_def begin_char_def is_ws_def is_digit_def)
  then show ?case by (cases "lex LBegin r") simp_all
next
  case (2 b)
  have "lex LBegin ((CHR ''t'' # ''rue'') @ r) = map_option ((#) TTrue) (lex LBegin r)"
    "lex LBegin ((CHR ''f'' # ''alse'') @ r) = map_option ((#) TFalse) (lex LBegin r)"
    using 2(2) by (rule lex_word;
      simp add: word_tok_def is_lower_def begin_char_def is_ws_def is_digit_def)+
  then show ?case by (cases "lex LBegin r") simp_all
next
  case (3 n)
  then show ?case by (cases "lex LBegin r") (simp_all add: lex_number)
next
  case (4 s)
  then show ?case by (cases "lex LBegin r") (simp_all add: lex_quote)
next
  case (5 vs)
  then have "lex LBegin (render v @ q) = map_option ((@) (toks v)) (lex LBegin q)"
    if "v \<in> set vs" "delimited q" for v q using that by (simp add: list_all_iff)
  then have "lex LBegin (sep_by '','' (map render vs) @ CHR '']'' # r) =
      map_option ((@) (sep_by [TComma] (map toks vs))) (lex LBegin (CHR '']'' # r))"
    by (rule lex_sep_by) simp_all
  then show ?case by (cases "lex LBegin r") (simp_all add: lex_punct)
next
  case (6 kvs)
  let ?R = "\<lambda>(k, v). quote k @ '':'' @ render v"
  let ?T = "\<lambda>(k, v). TStr (escape k) # TColon # toks v"
  have "lex LBegin (?R p @ q) = map_option ((@) (?T p)) (lex LBegin q)"
    if "p \<in> set kvs" "delimited q" for p q
  proof (cases p)
    case (Pair k v)
    with that 6(1) [OF that(1) Pair [symmetric]] 6(2) have
      "lex LBegin (render v @ q) = map_option ((@) (toks v)) (lex LBegin q)"
      by (auto simp: list_all_iff)
    with Pair show ?thesis by (simp add: lex_quote lex_punct)
  qed
  then have "lex LBegin (sep_by '','' (map ?R kvs) @ CHR ''}'' # r) =
      map_option ((@) (sep_by [TComma] (map ?T kvs))) (lex LBegin (CHR ''}'' # r))"
    by (rule lex_sep_by) simp_all
  then show ?case by (cases "lex LBegin r") (simp_all add: lex_punct)
qed

section \<open>Parsing a printed value\<close>

text \<open>The value with every string made valid UTF-8, which is what comes back.\<close>

fun clean :: "json \<Rightarrow> json" where
  "clean (JStr s) = JStr (sanitize s)"
| "clean (JArr vs) = JArr (map clean vs)"
| "clean (JObj kvs) = JObj (map (\<lambda>(k, v). (sanitize k, clean v)) kvs)"
| "clean j = j"

fun depth :: "json \<Rightarrow> nat" where
  "depth (JArr vs) = Suc (foldr max (map depth vs) 0)"
| "depth (JObj kvs) = Suc (foldr max (map (\<lambda>(k, v). depth v) kvs) 0)"
| "depth _ = 0"

lemma foldr_max_le: "foldr max xs (0::nat) \<le> n \<longleftrightarrow> (\<forall>x \<in> set xs. x \<le> n)"
  by (induction xs) auto

lemma foldr_max_ge: "x \<in> set xs \<Longrightarrow> (x::nat) \<le> foldr max xs 0"
  using foldr_max_le [of xs] by blast

definition parses :: "json \<Rightarrow> frame list \<Rightarrow> bool" where
  "parses v st \<longleftrightarrow>
     (\<forall>ts. parse_toks MValue st (toks v @ ts) = parse_toks (MAfter (clean v)) st ts)"

lemma parse_elems:
  "(\<And>v acc. v \<in> set vs \<Longrightarrow> parses v (FArr acc # st)) \<Longrightarrow> vs \<noteq> [] \<Longrightarrow>
   parse_toks MValue (FArr acc # st) (sep_by [TComma] (map toks vs) @ TRBrack # ts) =
   parse_toks (MAfter (JArr (rev acc @ map clean vs))) st ts"
proof (induction vs arbitrary: acc rule: induct_list012)
  case (2 v)
  then show ?case by (simp add: parses_def)
next
  case (3 v w vs)
  then have "parses v (FArr acc # st)" by simp
  moreover have "parse_toks MValue (FArr (clean v # acc) # st)
      (sep_by [TComma] (map toks (w # vs)) @ TRBrack # ts) =
      parse_toks (MAfter (JArr (rev (clean v # acc) @ map clean (w # vs)))) st ts"
    using 3 by (intro 3(2)) simp_all
  ultimately show ?case by (simp add: parses_def)
qed simp

lemma parse_members:
  "(\<And>k v acc k'. (k, v) \<in> set kvs \<Longrightarrow> parses v (FObj acc k' # st)) \<Longrightarrow> kvs \<noteq> [] \<Longrightarrow>
   m = MKey acc \<or> m = MObj0 \<and> acc = [] \<Longrightarrow>
   parse_toks m st (sep_by [TComma] (map (\<lambda>(k, v). TStr (escape k) # TColon # toks v) kvs) @
       TRBrace # ts) =
   parse_toks (MAfter (JObj (rev acc @ map (\<lambda>(k, v). (sanitize k, clean v)) kvs))) st ts"
proof (induction kvs arbitrary: acc m rule: induct_list012)
  case (2 p)
  then show ?case by (cases p) (auto simp: parses_def unquote_escape)
next
  case (3 p q kvs)
  obtain k v where p: "p = (k, v)" by (cases p)
  have v: "parses v (FObj acc (sanitize k) # st)"
    using 3(3) [of k v acc "sanitize k"] p by simp
  have "parse_toks (MKey ((sanitize k, clean v) # acc)) st (sep_by [TComma]
      (map (\<lambda>(k, v). TStr (escape k) # TColon # toks v) (q # kvs)) @ TRBrace # ts) =
      parse_toks (MAfter (JObj (rev ((sanitize k, clean v) # acc) @
        map (\<lambda>(k, v). (sanitize k, clean v)) (q # kvs)))) st ts"
    using 3(3) by (intro 3(2)) auto
  with v p 3(5) show ?case by (auto simp: parses_def unquote_escape)
qed simp

lemma toks_head: "\<exists>t ts. toks v = t # ts \<and> t \<noteq> TRBrack"
  by (cases v) auto

lemma parses_render: "length st + depth v \<le> max_depth \<Longrightarrow> parses v st"
proof (induction v arbitrary: st rule: depth.induct)
  case (1 vs)
  have len: "length st < max_depth" using 1(2) by simp
  have elem: "parses v (FArr acc # st)" if "v \<in> set vs" for v acc
  proof (rule 1(1) [OF that])
    have "depth v \<le> foldr max (map depth vs) 0" using that by (simp add: foldr_max_ge)
    then show "length (FArr acc # st) + depth v \<le> max_depth" using 1(2) by simp
  qed
  show ?case
  proof (cases vs)
    case Nil
    then show ?thesis using len by (simp add: parses_def begin_value_def)
  next
    case (Cons w ws)
    obtain t tl where t: "sep_by [TComma] (map toks vs) = t # tl" "t \<noteq> TRBrack"
      using toks_head [of w] Cons by (cases ws) auto
    show ?thesis unfolding parses_def
    proof
      fix ts
      have "parse_toks MValue st (toks (JArr vs) @ ts) =
          parse_toks MArr0 st (sep_by [TComma] (map toks vs) @ TRBrack # ts)"
        using len by (simp add: begin_value_def)
      also have "\<dots> = parse_toks MValue (FArr [] # st) (sep_by [TComma] (map toks vs) @ TRBrack # ts)"
        using t by simp
      also have "\<dots> = parse_toks (MAfter (clean (JArr vs))) st ts"
        using Cons by (subst parse_elems [OF elem]) simp_all
      finally show "parse_toks MValue st (toks (JArr vs) @ ts) =
          parse_toks (MAfter (clean (JArr vs))) st ts" .
    qed
  qed
next
  case (2 kvs)
  have len: "length st < max_depth" using 2(2) by simp
  have member: "parses v (FObj acc k' # st)" if "(k, v) \<in> set kvs" for k v acc k'
  proof (rule 2(1) [OF that refl])
    have "depth v \<le> foldr max (map (\<lambda>(k, v). depth v) kvs) 0"
      by (rule foldr_max_ge) (use that in force)
    then show "length (FObj acc k' # st) + depth v \<le> max_depth" using 2(2) by simp
  qed
  show ?case
  proof (cases "kvs = []")
    case True
    then show ?thesis using len by (simp add: parses_def begin_value_def)
  next
    case False
    then have "parse_toks MObj0 st (sep_by [TComma]
        (map (\<lambda>(k, v). TStr (escape k) # TColon # toks v) kvs) @ TRBrace # ts) =
      parse_toks (MAfter (clean (JObj kvs))) st ts" for ts
      by (subst parse_members [OF member, where acc = "[]"]) simp_all
    with len show ?thesis by (simp add: parses_def begin_value_def)
  qed
qed (simp_all add: parses_def begin_value_def unquote_escape)

theorem parse_render:
  assumes "numbers_ok j" "depth j \<le> max_depth"
  shows "parse_json (render j) = Some (clean j)"
proof -
  have "lex LBegin (render j @ []) = map_option ((@) (toks j)) (lex LBegin [])"
    using assms(1) by (rule lex_render) simp
  then have "lex LBegin (render j) = Some (toks j)" by (simp add: lex_end_def)
  moreover have "parse_toks MValue [] (toks j @ []) = parse_toks (MAfter (clean j)) [] []"
    using parses_render [of "[]" j] assms(2) unfolding parses_def by (metis add_0 list.size(3))
  ultimately show ?thesis by (simp add: parse_json_def)
qed

section \<open>Structs of strings\<close>

lemma utf8_valid_sanitize [simp]: "utf8_valid (sanitize s)"
proof (induction s rule: sanitize.induct)
  case (2 c cs)
  show ?case
  proof (cases "rune_len (c # cs)")
    case 0
    have "rune_len (byte 239 # byte 191 # byte 189 # r) = 3" for r
      by (simp add: rune_len.simps(2) byte_in_def)
    with 0 2(1) show ?thesis by (simp add: replacement_def Let_def)
  next
    case (Suc n)
    have "rune_len (c # take n cs @ sanitize (drop n cs)) = Suc n" by (rule rune_len_take [OF Suc])
    moreover have "drop n (take n cs @ r) = r" for r
      using rune_len_length [OF Suc] by simp
    ultimately show ?thesis using Suc 2(2) by (simp add: Let_def)
  qed
qed simp

lemma sanitize_idem [simp]: "sanitize (sanitize s) = sanitize s"
  by (simp add: sanitize_valid)

lemma sanitize_ascii: "list_all (\<lambda>c. byte_of c < 128) s \<Longrightarrow> sanitize s = s"
  by (simp add: sanitize_valid utf8_valid_ascii)

lemma field_update [simp]: "field f (AList.update k v fs) = (if f = k then v else field f fs)"
  by (simp add: field_def update_conv)

lemma fst_update: "k \<in> set (map fst fs) \<Longrightarrow> map fst (AList.update k v fs) = map fst fs"
  by (induction fs) auto

lemma update_middle:
  "k \<notin> set (map fst xs) \<Longrightarrow> AList.update k v (xs @ (k, w) # ys) = xs @ (k, v) # ys"
  by (induction xs) auto

abbreviation str_members :: "fields \<Rightarrow> (string \<times> json) list" where
  "str_members \<equiv> map (\<lambda>(k, v). (k, JStr v))"

text \<open>Members that name fields of the struct set them, in order.\<close>

lemma decode_known:
  "set (map fst gs) \<subseteq> set (map fst fs) \<Longrightarrow>
   decode_members (str_members gs) (fs, ok) = (fold (\<lambda>(k, v). AList.update k v) gs fs, ok)"
proof (induction gs arbitrary: fs)
  case (Cons g gs)
  obtain k v where g: "g = (k, v)" by (cases g)
  with Cons.prems have k: "k \<in> set (map fst fs)" by simp
  then have "set (map fst gs) \<subseteq> set (map fst (AList.update k v fs))"
    using Cons.prems by (simp only: fst_update) simp
  from Cons.IH [OF this] g k show ?case by (simp add: find_field_def)
qed simp

lemma fold_update_all:
  "map fst gs = map fst rest \<Longrightarrow> distinct (map fst (prefix @ rest)) \<Longrightarrow>
   fold (\<lambda>(k, v). AList.update k v) gs (prefix @ rest) = prefix @ gs"
proof (induction gs arbitrary: prefix rest)
  case (Cons g gs)
  obtain k v where g: "g = (k, v)" by (cases g)
  with Cons.prems obtain w rest' where rest: "rest = (k, w) # rest'" "map fst gs = map fst rest'"
    by (cases rest) auto
  have "AList.update k v (prefix @ rest) = prefix @ (k, v) # rest'"
    unfolding rest(1) using Cons.prems(2) rest(1) by (intro update_middle) auto
  with Cons.IH [of rest' "prefix @ [(k, v)]"] Cons.prems(2) rest g show ?case by simp
qed simp

lemma fields_json_ok [simp]: "numbers_ok (fields_json fs)" "depth (fields_json fs) \<le> max_depth"
proof -
  show "numbers_ok (fields_json fs)" by (auto simp: fields_json_def list_all_iff)
  have "foldr max (map (\<lambda>(k, v). depth v) (str_members fs)) 0 \<le> 0"
    unfolding foldr_max_le by auto
  then show "depth (fields_json fs) \<le> max_depth" by (simp add: fields_json_def max_depth_def)
qed

definition ascii :: "string \<Rightarrow> bool" where
  "ascii s \<longleftrightarrow> list_all (\<lambda>c. byte_of c < 128) s"

lemma sanitize_ascii' [simp]: "ascii s \<Longrightarrow> sanitize s = s"
  by (simp add: ascii_def sanitize_ascii)

lemma unmarshal_members:
  assumes "set (map fst gs) \<subseteq> set (map fst fs)" and "list_all ascii (map fst gs)"
  shows "unmarshal_strings fs (render (fields_json gs)) =
    (fold (\<lambda>(k, v). AList.update k v) (map (\<lambda>(k, v). (k, sanitize v)) gs) fs, True)"
proof -
  have "clean (fields_json gs) = JObj (str_members (map (\<lambda>(k, v). (k, sanitize v)) gs))"
    using assms(2) by (auto simp: fields_json_def list_all_iff)
  moreover have "map fst (map (\<lambda>(k, v). (k, sanitize v)) gs) = map fst gs"
    by (simp add: case_prod_unfold comp_def)
  then have "set (map fst (map (\<lambda>(k, v). (k, sanitize v)) gs)) \<subseteq> set (map fst fs)"
    using assms(1) by (simp only:)
  ultimately show ?thesis
    by (simp add: unmarshal_strings_def parse_render decode_known del: map_map set_map)
qed

text \<open>A marshalled struct is unmarshalled into the same struct, whatever the target held.\<close>

lemma unmarshal_all:
  assumes "map fst gs = map fst fs" "distinct (map fst fs)" "list_all ascii (map fst gs)"
  shows "unmarshal_strings fs (render (fields_json gs)) =
    (map (\<lambda>(k, v). (k, sanitize v)) gs, True)"
proof -
  let ?gs = "map (\<lambda>(k, v). (k, sanitize v)) gs"
  have "map fst ?gs = map fst fs" using assms(1) by (simp add: case_prod_unfold comp_def)
  then have "fold (\<lambda>(k, v). AList.update k v) ?gs ([] @ fs) = [] @ ?gs"
    by (rule fold_update_all) (simp add: assms(2))
  with assms unmarshal_members [of gs fs] show ?thesis by simp
qed

end
