(* ===== verification/Hbinfo.thy ===== *)
theory Hbinfo
  imports Json_Roundtrip
begin

text \<open>
  The heartbeat record \<open>hbinfo\<close> of \<open>track.go\<close> as the key/value store keeps it: its JSON form,
  decoding into a record that may already hold another component's values (as the checker's
  loop does), and the values from which decoding is independent of that prior content.
\<close>

section \<open>The record and its JSON form\<close>

record hbinfo =
  Component :: string
  Last_hb_rcv_time :: string
  Last_hb_timestamp :: string
  Last_hb_status :: string
  Had_warning :: string

definition HB_WARN_NONE :: string where "HB_WARN_NONE = []"
definition HB_WARN_NORMAL :: string where "HB_WARN_NORMAL = ''WN''"
definition HB_WARN_GAP :: string where "HB_WARN_GAP = ''WG''"

definition hbinfo_fields :: "hbinfo \<Rightarrow> fields" where
  "hbinfo_fields h =
     [(''Component'', Component h), (''Last_hb_rcv_time'', Last_hb_rcv_time h),
      (''Last_hb_timestamp'', Last_hb_timestamp h), (''Last_hb_status'', Last_hb_status h),
      (''Had_warning'', Had_warning h)]"

definition hbinfo_of :: "fields \<Rightarrow> hbinfo" where
  "hbinfo_of fs =
     \<lparr>Component = field ''Component'' fs, Last_hb_rcv_time = field ''Last_hb_rcv_time'' fs,
      Last_hb_timestamp = field ''Last_hb_timestamp'' fs,
      Last_hb_status = field ''Last_hb_status'' fs, Had_warning = field ''Had_warning'' fs\<rparr>"

definition no_hbinfo :: hbinfo where
  "no_hbinfo = \<lparr>Component = [], Last_hb_rcv_time = [], Last_hb_timestamp = [],
     Last_hb_status = [], Had_warning = []\<rparr>"

text \<open>\<open>json.Unmarshal\<close> into the record \<open>h\<close>, and \<open>json.Marshal\<close>.\<close>

definition hbinfo_unmarshal :: "string \<Rightarrow> hbinfo \<Rightarrow> hbinfo \<times> bool" where
  "hbinfo_unmarshal v h =
     (let (fs, ok) = unmarshal_strings (hbinfo_fields h) v in (hbinfo_of fs, ok))"

definition hbinfo_marshal :: "hbinfo \<Rightarrow> string option" where
  "hbinfo_marshal h = json_marshal (fields_json (hbinfo_fields h))"

section \<open>Complete values\<close>

text \<open>A stored value is complete for \<open>h\<close> when decoding it gives \<open>h\<close> whatever was there before.\<close>

definition complete :: "string \<Rightarrow> hbinfo \<Rightarrow> bool" where
  "complete v h \<longleftrightarrow> (\<forall>h0. hbinfo_unmarshal v h0 = (h, True))"

text \<open>What a JSON round trip makes of a record: invalid UTF-8 is replaced.\<close>

definition sane :: "hbinfo \<Rightarrow> hbinfo" where
  "sane h = \<lparr>Component = sanitize (Component h),
     Last_hb_rcv_time = sanitize (Last_hb_rcv_time h),
     Last_hb_timestamp = sanitize (Last_hb_timestamp h),
     Last_hb_status = sanitize (Last_hb_status h), Had_warning = sanitize (Had_warning h)\<rparr>"

lemma hbinfo_marshal_complete:
  "\<exists>v. hbinfo_marshal h = Some v \<and> complete v (sane h)"
proof -
  have "unmarshal_strings (hbinfo_fields h0) (render (fields_json (hbinfo_fields h))) =
      (map (\<lambda>(k, v). (k, sanitize v)) (hbinfo_fields h), True)" for h0
    by (rule unmarshal_all) (simp_all add: hbinfo_fields_def ascii_def)
  moreover have "hbinfo_of (map (\<lambda>(k, v). (k, sanitize v)) (hbinfo_fields h)) = sane h"
    by (simp add: hbinfo_of_def hbinfo_fields_def field_def sane_def)
  ultimately show ?thesis
    by (simp add: hbinfo_marshal_def json_marshal_def complete_def hbinfo_unmarshal_def)
qed

lemma complete_unique: "complete v h \<Longrightarrow> complete v h' \<Longrightarrow> h = h'"
  by (simp add: complete_def)

lemma complete_unmarshal: "complete v h \<Longrightarrow> hbinfo_unmarshal v h0 = (h, True)"
  by (simp add: complete_def)

lemma complete_marshal: "complete (the (hbinfo_marshal h)) (sane h)"
  using hbinfo_marshal_complete [of h] by auto

definition hbinfo_ascii :: "hbinfo \<Rightarrow> bool" where
  "hbinfo_ascii h \<longleftrightarrow> ascii (Component h) \<and> ascii (Last_hb_rcv_time h) \<and>
     ascii (Last_hb_timestamp h) \<and> ascii (Last_hb_status h) \<and> ascii (Had_warning h)"

lemma sane_id: "hbinfo_ascii h \<Longrightarrow> sane h = h"
  by (simp add: sane_def hbinfo_ascii_def)

lemma sane_simps [simp]:
  "Component (sane h) = sanitize (Component h)"
  "Last_hb_rcv_time (sane h) = sanitize (Last_hb_rcv_time h)"
  "Last_hb_timestamp (sane h) = sanitize (Last_hb_timestamp h)"
  "Last_hb_status (sane h) = sanitize (Last_hb_status h)"
  "Had_warning (sane h) = sanitize (Had_warning h)"
  by (simp_all add: sane_def)

lemma sane_sane [simp]: "sane (sane h) = sane h"
  by (simp add: sane_def)

section \<open>Receive times\<close>

text \<open>\<open>strconv.FormatUint(uint64(t), 16)\<close> and \<open>strconv.ParseInt(s, 16, 64)\<close>, its error ignored.\<close>

definition format_time :: "int \<Rightarrow> string" where
  "format_time t = format_uint (uint64 t) 16"

definition parse_time :: "string \<Rightarrow> int" where
  "parse_time s = fst (parse_int s 16 64)"

definition clock_ok :: "int \<Rightarrow> bool" where
  "clock_ok t \<longleftrightarrow> 0 \<le> t \<and> t < 2 ^ 63"

lemma parse_format_time:
  assumes "clock_ok t"
  shows "parse_time (format_time t) = t"
proof -
  have "uint64 t = nat t" "nat t < 2 ^ 63" using assms by (auto simp: clock_ok_def uint64_def)
  then show ?thesis
    using assms parse_int_format_uint [of 16 "nat t"]
    by (simp add: clock_ok_def format_time_def parse_time_def)
qed

lemma ascii_format_time [simp]: "ascii (format_time t)"
proof -
  have "byte_of (digit_char d) < 128" if "d < 16" for d
    using that by (auto simp: digit_char_def)
  then have "byte_of c < 128" if "c \<in> set (fmt_base 16 n)" for c n
    using fmt_base_digits [of 16 c n] that by auto
  then show ?thesis by (simp add: format_time_def format_uint_def ascii_def list_all_iff)
qed

lemma ascii_warnings [simp]: "ascii HB_WARN_NONE" "ascii HB_WARN_NORMAL" "ascii HB_WARN_GAP"
  by (simp_all add: HB_WARN_NONE_def HB_WARN_NORMAL_def HB_WARN_GAP_def ascii_def)

lemma warnings_distinct [simp]:
  "HB_WARN_NONE \<noteq> HB_WARN_NORMAL" "HB_WARN_NORMAL \<noteq> HB_WARN_NONE"
  "HB_WARN_NONE \<noteq> HB_WARN_GAP" "HB_WARN_GAP \<noteq> HB_WARN_NONE"
  "HB_WARN_NORMAL \<noteq> HB_WARN_GAP" "HB_WARN_GAP \<noteq> HB_WARN_NORMAL"
  by (simp_all add: HB_WARN_NONE_def HB_WARN_NORMAL_def HB_WARN_GAP_def)

end
