(* ===== verification/Notify.thy ===== *)
theory Notify
  imports Hbinfo
begin

text \<open>
  Heartbeat state changes: \<open>hb_update_notify\<close> of \<open>track.go\<close> with the four change maps, the
  sequence counter and the queue to the telemetry bus. The four maps of the source
  (\<open>StartMap\<close>, \<open>RestartMap\<close>, \<open>StopWarnMap\<close>, \<open>StopErrorMap\<close>) are one function from the kind of
  change to a Go map. \<open>last_change\<close> is what they say about a component; the section on the
  abstract view shows that it is the latest change notified.
\<close>

section \<open>Data\<close>

datatype hb_change = Started | Restarted | StopWarn | StopError

text \<open>Four kinds: quantifiers over them are computed, and sets of them are finite.\<close>

instantiation hb_change :: enum
begin

definition enum_hb_change :: "hb_change list" where
  "enum_hb_change = [Started, Restarted, StopWarn, StopError]"

definition enum_all_hb_change :: "(hb_change \<Rightarrow> bool) \<Rightarrow> bool" where
  "enum_all_hb_change P \<longleftrightarrow> P Started \<and> P Restarted \<and> P StopWarn \<and> P StopError"

definition enum_ex_hb_change :: "(hb_change \<Rightarrow> bool) \<Rightarrow> bool" where
  "enum_ex_hb_change P \<longleftrightarrow> P Started \<or> P Restarted \<or> P StopWarn \<or> P StopError"

instance
proof
  show "(UNIV :: hb_change set) = set enum_class.enum"
    by (auto simp: enum_hb_change_def intro: hb_change.exhaust)
  show "distinct (enum_class.enum :: hb_change list)" by (simp add: enum_hb_change_def)
  show "enum_class.enum_all P \<longleftrightarrow> Ball UNIV P" for P :: "hb_change \<Rightarrow> bool"
    unfolding enum_all_hb_change_def by (metis UNIV_I hb_change.exhaust)
  show "enum_class.enum_ex P \<longleftrightarrow> Bex UNIV P" for P :: "hb_change \<Rightarrow> bool"
    unfolding enum_ex_hb_change_def by (metis UNIV_I hb_change.exhaust)
qed

end

type_synonym seqno = "64 word"
type_synonym hb_maps = "hb_change \<Rightarrow> seqno gomap"

definition HB_started :: int where "HB_started = 1"
definition HB_stopped_warn :: int where "HB_stopped_warn = 2"
definition HB_restarted_warn :: int where "HB_restarted_warn = 3"
definition HB_stopped_error :: int where "HB_stopped_error = 4"

lemmas HB_defs = HB_started_def HB_stopped_warn_def HB_restarted_warn_def HB_stopped_error_def

text \<open>The \<open>case\<close> labels of the \<open>switch\<close>; \<open>None\<close> is \<open>default\<close>.\<close>

definition change_of :: "int \<Rightarrow> hb_change option" where
  "change_of to_state =
     (if to_state = HB_started then Some Started
      else if to_state = HB_restarted_warn then Some Restarted
      else if to_state = HB_stopped_warn then Some StopWarn
      else if to_state = HB_stopped_error then Some StopError
      else None)"

record telemetry_json =
  tm_MessageID :: string
  tm_ID :: string
  tm_NewState :: string
  tm_NewFlag :: string
  tm_LastHBTimeStamp :: string
  tm_Info :: string

definition TELEMETRY_MESSAGE_ID :: string where
  "TELEMETRY_MESSAGE_ID = ''Heartbeat Change Notification''"

definition telemetryQ_cap :: nat where "telemetryQ_cap = 50000"

text \<open>\<open>base.StateReady.String()\<close> and its siblings of the vendored \<open>hms-base\<close>.\<close>

definition StateReady :: string where "StateReady = ''Ready''"
definition StateStandby :: string where "StateStandby = ''Standby''"
definition FlagOK :: string where "FlagOK = ''OK''"
definition FlagWarning :: string where "FlagWarning = ''Warning''"
definition FlagAlert :: string where "FlagAlert = ''Alert''"

record notify =
  nt_maps :: hb_maps
  nt_seq :: seqno
  nt_telemetry :: "telemetry_json list"

definition no_changes :: hb_maps where "no_changes = (\<lambda>k. gm_empty)"

definition init_notify :: notify where
  "init_notify = \<lparr>nt_maps = no_changes, nt_seq = 0, nt_telemetry = []\<rparr>"

section \<open>The notification\<close>

text \<open>State, flag and text of the telemetry message.\<close>

fun telemetry_text :: "hb_change option \<Rightarrow> string \<times> string \<times> string" where
  "telemetry_text (Some Started) = (StateReady, FlagOK, ''Heartbeat started.'')"
| "telemetry_text (Some Restarted) = (StateReady, FlagOK, ''Heartbeat re-started.'')"
| "telemetry_text (Some StopWarn) = (StateReady, FlagWarning, ''Heartbeat stopped, node may be dead.'')"
| "telemetry_text (Some StopError) = (StateStandby, FlagAlert, ''Heartbeat stopped, node is dead.'')"
| "telemetry_text None = ([], [], [])"

text \<open>The \<open>select\<close> with a \<open>default\<close>: a full queue drops the message.\<close>

definition telemetry_send :: "telemetry_json \<Rightarrow> telemetry_json list \<Rightarrow> telemetry_json list" where
  "telemetry_send m q = (if length q < telemetryQ_cap then q @ [m] else q)"

text \<open>
  The two parts of a notification: \<open>hbSeq++\<close>, which no lock protects, and the rest, which reads
  \<open>hbSeq\<close> again when it enters the change in its map.
\<close>

definition notify_number :: "notify \<Rightarrow> notify" where
  "notify_number n = n\<lparr>nt_seq := nt_seq n + 1\<rparr>"

definition notify_enter :: "hbinfo \<Rightarrow> int \<Rightarrow> notify \<Rightarrow> notify" where
  "notify_enter hb to_state n =
     (let maps = (case change_of to_state of
                    Some c \<Rightarrow> (nt_maps n)(c := gm_set (Component hb) (nt_seq n) (nt_maps n c))
                  | None \<Rightarrow> nt_maps n);
          (st, fl, inf) = telemetry_text (change_of to_state);
          telemsg = \<lparr>tm_MessageID = TELEMETRY_MESSAGE_ID, tm_ID = Component hb,
            tm_NewState = st, tm_NewFlag = fl, tm_LastHBTimeStamp = Last_hb_timestamp hb,
            tm_Info = inf\<rparr>
      in n\<lparr>nt_maps := maps, nt_telemetry := telemetry_send telemsg (nt_telemetry n)\<rparr>)"

definition hb_update_notify :: "hbinfo \<Rightarrow> int \<Rightarrow> notify \<Rightarrow> notify" where
  "hb_update_notify hb to_state n = notify_enter hb to_state (notify_number n)"

lemmas notify_defs = hb_update_notify_def notify_enter_def notify_number_def

lemma change_of_simps [simp]:
  "change_of HB_started = Some Started" "change_of HB_restarted_warn = Some Restarted"
  "change_of HB_stopped_warn = Some StopWarn" "change_of HB_stopped_error = Some StopError"
  by (simp_all add: change_of_def HB_defs)

lemma notify_seq [simp]: "nt_seq (hb_update_notify hb st n) = nt_seq n + 1"
  by (simp add: notify_defs Let_def split: prod.splits)

lemma notify_maps:
  "change_of st = Some c \<Longrightarrow> nt_maps (hb_update_notify hb st n) =
     (nt_maps n)(c := gm_set (Component hb) (nt_seq n + 1) (nt_maps n c))"
  by (simp add: notify_defs Let_def split: prod.splits)

lemma notify_telemetry_bound:
  "length (nt_telemetry n) \<le> telemetryQ_cap \<Longrightarrow>
   length (nt_telemetry (hb_update_notify hb st n)) \<le> telemetryQ_cap"
  by (simp add: notify_defs Let_def telemetry_send_def split: prod.splits)

section \<open>What the maps say\<close>

text \<open>
  The kind with the strictly highest sequence number, as the \<open>if\<close> chain of \<open>send_sm_req\<close>
  selects it.
\<close>

definition winner :: "(hb_change \<Rightarrow> seqno) \<Rightarrow> hb_change option" where
  "winner f =
     (if f Started > f Restarted \<and> f Started > f StopWarn \<and> f Started > f StopError then Some Started
      else if f Restarted > f Started \<and> f Restarted > f StopWarn \<and> f Restarted > f StopError
      then Some Restarted
      else if f StopWarn > f Started \<and> f StopWarn > f Restarted \<and> f StopWarn > f StopError
      then Some StopWarn
      else if f StopError > f Started \<and> f StopError > f Restarted \<and> f StopError > f StopWarn
      then Some StopError
      else None)"

definition last_change :: "hb_maps \<Rightarrow> string \<rightharpoonup> hb_change" where
  "last_change m x = winner (\<lambda>c. gm_get (m c) x)"

text \<open>
  Numbers are bounded by the counter, and two maps never hold the same number for one
  component; the counter has not wrapped around.
\<close>

definition seq_ok :: "(hb_change \<Rightarrow> seqno) \<Rightarrow> seqno \<Rightarrow> bool" where
  "seq_ok f s \<longleftrightarrow> (\<forall>c. f c \<le> s) \<and> (\<forall>c d. f c \<noteq> 0 \<longrightarrow> f c = f d \<longrightarrow> c = d)"

definition maps_ok :: "hb_maps \<Rightarrow> seqno \<Rightarrow> bool" where
  "maps_ok m s \<longleftrightarrow> (\<forall>x. seq_ok (\<lambda>c. gm_get (m c) x) s)"

lemma all_change: "(\<forall>c. P c) \<longleftrightarrow> P Started \<and> P Restarted \<and> P StopWarn \<and> P StopError"
  by (metis hb_change.exhaust)

lemma winner_iff: "winner f = Some c \<longleftrightarrow> (\<forall>d. d \<noteq> c \<longrightarrow> f d < f c)"
  by (cases c) (auto simp: winner_def all_change)

lemma winner_None: 
  assumes "seq_ok f s"
  shows "winner f = None \<longleftrightarrow> (\<forall>c. f c = 0)"
proof
  assume none: "winner f = None"
  define m where "m = Max (range f)"
  have fin: "finite (range f)" by (rule finite_imageI) simp
  then have "m \<in> range f" unfolding m_def by (intro Max_in) auto
  then obtain c where c: "f c = m" by auto
  have le: "f d \<le> f c" for d using fin c by (simp add: m_def)
  from none have "\<not> (\<forall>d. d \<noteq> c \<longrightarrow> f d < f c)" using winner_iff [of f c] by auto
  then obtain d where "d \<noteq> c" "f d = f c" using le by (metis le_less)
  then have "f c = 0" using assms unfolding seq_ok_def by metis
  then show "\<forall>d. f d = 0" using le by (metis word_le_0_iff)
next
  assume "\<forall>c. f c = 0"
  then show "winner f = None" by (simp add: winner_def)
qed

lemma next_seq_greater:
  assumes "s + 1 \<noteq> 0" "(a::seqno) \<le> s"
  shows "a < s + 1"
proof -
  have "unat (s + 1) = Suc (unat s)" using assms(1) unatSuc [of s] by (simp add: add.commute)
  with assms(2) show ?thesis by (simp add: word_less_nat_alt word_le_nat_alt)
qed

lemma winner_newest:
  assumes "seq_ok f s" "s + 1 \<noteq> 0"
  shows "winner (f(c := s + 1)) = Some c"
  using assms next_seq_greater by (simp add: winner_iff seq_ok_def)

lemma seq_ok_newest:
  assumes "seq_ok f s" "s + 1 \<noteq> 0"
  shows "seq_ok (f(c := s + 1)) (s + 1)"
proof -
  have lt: "f d < s + 1" for d using assms next_seq_greater by (simp add: seq_ok_def)
  have "d = e" if "(f(c := s + 1)) d \<noteq> 0" "(f(c := s + 1)) d = (f(c := s + 1)) e" for d e
    using that lt [of d] lt [of e] assms(1) unfolding seq_ok_def
    by (auto split: if_splits)
  then show ?thesis using lt by (auto simp: seq_ok_def less_imp_le)
qed

lemma seq_ok_mono:
  assumes "seq_ok f s" "s + 1 \<noteq> 0"
  shows "seq_ok f (s + 1)"
  using assms next_seq_greater unfolding seq_ok_def by (meson less_imp_le)

lemma seq_ok_zero [simp]: "seq_ok (\<lambda>c. 0) s"
  by (simp add: seq_ok_def)

text \<open>Setting entries to 0 keeps the numbers in order.\<close>

lemma seq_ok_clear: "seq_ok f s \<Longrightarrow> (\<And>c. g c = 0 \<or> g c = f c) \<Longrightarrow> seq_ok g s"
  unfolding seq_ok_def by (metis word_zero_le)

lemma maps_ok_init [simp]: "maps_ok no_changes s"
  by (simp add: maps_ok_def no_changes_def)

lemma last_change_init [simp]: "last_change no_changes = (\<lambda>x. None)"
  by (simp add: last_change_def no_changes_def winner_def fun_eq_iff)

lemma upd_entry: "(\<lambda>d. gm_get ((m(c := gm_set x v (m c))) d) y) =
    (if y = x then (\<lambda>d. gm_get (m d) x)(c := v) else (\<lambda>d. gm_get (m d) y))"
  by (auto simp: fun_eq_iff)

lemma notify_maps_ok:
  assumes "maps_ok (nt_maps n) (nt_seq n)" "nt_seq n + 1 \<noteq> 0" "change_of st = Some c"
  shows "maps_ok (nt_maps (hb_update_notify hb st n)) (nt_seq n + 1)"
  using assms by (simp add: maps_ok_def notify_maps upd_entry seq_ok_newest seq_ok_mono del: fun_upd_apply)

lemma notify_last_change:
  assumes "maps_ok (nt_maps n) (nt_seq n)" "nt_seq n + 1 \<noteq> 0" "change_of st = Some c"
  shows "last_change (nt_maps (hb_update_notify hb st n)) =
     (last_change (nt_maps n))(Component hb \<mapsto> c)"
proof
  fix x
  show "last_change (nt_maps (hb_update_notify hb st n)) x =
      ((last_change (nt_maps n))(Component hb \<mapsto> c)) x"
    using assms
    by (cases "x = Component hb")
      (simp_all add: last_change_def maps_ok_def notify_maps upd_entry winner_newest
        del: fun_upd_apply, simp_all add: last_change_def)
qed

end
