(* ===== verification/Params.thy ===== *)
theory Params
  imports Json_Roundtrip
begin

text \<open>
  The application parameters of \<open>hbtd.go\<close>: their defaults, the environment and command
  line that set them at startup, and the JSON form in which they are shown, patched and
  stored. An \<open>int_param\<close> is a Go \<open>int\<close> and is kept within 64 bits by the conversions that
  write it.
\<close>

section \<open>Data\<close>

record app_param =
  ap_name :: string
  int_param :: int
  string_param :: string

record op_params =
  debug_level :: app_param
  nosm :: app_param
  use_telemetry :: app_param
  telemetry_host :: app_param
  warntime :: app_param
  errtime :: app_param
  port :: app_param
  kv_url :: app_param
  check_interval :: app_param
  statemgr_url :: app_param
  statemgr_timeout :: app_param
  statemgr_retries :: app_param
  clear_on_gap :: app_param

record inidata =
  Debug :: string
  Nosm :: string
  Use_telemetry :: string
  Telemetry_host :: string
  Warntime :: string
  Errtime :: string
  Port :: string
  Kv_url :: string
  Interval :: string
  Sm_url :: string
  Sm_timeout :: string
  Sm_retries :: string

definition KV_PARAM_KEY :: string where "KV_PARAM_KEY = ''params''"
definition URL_PORT :: string where "URL_PORT = ''28500''"
definition KV_URL_BASE :: string where "KV_URL_BASE = ''https://localhost:2379''"
definition SM_URL_BASE :: string where "SM_URL_BASE = ''http://localhost:27779/hsm/v2''"
definition SM_RETRIES :: int where "SM_RETRIES = 3"
definition SM_TIMEOUT :: int where "SM_TIMEOUT = 10"
definition UNSTR :: string where "UNSTR = ''xxx''"
definition UNINT :: int where "UNINT = - 1"

datatype whence = PARAM_START | PARAM_PATCH | PARAM_SYNC

text \<open>\<open>app_param{name: n, int_param: i}\<close> and \<open>app_param{name: n, string_param: s}\<close>.\<close>

definition int_app :: "string \<Rightarrow> int \<Rightarrow> app_param" where
  "int_app n i = \<lparr>ap_name = n, int_param = i, string_param = []\<rparr>"

definition str_app :: "string \<Rightarrow> string \<Rightarrow> app_param" where
  "str_app n s = \<lparr>ap_name = n, int_param = 0, string_param = s\<rparr>"

definition initAppParams :: op_params where
  "initAppParams =
     \<lparr>debug_level = int_app ''debug'' 0,
      nosm = int_app ''nosm'' 0,
      use_telemetry = int_app ''use_telemetry'' 1,
      telemetry_host = str_app ''telemetry_host'' [],
      warntime = int_app ''warntime'' 10,
      errtime = int_app ''errtime'' 30,
      port = str_app ''port'' URL_PORT,
      kv_url = str_app ''kv_url'' KV_URL_BASE,
      check_interval = int_app ''interval'' 5,
      statemgr_url = str_app ''sm_url'' SM_URL_BASE,
      statemgr_timeout = int_app ''sm_timeout'' SM_TIMEOUT,
      statemgr_retries = int_app ''sm_retries'' SM_RETRIES,
      clear_on_gap = int_app ''clear_on_gap'' 0\<rparr>"

section \<open>Telemetry host\<close>

definition get_telemetry_host :: "string \<Rightarrow> (string \<times> int \<times> string) option" where
  "get_telemetry_host hspec =
     (case split_on CHR '':'' hspec of
        [h, p, t] \<Rightarrow> (case atoi p of (n, None) \<Rightarrow> Some (h, n, t) | (_, Some _) \<Rightarrow> None)
      | _ \<Rightarrow> None)"

section \<open>Parameters as JSON\<close>

text \<open>\<open>inidata\<close> as the field list that \<open>json.Marshal\<close> writes and \<open>json.Unmarshal\<close> fills.\<close>

definition inidata_fields :: "inidata \<Rightarrow> fields" where
  "inidata_fields d =
     [(''Debug'', Debug d), (''Nosm'', Nosm d), (''Use_telemetry'', Use_telemetry d),
      (''Telemetry_host'', Telemetry_host d), (''Warntime'', Warntime d), (''Errtime'', Errtime d),
      (''Port'', Port d), (''Kv_url'', Kv_url d), (''Interval'', Interval d), (''Sm_url'', Sm_url d),
      (''Sm_timeout'', Sm_timeout d), (''Sm_retries'', Sm_retries d)]"

definition inidata_of :: "fields \<Rightarrow> inidata" where
  "inidata_of fs =
     \<lparr>Debug = field ''Debug'' fs, Nosm = field ''Nosm'' fs,
      Use_telemetry = field ''Use_telemetry'' fs, Telemetry_host = field ''Telemetry_host'' fs,
      Warntime = field ''Warntime'' fs, Errtime = field ''Errtime'' fs, Port = field ''Port'' fs,
      Kv_url = field ''Kv_url'' fs, Interval = field ''Interval'' fs, Sm_url = field ''Sm_url'' fs,
      Sm_timeout = field ''Sm_timeout'' fs, Sm_retries = field ''Sm_retries'' fs\<rparr>"

definition no_inidata :: inidata where
  "no_inidata =
     \<lparr>Debug = [], Nosm = [], Use_telemetry = [], Telemetry_host = [], Warntime = [], Errtime = [],
      Port = [], Kv_url = [], Interval = [], Sm_url = [], Sm_timeout = [], Sm_retries = []\<rparr>"

definition cur_inidata :: "op_params \<Rightarrow> inidata" where
  "cur_inidata p =
     \<lparr>Debug = itoa (int_param (debug_level p)),
      Nosm = itoa (int_param (nosm p)),
      Use_telemetry = itoa (int_param (use_telemetry p)),
      Telemetry_host = string_param (telemetry_host p),
      Warntime = itoa (int_param (warntime p)),
      Errtime = itoa (int_param (errtime p)),
      Port = string_param (port p),
      Kv_url = string_param (kv_url p),
      Interval = itoa (int_param (check_interval p)),
      Sm_url = string_param (statemgr_url p),
      Sm_timeout = itoa (int_param (statemgr_timeout p)),
      Sm_retries = itoa (int_param (statemgr_retries p))\<rparr>"

text \<open>\<open>None\<close> is the return value -1.\<close>

definition gen_cur_param_json :: "op_params \<Rightarrow> string option" where
  "gen_cur_param_json p = json_marshal (fields_json (inidata_fields (cur_inidata p)))"

section \<open>Patching\<close>

text \<open>
  The working state of \<open>parse_parm_json\<close>: the copy \<open>tpd\<close> of the parameters, the error text and
  the flag \<open>bad\<close>. One function per kind of field; \<open>upd\<close> writes the field of \<open>tpd\<close>.
\<close>

record patch =
  tpd :: op_params
  errstr :: string
  bad :: int

definition parse_flag :: "string \<Rightarrow> int option" where
  "parse_flag v =
     (let lcut = to_lower v in
      if lcut = ''0'' \<or> lcut = ''no'' \<or> lcut = ''off'' \<or> lcut = ''false'' then Some 0
      else if lcut = ''1'' \<or> lcut = ''yes'' \<or> lcut = ''on'' \<or> lcut = ''true'' then Some 1
      else None)"

definition reject :: "string \<Rightarrow> string \<Rightarrow> string \<Rightarrow> patch \<Rightarrow> patch" where
  "reject name phrase v s =
     s\<lparr>errstr := errstr s @ ''Parameter '' @ [CHR 0x27] @ name @ [CHR 0x27] @ phrase @
         [CHR 0x27] @ v @ [CHR 0x27] @ ''; '', bad := - 1\<rparr>"

definition patch_uint ::
  "string \<Rightarrow> string \<Rightarrow> (int \<Rightarrow> op_params \<Rightarrow> op_params) \<Rightarrow> patch \<Rightarrow> patch" where
  "patch_uint name v upd s =
     (if v = [] then s
      else case parse_uint v 0 32 of
          (xx, None) \<Rightarrow> s\<lparr>tpd := upd (int xx) (tpd s)\<rparr>
        | (_, Some _) \<Rightarrow> reject name '' with illegal value '' v s)"

definition patch_flag ::
  "string \<Rightarrow> string \<Rightarrow> string \<Rightarrow> (int \<Rightarrow> op_params \<Rightarrow> op_params) \<Rightarrow> patch \<Rightarrow> patch" where
  "patch_flag name phrase v upd s =
     (if v = [] then s
      else case parse_flag v of
          Some b \<Rightarrow> s\<lparr>tpd := upd b (tpd s)\<rparr>
        | None \<Rightarrow> reject name phrase v s)"

definition patch_str ::
  "string \<Rightarrow> (string \<Rightarrow> op_params \<Rightarrow> op_params) \<Rightarrow> patch \<Rightarrow> patch" where
  "patch_str v upd s = (if v = [] then s else s\<lparr>tpd := upd v (tpd s)\<rparr>)"

definition patch_host :: "string \<Rightarrow> string \<Rightarrow> patch \<Rightarrow> patch" where
  "patch_host name v s =
     (if v = [] then s
      else case get_telemetry_host v of
          None \<Rightarrow> reject name '' with invalid format '' v s
        | Some _ \<Rightarrow>
            s\<lparr>tpd := (tpd s)\<lparr>telemetry_host := (telemetry_host (tpd s))\<lparr>string_param := v\<rparr>\<rparr>\<rparr>)"

definition patch_port :: "string \<Rightarrow> string \<Rightarrow> whence \<Rightarrow> patch \<Rightarrow> patch" where
  "patch_port name v wh s =
     (if v \<noteq> [] \<and> wh = PARAM_PATCH
      then s\<lparr>errstr := errstr s @ ''Parameter '' @ [CHR 0x27] @ name @ [CHR 0x27] @
               '' can'' @ [CHR 0x27] @ ''t be changed in PATCH operation; '', bad := - 1\<rparr>
      else s)"

definition set_debug :: "int \<Rightarrow> op_params \<Rightarrow> op_params" where
  "set_debug x p = p\<lparr>debug_level := (debug_level p)\<lparr>int_param := x\<rparr>\<rparr>"
definition set_nosm :: "int \<Rightarrow> op_params \<Rightarrow> op_params" where
  "set_nosm x p = p\<lparr>nosm := (nosm p)\<lparr>int_param := x\<rparr>\<rparr>"
definition set_use_telemetry :: "int \<Rightarrow> op_params \<Rightarrow> op_params" where
  "set_use_telemetry x p = p\<lparr>use_telemetry := (use_telemetry p)\<lparr>int_param := x\<rparr>\<rparr>"
definition set_warntime :: "int \<Rightarrow> op_params \<Rightarrow> op_params" where
  "set_warntime x p = p\<lparr>warntime := (warntime p)\<lparr>int_param := x\<rparr>\<rparr>"
definition set_errtime :: "int \<Rightarrow> op_params \<Rightarrow> op_params" where
  "set_errtime x p = p\<lparr>errtime := (errtime p)\<lparr>int_param := x\<rparr>\<rparr>"
definition set_interval :: "int \<Rightarrow> op_params \<Rightarrow> op_params" where
  "set_interval x p = p\<lparr>check_interval := (check_interval p)\<lparr>int_param := x\<rparr>\<rparr>"
definition set_sm_timeout :: "int \<Rightarrow> op_params \<Rightarrow> op_params" where
  "set_sm_timeout x p = p\<lparr>statemgr_timeout := (statemgr_timeout p)\<lparr>int_param := x\<rparr>\<rparr>"
definition set_sm_retries :: "int \<Rightarrow> op_params \<Rightarrow> op_params" where
  "set_sm_retries x p = p\<lparr>statemgr_retries := (statemgr_retries p)\<lparr>int_param := x\<rparr>\<rparr>"
definition set_kv_url :: "string \<Rightarrow> op_params \<Rightarrow> op_params" where
  "set_kv_url x p = p\<lparr>kv_url := (kv_url p)\<lparr>string_param := x\<rparr>\<rparr>"
definition set_sm_url :: "string \<Rightarrow> op_params \<Rightarrow> op_params" where
  "set_sm_url x p = p\<lparr>statemgr_url := (statemgr_url p)\<lparr>string_param := x\<rparr>\<rparr>"

lemmas set_param_defs = set_debug_def set_nosm_def set_use_telemetry_def set_warntime_def
  set_errtime_def set_interval_def set_sm_timeout_def set_sm_retries_def set_kv_url_def
  set_sm_url_def

definition apply_inidata :: "op_params \<Rightarrow> whence \<Rightarrow> inidata \<Rightarrow> patch \<Rightarrow> patch" where
  "apply_inidata p wh jd s0 =
     (let s1 = patch_uint (ap_name (debug_level p)) (Debug jd) set_debug s0;
          s2 = patch_flag (ap_name (nosm p)) '' with illegal value '' (Nosm jd) set_nosm s1;
          s3 = patch_flag (ap_name (use_telemetry p)) '' with unknown value ''
                 (Use_telemetry jd) set_use_telemetry s2;
          s4 = patch_host (ap_name (telemetry_host p)) (Telemetry_host jd) s3;
          s5 = patch_uint (ap_name (warntime p)) (Warntime jd) set_warntime s4;
          s6 = patch_uint (ap_name (errtime p)) (Errtime jd) set_errtime s5;
          s7 = patch_uint (ap_name (check_interval p)) (Interval jd) set_interval s6;
          s8 = patch_str (Kv_url jd) set_kv_url s7;
          s9 = patch_port (ap_name (port p)) (Port jd) wh s8;
          s10 = patch_str (Sm_url jd) set_sm_url s9;
          s11 = patch_uint (ap_name (statemgr_timeout p)) (Sm_timeout jd) set_sm_timeout s10
      in patch_uint (ap_name (statemgr_retries p)) (Sm_retries jd) set_sm_retries s11)"

definition inidata_names :: "string list" where
  "inidata_names = map fst (inidata_fields no_inidata)"

text \<open>
  \<open>parse_parm_json\<close> works on a copy of the parameters. \<open>parm_values\<close> is all up to the end of the
  fields: the return code, the copy with the new values, and the error text.
\<close>

definition parm_values :: "op_params \<Rightarrow> string \<Rightarrow> whence \<Rightarrow> string \<Rightarrow> int \<times> op_params \<times> string" where
  "parm_values p parm_json wh es =
     (let (fs, ok) = unmarshal_strings (inidata_fields no_inidata) parm_json in
      if \<not> ok then
        (case unmarshal_map parm_json of
           None \<Rightarrow> (- 1, p, ''Invalid JSON data type'')
         | Some v \<Rightarrow>
             (case bad_field inidata_names v of
                None \<Rightarrow> (- 1, p, es)
              | Some nm \<Rightarrow>
                  (- 1, p, es @ ''Invalid data type in '' @ nm @ '' field. '')))
      else
        let s = apply_inidata p wh (inidata_of fs) \<lparr>tpd = p, errstr = es, bad = 0\<rparr>
        in (bad s, tpd s, errstr s))"

text \<open>The assignment at its end, to \<open>app_params\<close> and \<open>server_url_port\<close>.\<close>

definition parm_commit :: "int \<Rightarrow> op_params \<Rightarrow> op_params \<times> string \<Rightarrow> op_params \<times> string" where
  "parm_commit rc q pp = (if rc = 0 then (q, string_param (port q)) else pp)"

text \<open>
  The result is the return code, the new \<open>app_params\<close>, the new \<open>server_url_port\<close> and the new
  error text.
\<close>

definition parse_parm_json ::
  "op_params \<Rightarrow> string \<Rightarrow> string \<Rightarrow> whence \<Rightarrow> string \<Rightarrow> int \<times> op_params \<times> string \<times> string" where
  "parse_parm_json p url_port parm_json wh es =
     (let (rc, q, es') = parm_values p parm_json wh es;
          (p', url_port') = parm_commit rc q (p, url_port)
      in (rc, p', url_port', es'))"

lemmas parse_parm_defs = parse_parm_json_def parm_values_def parm_commit_def

section \<open>Environment and command line\<close>

text \<open>\<open>getenv\<close> is \<open>os.Getenv\<close>: the empty string when the variable is not set.\<close>

definition env_parse_int :: "(string \<Rightarrow> string) \<Rightarrow> string \<Rightarrow> int \<Rightarrow> int" where
  "env_parse_int getenv envvar pval =
     (let val = getenv envvar in
      if val = [] then pval
      else case parse_uint val 0 64 of (ival, None) \<Rightarrow> int64 (int ival) | (_, Some _) \<Rightarrow> pval)"

definition env_parse_bool :: "(string \<Rightarrow> string) \<Rightarrow> string \<Rightarrow> int \<Rightarrow> int" where
  "env_parse_bool getenv envvar pval =
     (let val = getenv envvar in
      if val = [] then pval
      else case parse_flag val of Some b \<Rightarrow> b | None \<Rightarrow> pval)"

definition env_parse_string :: "(string \<Rightarrow> string) \<Rightarrow> string \<Rightarrow> string \<Rightarrow> string" where
  "env_parse_string getenv envvar pval = (if getenv envvar = [] then pval else getenv envvar)"

definition env_int ::
  "(string \<Rightarrow> string) \<Rightarrow> string \<Rightarrow> app_param \<Rightarrow> app_param" where
  "env_int getenv envvar a = a\<lparr>int_param := env_parse_int getenv envvar (int_param a)\<rparr>"

definition env_bool ::
  "(string \<Rightarrow> string) \<Rightarrow> string \<Rightarrow> app_param \<Rightarrow> app_param" where
  "env_bool getenv envvar a = a\<lparr>int_param := env_parse_bool getenv envvar (int_param a)\<rparr>"

definition env_string ::
  "(string \<Rightarrow> string) \<Rightarrow> string \<Rightarrow> app_param \<Rightarrow> app_param" where
  "env_string getenv envvar a = a\<lparr>string_param := env_parse_string getenv envvar (string_param a)\<rparr>"

text \<open>The retries variable is read twice in a row, as in the source.\<close>

definition parse_env_vars :: "(string \<Rightarrow> string) \<Rightarrow> op_params \<Rightarrow> op_params" where
  "parse_env_vars getenv p =
     (let p1 = p\<lparr>debug_level := env_int getenv ''HBTD_DEBUG'' (debug_level p)\<rparr>;
          p2 = p1\<lparr>nosm := env_bool getenv ''HBTD_NOSM'' (nosm p1)\<rparr>;
          p3 = p2\<lparr>use_telemetry := env_bool getenv ''HBTD_USE_TELEMETRY'' (use_telemetry p2)\<rparr>;
          p4 = p3\<lparr>telemetry_host := env_string getenv ''HBTD_TELEMETRY_HOST'' (telemetry_host p3)\<rparr>;
          p5 = p4\<lparr>warntime := env_int getenv ''HBTD_WARNTIME'' (warntime p4)\<rparr>;
          p6 = p5\<lparr>errtime := env_int getenv ''HBTD_ERRTIME'' (errtime p5)\<rparr>;
          p7 = p6\<lparr>check_interval := env_int getenv ''HBTD_INTERVAL'' (check_interval p6)\<rparr>;
          p8 = p7\<lparr>port := env_int getenv ''HBTD_PORT'' (port p7)\<rparr>;
          p9 = p8\<lparr>kv_url := env_string getenv ''HBTD_KV_URL'' (kv_url p8)\<rparr>;
          p10 = p9\<lparr>statemgr_url := env_string getenv ''HBTD_SM_URL'' (statemgr_url p9)\<rparr>;
          p11 = p10\<lparr>statemgr_retries := env_int getenv ''HBTD_SM_RETRIES'' (statemgr_retries p10)\<rparr>;
          p12 = p11\<lparr>statemgr_retries := env_int getenv ''HBTD_SM_RETRIES'' (statemgr_retries p11)\<rparr>;
          p13 = p12\<lparr>statemgr_timeout := env_int getenv ''HBTD_SM_TIMEOUT'' (statemgr_timeout p12)\<rparr>
      in p13\<lparr>clear_on_gap := env_int getenv ''HBTD_CLEAR_ON_GAP'' (clear_on_gap p13)\<rparr>)"

text \<open>The values of the command line flags after \<open>flag.Parse\<close>, and their defaults.\<close>

record flags =
  fl_help :: bool
  fl_debug :: int
  fl_use_telemetry :: string
  fl_telemetry_host :: string
  fl_warntime :: int
  fl_errtime :: int
  fl_interval :: int
  fl_port :: string
  fl_kv_url :: string
  fl_sm_url :: string
  fl_sm_retries :: int
  fl_sm_timeout :: int
  fl_nosm :: bool

definition default_flags :: flags where
  "default_flags =
     \<lparr>fl_help = False, fl_debug = UNINT, fl_use_telemetry = UNSTR, fl_telemetry_host = UNSTR,
      fl_warntime = UNINT, fl_errtime = UNINT, fl_interval = UNINT, fl_port = URL_PORT,
      fl_kv_url = KV_URL_BASE, fl_sm_url = UNSTR, fl_sm_retries = UNINT, fl_sm_timeout = UNINT,
      fl_nosm = False\<rparr>"

text \<open>A struct literal leaves \<open>clear_on_gap\<close> at its zero value.\<close>

definition flag_params :: "flags \<Rightarrow> op_params" where
  "flag_params f =
     \<lparr>debug_level = int_app [] (fl_debug f),
      nosm = int_app [] (if fl_nosm f then 1 else 0),
      use_telemetry = str_app [] (fl_use_telemetry f),
      telemetry_host = str_app [] (fl_telemetry_host f),
      warntime = int_app [] (fl_warntime f),
      errtime = int_app [] (fl_errtime f),
      port = str_app [] (fl_port f),
      kv_url = str_app [] (fl_kv_url f),
      check_interval = int_app [] (fl_interval f),
      statemgr_url = str_app [] (fl_sm_url f),
      statemgr_timeout = int_app [] (fl_sm_timeout f),
      statemgr_retries = int_app [] (fl_sm_retries f),
      clear_on_gap = int_app [] 0\<rparr>"

text \<open>An integer flag: left alone at \<open>UNINT\<close>, else floored at \<open>lo\<close>.\<close>

definition flag_int :: "int \<Rightarrow> app_param \<Rightarrow> app_param \<Rightarrow> app_param" where
  "flag_int lo t a =
     (if int_param t \<noteq> UNINT
      then (if int_param t \<le> 0 then a\<lparr>int_param := lo\<rparr> else a\<lparr>int_param := int_param t\<rparr>)
      else a)"

definition flag_str :: "app_param \<Rightarrow> app_param \<Rightarrow> app_param" where
  "flag_str t a =
     (if string_param t \<noteq> UNSTR then a\<lparr>string_param := string_param t\<rparr> else a)"

text \<open>The result is the new \<open>app_params\<close> and the new \<open>server_url_port\<close>.\<close>

definition parse_cmdline_params :: "op_params \<Rightarrow> op_params \<times> string \<Rightarrow> op_params \<times> string" where
  "parse_cmdline_params tvars pp =
     (let (p, url_port) = pp;
          p1 = (if int_param (nosm tvars) \<noteq> 0 then p\<lparr>nosm := (nosm p)\<lparr>int_param := 1\<rparr>\<rparr> else p);
          p2 = p1\<lparr>debug_level := flag_int 0 (debug_level tvars) (debug_level p1)\<rparr>;
          p3 = (if string_param (use_telemetry tvars) \<noteq> UNSTR
                then p2\<lparr>use_telemetry := (use_telemetry p2)\<lparr>int_param :=
                    (case parse_flag (string_param (use_telemetry tvars)) of
                       Some b \<Rightarrow> b | None \<Rightarrow> 0)\<rparr>\<rparr>
                else p2);
          p4 = (if string_param (telemetry_host tvars) \<noteq> UNSTR \<and>
                   get_telemetry_host (string_param (telemetry_host tvars)) \<noteq> None
                then p3\<lparr>telemetry_host :=
                    (telemetry_host p3)\<lparr>string_param := string_param (telemetry_host tvars)\<rparr>\<rparr>
                else p3);
          p5 = p4\<lparr>warntime := flag_int 0 (warntime tvars) (warntime p4)\<rparr>;
          p6 = p5\<lparr>errtime := flag_int 0 (errtime tvars) (errtime p5)\<rparr>;
          p7 = p6\<lparr>check_interval := flag_int 0 (check_interval tvars) (check_interval p6)\<rparr>;
          port_set = (string_param (port tvars) \<noteq> URL_PORT \<and>
                      snd (parse_uint (string_param (port tvars)) 0 32) = None);
          p8 = (if port_set
                then p7\<lparr>port := (port p7)\<lparr>string_param := string_param (port tvars)\<rparr>\<rparr> else p7);
          url_port' = (if port_set then string_param (port p8) else url_port);
          p9 = p8\<lparr>kv_url := flag_str (kv_url tvars) (kv_url p8)\<rparr>;
          p10 = p9\<lparr>statemgr_url := flag_str (statemgr_url tvars) (statemgr_url p9)\<rparr>;
          p11 = p10\<lparr>statemgr_retries := flag_int 1 (statemgr_retries tvars) (statemgr_retries p10)\<rparr>
      in (p11\<lparr>statemgr_timeout := flag_int 1 (statemgr_timeout tvars) (statemgr_timeout p11)\<rparr>,
          url_port'))"

text \<open>\<open>None\<close>: the help text was asked for, and the process exits.\<close>

definition parse_cmd_line :: "flags \<Rightarrow> op_params \<times> string \<Rightarrow> (op_params \<times> string) option" where
  "parse_cmd_line f pp =
     (if fl_help f then None else Some (parse_cmdline_params (flag_params f) pp))"

section \<open>What a patch does\<close>

definition uint32_ok :: "string \<Rightarrow> bool" where
  "uint32_ok v \<longleftrightarrow> snd (parse_uint v 0 32) = None"

definition flag_ok :: "string \<Rightarrow> bool" where
  "flag_ok v \<longleftrightarrow> parse_flag v \<noteq> None"

definition host_ok :: "string \<Rightarrow> bool" where
  "host_ok v \<longleftrightarrow> get_telemetry_host v \<noteq> None"

definition uint32_val :: "string \<Rightarrow> int" where
  "uint32_val v = int (fst (parse_uint v 0 32))"

text \<open>
  The contract of a patch, without an order of steps: a field is acceptable when it is
  empty or well formed, and an accepted patch sets exactly the parameters of the non-empty
  fields.
\<close>

definition acceptable :: "whence \<Rightarrow> inidata \<Rightarrow> bool" where
  "acceptable wh jd \<longleftrightarrow>
     (\<forall>v \<in> {Debug jd, Warntime jd, Errtime jd, Interval jd, Sm_timeout jd, Sm_retries jd}.
        v = [] \<or> uint32_ok v) \<and>
     (\<forall>v \<in> {Nosm jd, Use_telemetry jd}. v = [] \<or> flag_ok v) \<and>
     (Telemetry_host jd = [] \<or> host_ok (Telemetry_host jd)) \<and>
     (Port jd = [] \<or> wh \<noteq> PARAM_PATCH)"

definition new_int :: "string \<Rightarrow> app_param \<Rightarrow> app_param" where
  "new_int v a = (if v = [] then a else a\<lparr>int_param := uint32_val v\<rparr>)"

definition new_flag :: "string \<Rightarrow> app_param \<Rightarrow> app_param" where
  "new_flag v a = (if v = [] then a else a\<lparr>int_param := the (parse_flag v)\<rparr>)"

definition new_str :: "string \<Rightarrow> app_param \<Rightarrow> app_param" where
  "new_str v a = (if v = [] then a else a\<lparr>string_param := v\<rparr>)"

definition patched :: "inidata \<Rightarrow> op_params \<Rightarrow> op_params" where
  "patched jd p = p
     \<lparr>debug_level := new_int (Debug jd) (debug_level p),
      nosm := new_flag (Nosm jd) (nosm p),
      use_telemetry := new_flag (Use_telemetry jd) (use_telemetry p),
      telemetry_host := new_str (Telemetry_host jd) (telemetry_host p),
      warntime := new_int (Warntime jd) (warntime p),
      errtime := new_int (Errtime jd) (errtime p),
      kv_url := new_str (Kv_url jd) (kv_url p),
      check_interval := new_int (Interval jd) (check_interval p),
      statemgr_url := new_str (Sm_url jd) (statemgr_url p),
      statemgr_timeout := new_int (Sm_timeout jd) (statemgr_timeout p),
      statemgr_retries := new_int (Sm_retries jd) (statemgr_retries p)\<rparr>"

lemma patch_bad:
  "bad (patch_uint n v upd s) = (if v = [] \<or> uint32_ok v then bad s else - 1)"
  "bad (patch_flag n ph v upd s) = (if v = [] \<or> flag_ok v then bad s else - 1)"
  "bad (patch_str v upd2 s) = bad s"
  "bad (patch_host n v s) = (if v = [] \<or> host_ok v then bad s else - 1)"
  "bad (patch_port n v wh s) = (if v = [] \<or> wh \<noteq> PARAM_PATCH then bad s else - 1)"
  by (auto simp: patch_uint_def patch_flag_def patch_str_def patch_host_def patch_port_def
      reject_def uint32_ok_def flag_ok_def host_ok_def split: prod.splits option.splits)

lemma patch_tpd:
  "v = [] \<or> uint32_ok v \<Longrightarrow>
   tpd (patch_uint n v upd s) = (if v = [] then tpd s else upd (uint32_val v) (tpd s))"
  "w = [] \<or> flag_ok w \<Longrightarrow>
   tpd (patch_flag n ph w upd s) = (if w = [] then tpd s else upd (the (parse_flag w)) (tpd s))"
  "tpd (patch_str u upd2 s) = (if u = [] then tpd s else upd2 u (tpd s))"
  "h = [] \<or> host_ok h \<Longrightarrow>
   tpd (patch_host n h s) = (tpd s)\<lparr>telemetry_host := new_str h (telemetry_host (tpd s))\<rparr>"
  "tpd (patch_port n q wh s) = tpd s"
  by (auto simp: patch_uint_def patch_flag_def patch_str_def patch_host_def patch_port_def
      uint32_ok_def uint32_val_def flag_ok_def host_ok_def new_str_def split: prod.splits option.splits)

lemma set_param_cond:
  "(if v = [] then t else set_debug (uint32_val v) t) = t\<lparr>debug_level := new_int v (debug_level t)\<rparr>"
  "(if v = [] then t else set_nosm (the (parse_flag v)) t) = t\<lparr>nosm := new_flag v (nosm t)\<rparr>"
  "(if v = [] then t else set_use_telemetry (the (parse_flag v)) t) =
     t\<lparr>use_telemetry := new_flag v (use_telemetry t)\<rparr>"
  "(if v = [] then t else set_warntime (uint32_val v) t) = t\<lparr>warntime := new_int v (warntime t)\<rparr>"
  "(if v = [] then t else set_errtime (uint32_val v) t) = t\<lparr>errtime := new_int v (errtime t)\<rparr>"
  "(if v = [] then t else set_interval (uint32_val v) t) =
     t\<lparr>check_interval := new_int v (check_interval t)\<rparr>"
  "(if v = [] then t else set_kv_url v t) = t\<lparr>kv_url := new_str v (kv_url t)\<rparr>"
  "(if v = [] then t else set_sm_url v t) = t\<lparr>statemgr_url := new_str v (statemgr_url t)\<rparr>"
  "(if v = [] then t else set_sm_timeout (uint32_val v) t) =
     t\<lparr>statemgr_timeout := new_int v (statemgr_timeout t)\<rparr>"
  "(if v = [] then t else set_sm_retries (uint32_val v) t) =
     t\<lparr>statemgr_retries := new_int v (statemgr_retries t)\<rparr>"
  by (simp_all add: set_param_defs new_int_def new_flag_def new_str_def)

lemma apply_inidata_bad:
  assumes "bad s = 0"
  shows "bad (apply_inidata p wh jd s) = (if acceptable wh jd then 0 else - 1)"
  using assms by (simp add: apply_inidata_def Let_def patch_bad acceptable_def)

lemma apply_inidata_tpd:
  assumes "acceptable wh jd"
  shows "tpd (apply_inidata p wh jd s) = patched jd (tpd s)"
proof -
  have ok: "Debug jd = [] \<or> uint32_ok (Debug jd)" "Nosm jd = [] \<or> flag_ok (Nosm jd)"
    "Use_telemetry jd = [] \<or> flag_ok (Use_telemetry jd)"
    "Telemetry_host jd = [] \<or> host_ok (Telemetry_host jd)"
    "Warntime jd = [] \<or> uint32_ok (Warntime jd)" "Errtime jd = [] \<or> uint32_ok (Errtime jd)"
    "Interval jd = [] \<or> uint32_ok (Interval jd)" "Sm_timeout jd = [] \<or> uint32_ok (Sm_timeout jd)"
    "Sm_retries jd = [] \<or> uint32_ok (Sm_retries jd)"
    using assms by (auto simp: acceptable_def)
  show ?thesis
    by (simp add: apply_inidata_def Let_def patch_tpd ok set_param_cond patched_def)
qed

lemma patch_errstr:
  "v = [] \<or> uint32_ok v \<Longrightarrow> errstr (patch_uint n v upd s) = errstr s"
  "w = [] \<or> flag_ok w \<Longrightarrow> errstr (patch_flag n ph w upd s) = errstr s"
  "errstr (patch_str u upd2 s) = errstr s"
  "h = [] \<or> host_ok h \<Longrightarrow> errstr (patch_host n h s) = errstr s"
  "q = [] \<or> wh \<noteq> PARAM_PATCH \<Longrightarrow> errstr (patch_port n q wh s) = errstr s"
  by (auto simp: patch_uint_def patch_flag_def patch_str_def patch_host_def patch_port_def
      uint32_ok_def flag_ok_def host_ok_def split: prod.splits option.splits)

lemma apply_inidata_errstr:
  assumes "acceptable wh jd"
  shows "errstr (apply_inidata p wh jd s) = errstr s"
  using assms by (simp add: apply_inidata_def Let_def patch_errstr acceptable_def)

lemma port_patched [simp]: "port (patched jd p) = port p"
  by (simp add: patched_def)

text \<open>Everything \<open>parse_parm_json\<close> does to a body that decodes.\<close>

lemma parse_parm_json_decoded:
  assumes "unmarshal_strings (inidata_fields no_inidata) body = (fs, True)"
  shows "acceptable wh (inidata_of fs) \<Longrightarrow>
      parse_parm_json p up body wh es = (0, patched (inidata_of fs) p, string_param (port p), es)"
    and "\<not> acceptable wh (inidata_of fs) \<Longrightarrow>
      \<exists>es'. parse_parm_json p up body wh es = (- 1, p, up, es')"
  using assms
  by (simp_all add: parse_parm_defs Let_def apply_inidata_bad apply_inidata_tpd
      apply_inidata_errstr)

text \<open>Both cases together.\<close>

lemma parse_parm_json_all:
  "\<exists>es'. parse_parm_json p up body wh es =
     (let (fs, ok) = unmarshal_strings (inidata_fields no_inidata) body;
          jd = inidata_of fs
      in if ok \<and> acceptable wh jd
         then (0, patched jd p, string_param (port p), es) else (- 1, p, up, es'))"
proof -
  obtain fs ok where u: "unmarshal_strings (inidata_fields no_inidata) body = (fs, ok)"
    by (cases "unmarshal_strings (inidata_fields no_inidata) body")
  show ?thesis
  proof (cases ok)
    case True
    with u parse_parm_json_decoded [of body fs wh p up es] show ?thesis
      by (cases "acceptable wh (inidata_of fs)") auto
  next
    case False
    with u show ?thesis
      by (auto simp: parse_parm_defs split: option.splits)
  qed
qed

lemma inidata_field_names:
  "map fst (inidata_fields jd) = map fst (inidata_fields no_inidata)"
  by (simp add: inidata_fields_def)

lemma inidata_names_ok:
  "distinct (map fst (inidata_fields no_inidata))" "list_all ascii (map fst (inidata_fields jd))"
  by (simp_all add: inidata_fields_def ascii_def)

definition valid_inidata :: "inidata \<Rightarrow> bool" where
  "valid_inidata jd \<longleftrightarrow> list_all (\<lambda>(k, v). utf8_valid v) (inidata_fields jd)"

lemma inidata_of_fields:
  assumes "valid_inidata jd"
  shows "inidata_of (map (\<lambda>(k, v). (k, sanitize v)) (inidata_fields jd)) = jd"
  using assms
  by (simp add: inidata_of_def inidata_fields_def valid_inidata_def field_def sanitize_valid)

lemma unmarshal_inidata:
  assumes "valid_inidata jd"
  shows "\<exists>fs. unmarshal_strings (inidata_fields no_inidata) (render (fields_json (inidata_fields jd)))
      = (fs, True) \<and> inidata_of fs = jd"
  using unmarshal_all [OF inidata_field_names inidata_names_ok(1,2)] inidata_of_fields [OF assms]
  by simp

section \<open>Well-formed parameters\<close>

definition is_uint32 :: "int \<Rightarrow> bool" where
  "is_uint32 i \<longleftrightarrow> 0 \<le> i \<and> i < 2 ^ 32"

text \<open>The integer parameters a patch can set are unsigned 32-bit values, the flags 0 or 1.\<close>

definition params_ok :: "op_params \<Rightarrow> bool" where
  "params_ok p \<longleftrightarrow>
     is_uint32 (int_param (debug_level p)) \<and> is_uint32 (int_param (warntime p)) \<and>
     is_uint32 (int_param (errtime p)) \<and> is_uint32 (int_param (check_interval p)) \<and>
     is_uint32 (int_param (statemgr_timeout p)) \<and> is_uint32 (int_param (statemgr_retries p)) \<and>
     int_param (nosm p) \<in> {0, 1} \<and> int_param (use_telemetry p) \<in> {0, 1} \<and>
     (string_param (telemetry_host p) = [] \<or> host_ok (string_param (telemetry_host p)))"

text \<open>The strings a parameter set shows are valid UTF-8.\<close>

definition params_text_ok :: "op_params \<Rightarrow> bool" where
  "params_text_ok p \<longleftrightarrow>
     utf8_valid (string_param (telemetry_host p)) \<and> utf8_valid (string_param (port p)) \<and>
     utf8_valid (string_param (kv_url p)) \<and> utf8_valid (string_param (statemgr_url p))"

lemma parse_digits_bound:
  "a \<le> m \<Longrightarrow> fst (parse_digits b b0 m a s) \<le> m"
  by (induction b b0 m a s rule: parse_digits.induct) (auto split: option.splits)

lemma uint32_val_bound: "is_uint32 (uint32_val v)"
proof -
  have "n \<le> 2 ^ 32 - 1" if "parse_digits b b0 (2 ^ 32 - 1) 0 s = (n, e)" for b b0 s n e
    using parse_digits_bound [of 0 "2 ^ 32 - 1" b b0 s] that by simp
  then have "fst (parse_uint v 0 32) \<le> 2 ^ 32 - 1"
    by (fastforce simp: parse_uint_def Let_def split: prod.splits)
  then show ?thesis by (simp add: uint32_val_def is_uint32_def)
qed

lemma parse_flag_range: "parse_flag v = Some b \<Longrightarrow> b \<in> {0, 1}"
  by (auto simp: parse_flag_def Let_def split: if_splits)

lemma new_flag_range:
  "int_param a \<in> {0, 1} \<Longrightarrow> v = [] \<or> flag_ok v \<Longrightarrow> int_param (new_flag v a) \<in> {0, 1}"
  using parse_flag_range [of v] by (auto simp: new_flag_def flag_ok_def)

lemma new_int_range: "is_uint32 (int_param a) \<Longrightarrow> is_uint32 (int_param (new_int v a))"
  by (simp add: new_int_def uint32_val_bound)

lemma params_ok_patched:
  assumes "params_ok p" "acceptable wh jd"
  shows "params_ok (patched jd p)"
proof -
  have flags: "Nosm jd = [] \<or> flag_ok (Nosm jd)" "Use_telemetry jd = [] \<or> flag_ok (Use_telemetry jd)"
    using assms(2) by (simp_all add: acceptable_def)
  have old: "int_param (nosm p) \<in> {0, 1}" "int_param (use_telemetry p) \<in> {0, 1}"
    using assms(1) unfolding params_ok_def by blast+
  have host: "Telemetry_host jd = [] \<or> host_ok (Telemetry_host jd)"
    using assms(2) by (simp add: acceptable_def)
  have ints: "is_uint32 (int_param (debug_level (patched jd p)))"
    "is_uint32 (int_param (warntime (patched jd p)))" "is_uint32 (int_param (errtime (patched jd p)))"
    "is_uint32 (int_param (check_interval (patched jd p)))"
    "is_uint32 (int_param (statemgr_timeout (patched jd p)))"
    "is_uint32 (int_param (statemgr_retries (patched jd p)))"
    using assms(1) by (simp_all add: params_ok_def patched_def new_int_range)
  moreover have "int_param (nosm (patched jd p)) \<in> {0, 1}"
    "int_param (use_telemetry (patched jd p)) \<in> {0, 1}"
    using new_flag_range [OF old(1) flags(1)] new_flag_range [OF old(2) flags(2)]
    by (simp_all add: patched_def)
  moreover have "string_param (telemetry_host (patched jd p)) = [] \<or>
      host_ok (string_param (telemetry_host (patched jd p)))"
    using assms(1) host by (auto simp: params_ok_def patched_def new_str_def)
  ultimately show ?thesis unfolding params_ok_def by blast
qed

lemma ascii_itoa: "ascii (itoa i)"
proof -
  have "byte_of (digit_char d) < 128" if "d < 10" for d
    using that by (simp add: digit_char_def)
  then have "c \<in> set (fmt_base 10 n) \<Longrightarrow> byte_of c < 128" for c n
    using fmt_base_digits [of 10 c n] by auto
  then show ?thesis by (auto simp: itoa_def ascii_def list_all_iff)
qed

lemma utf8_valid_itoa [simp]: "utf8_valid (itoa i)"
  using ascii_itoa by (simp add: ascii_def utf8_valid_ascii)

lemma itoa_nonempty [simp]: "itoa i \<noteq> []"
  by (simp add: itoa_def)

lemma uint32_itoa: "is_uint32 i \<Longrightarrow> uint32_ok (itoa i) \<and> uint32_val (itoa i) = i"
  by (simp add: uint32_ok_def uint32_val_def parse_uint0_itoa is_uint32_def)

lemma itoa_01: "itoa 0 = ''0''" "itoa 1 = ''1''"
proof -
  have "digit_char 1 = CHR ''1''"
    using char_of_char [of "CHR ''1''"] by (simp add: digit_char_def)
  then show "itoa 0 = ''0''" "itoa 1 = ''1''" by (simp_all add: itoa_def fmt_base_small)
qed

lemma flag_itoa: "b \<in> {0, 1} \<Longrightarrow> flag_ok (itoa b) \<and> parse_flag (itoa b) = Some b"
  by (auto simp: itoa_01 flag_ok_def parse_flag_def to_lower_def lower_byte_def Let_def)

lemma cur_inidata_acceptable:
  assumes "params_ok p"
  shows "acceptable wh ((cur_inidata p)\<lparr>Port := []\<rparr>)"
  using assms by (auto simp: acceptable_def cur_inidata_def params_ok_def uint32_itoa flag_itoa)

lemma cur_inidata_valid: "params_text_ok p \<Longrightarrow> valid_inidata (cur_inidata p)"
  by (simp add: valid_inidata_def inidata_fields_def cur_inidata_def params_text_ok_def)

lemma gen_cur_param_json_unmarshal:
  assumes "params_text_ok p"
  shows "\<exists>fs. unmarshal_strings (inidata_fields no_inidata) (the (gen_cur_param_json p)) = (fs, True) \<and>
    inidata_of fs = cur_inidata p"
  using unmarshal_inidata [OF cur_inidata_valid [OF assms]]
  by (simp add: gen_cur_param_json_def json_marshal_def)

text \<open>The same JSON without the member for the port.\<close>

definition without_port :: "op_params \<Rightarrow> string" where
  "without_port p = render (fields_json (filter (\<lambda>(k, v). k \<noteq> ''Port'') (inidata_fields (cur_inidata p))))"

lemma without_port_unmarshal:
  assumes "params_text_ok p"
  shows "\<exists>fs. unmarshal_strings (inidata_fields no_inidata) (without_port p) = (fs, True) \<and>
    inidata_of fs = (cur_inidata p)\<lparr>Port := []\<rparr>"
proof -
  let ?gs = "filter (\<lambda>(k, v). k \<noteq> ''Port'') (inidata_fields (cur_inidata p))"
  have "set (map fst ?gs) \<subseteq> set (map fst (inidata_fields no_inidata))" "list_all ascii (map fst ?gs)"
    by (auto simp: inidata_fields_def ascii_def)
  note um = unmarshal_members [OF this]
  have "inidata_of (fold (\<lambda>(k, v). AList.update k v) (map (\<lambda>(k, v). (k, sanitize v)) ?gs)
      (inidata_fields no_inidata)) = (cur_inidata p)\<lparr>Port := []\<rparr>"
    using cur_inidata_valid [OF assms]
    by (simp add: inidata_of_def inidata_fields_def valid_inidata_def field_def sanitize_valid no_inidata_def)
  with um show ?thesis unfolding without_port_def by blast
qed

section \<open>What the command line does to the integers\<close>

lemma cmdline_ints:
  "debug_level (fst (parse_cmdline_params t pp)) = flag_int 0 (debug_level t) (debug_level (fst pp))"
  "warntime (fst (parse_cmdline_params t pp)) = flag_int 0 (warntime t) (warntime (fst pp))"
  "errtime (fst (parse_cmdline_params t pp)) = flag_int 0 (errtime t) (errtime (fst pp))"
  "check_interval (fst (parse_cmdline_params t pp)) =
     flag_int 0 (check_interval t) (check_interval (fst pp))"
  "statemgr_retries (fst (parse_cmdline_params t pp)) =
     flag_int 1 (statemgr_retries t) (statemgr_retries (fst pp))"
  "statemgr_timeout (fst (parse_cmdline_params t pp)) =
     flag_int 1 (statemgr_timeout t) (statemgr_timeout (fst pp))"
  by (simp_all add: parse_cmdline_params_def Let_def split_beta)

lemma flag_params_ints:
  "int_param (debug_level (flag_params f)) = fl_debug f"
  "int_param (warntime (flag_params f)) = fl_warntime f"
  "int_param (errtime (flag_params f)) = fl_errtime f"
  "int_param (check_interval (flag_params f)) = fl_interval f"
  "int_param (statemgr_retries (flag_params f)) = fl_sm_retries f"
  "int_param (statemgr_timeout (flag_params f)) = fl_sm_timeout f"
  by (simp_all add: flag_params_def int_app_def)

lemma flag_int_value:
  "int_param (flag_int 0 t a) = (if int_param t = UNINT then int_param a else max 0 (int_param t))"
  "int_param (flag_int 1 t a) = (if int_param t = UNINT then int_param a else max 1 (int_param t))"
  by (simp_all add: flag_int_def max_def)

section \<open>Properties\<close>

text \<open>
  A patch is all or nothing. For every body, source and prior parameters, \<open>parse_parm_json\<close>
  succeeds exactly when the body decodes into \<open>inidata\<close> and every non-empty field is
  acceptable; it then sets exactly the parameters of the non-empty fields, leaves the port
  alone and adds no error text. In every other case it returns -1 and neither \<open>app_params\<close>
  nor \<open>server_url_port\<close> changes.
\<close>

theorem parse_parm_json_contract:
  "\<exists>es'. parse_parm_json p up body wh es =
     (let (fs, ok) = unmarshal_strings (inidata_fields no_inidata) body;
          jd = inidata_of fs
      in if ok \<and> acceptable wh jd
         then (0, patched jd p, string_param (port p), es) else (- 1, p, up, es'))"
  by (rule parse_parm_json_all)



text \<open>
  The JSON that \<open>GET /params\<close> answers with is refused when it is sent back by
  \<open>PATCH /params\<close>, because it names the port; nothing changes.
\<close>

theorem get_body_rejected_by_patch:
  assumes "params_text_ok p" "string_param (port p) \<noteq> []"
  shows "\<exists>es'. parse_parm_json q up (the (gen_cur_param_json p)) PARAM_PATCH es = (- 1, q, up, es')"
proof -
  obtain fs where fs: "unmarshal_strings (inidata_fields no_inidata) (the (gen_cur_param_json p)) = (fs, True)"
    and jd: "inidata_of fs = cur_inidata p"
    using gen_cur_param_json_unmarshal [OF assms(1)] by blast
  have "\<not> acceptable PARAM_PATCH (inidata_of fs)"
    using assms(2) by (simp add: jd acceptable_def cur_inidata_def)
  then show ?thesis by (rule parse_parm_json_decoded(2) [OF fs])
qed

theorem get_body_rejected_by_patch_witness:
  "\<exists>es'. parse_parm_json initAppParams URL_PORT (the (gen_cur_param_json initAppParams))
     PARAM_PATCH [] = (- 1, initAppParams, URL_PORT, es')"
proof -
  have "params_text_ok initAppParams" "string_param (port initAppParams) \<noteq> []"
    by (simp_all add: params_text_ok_def initAppParams_def int_app_def str_app_def
        URL_PORT_def KV_URL_BASE_def SM_URL_BASE_def Let_def)
  then show ?thesis by (rule get_body_rejected_by_patch)
qed

text \<open>
  C28: Every parameter set reachable by patches keeps its integers in the unsigned 32-bit
  range and its flags at 0 or 1: \<open>parse_parm_json\<close> preserves \<open>params_ok\<close> whatever the body.
\<close>

theorem parse_parm_json_params_ok:
  assumes "params_ok p"
  shows "params_ok (fst (snd (parse_parm_json p up body wh es)))"
proof -
  obtain fs ok where u: "unmarshal_strings (inidata_fields no_inidata) body = (fs, ok)"
    by (cases "unmarshal_strings (inidata_fields no_inidata) body")
  show ?thesis
  proof (cases "ok \<and> acceptable wh (inidata_of fs)")
    case True
    with u parse_parm_json_decoded(1) [of body fs wh p up es]
      params_ok_patched [OF assms, of wh "inidata_of fs"] show ?thesis
      by simp
  next
    case False
    show ?thesis
    proof (cases ok)
      case True
      with u False parse_parm_json_decoded(2) [of body fs wh p up es] assms show ?thesis by auto
    next
      case False
      with u assms show ?thesis by (simp add: parse_parm_defs split: option.splits)
    qed
  qed
qed

theorem parse_parm_json_params_ok_witness:
  "params_ok (fst (snd (parse_parm_json initAppParams URL_PORT ''{}'' PARAM_PATCH [])))"
  by (rule parse_parm_json_params_ok)
    (simp add: params_ok_def initAppParams_def int_app_def str_app_def is_uint32_def
      SM_RETRIES_def SM_TIMEOUT_def)

text \<open>
  The environment is not held to that range: \<open>HBTD_ERRTIME\<close> is read as a 64-bit unsigned
  number and converted to \<open>int\<close>, so the largest one makes the error time -1, and a node is
  then declared dead by the check that runs right after its heartbeat.
\<close>

theorem env_errtime_negative:
  "int_param (errtime (parse_env_vars (\<lambda>v. if v = ''HBTD_ERRTIME'' then itoa (2 ^ 64 - 1) else [])
     initAppParams)) = - 1"
proof -
  have "parse_uint (itoa (2 ^ 64 - 1)) 0 64 = (nat (2 ^ 64 - 1), None)"
    by (rule parse_uint0_itoa) simp_all
  moreover have "int64 (int (nat (2 ^ 64 - 1))) = - 1"
    by (simp add: int64_def signed_take_bit_eq_take_bit_shift take_bit_int_def)
  ultimately show ?thesis
    by (simp add: parse_env_vars_def Let_def env_int_def env_parse_int_def initAppParams_def)
qed

text \<open>
  \<open>HBTD_PORT\<close> has no effect on the port the service listens on: reading the environment
  leaves the string the port is taken from alone, whatever the variables hold.
\<close>

theorem env_port_ignored:
  "string_param (port (parse_env_vars getenv p)) = string_param (port p)"
  by (simp add: parse_env_vars_def Let_def env_int_def)

text \<open>
  \<open>HBTD_KV_URL\<close> has no effect either: the command line's default for \<open>kv_url\<close> is the real
  default URL and not the marker for "not given", so after startup without that flag the URL
  is the built-in one, whatever the environment holds.
\<close>

theorem env_kv_url_overridden:
  "string_param (kv_url (fst (parse_cmdline_params (flag_params default_flags)
     (parse_env_vars getenv initAppParams, URL_PORT)))) = KV_URL_BASE"
  by (simp add: parse_cmdline_params_def Let_def flag_params_def default_flags_def flag_str_def
      int_app_def str_app_def KV_URL_BASE_def UNSTR_def)

text \<open>
  C40: A numeric command line flag that is given sets its parameter to a floored value:
  debug, warning time, error time and interval end at 0 or above, retries and timeout at 1
  or above; flags left at their default keep what the environment set.
\<close>

theorem cmdline_floors:
  "let q = fst (parse_cmdline_params (flag_params f) pp);
       set_to = (\<lambda>lo fl old. if fl = UNINT then int_param old else max lo fl)
   in int_param (debug_level q) = set_to 0 (fl_debug f) (debug_level (fst pp)) \<and>
      int_param (warntime q) = set_to 0 (fl_warntime f) (warntime (fst pp)) \<and>
      int_param (errtime q) = set_to 0 (fl_errtime f) (errtime (fst pp)) \<and>
      int_param (check_interval q) = set_to 0 (fl_interval f) (check_interval (fst pp)) \<and>
      int_param (statemgr_retries q) = set_to 1 (fl_sm_retries f) (statemgr_retries (fst pp)) \<and>
      int_param (statemgr_timeout q) = set_to 1 (fl_sm_timeout f) (statemgr_timeout (fst pp))"
  unfolding Let_def cmdline_ints flag_int_value flag_params_ints by simp

end
