(* ===== verification/Hsm_Sender.thy ===== *)
theory Hsm_Sender
  imports Notify Params
begin

text \<open>
  The thread that tells the State Manager (HSM) about heartbeat changes: \<open>send_sm_req\<close> of
  \<open>track.go\<close> with its helpers. One turn of its loop takes the sender's own (persistent) maps
  and the global maps to new ones. The State Manager is a parameter: its answer to a PATCH of
  a body to a URL. The four requests of a turn run in parallel, so the answers are given per
  request and not as a sequence.
\<close>

section \<open>Requests to the State Manager\<close>

record bulk =
  ComponentIDs :: "string list"
  bk_State :: string
  bk_Flag :: string
  bk_Message :: string
  needSend :: bool
  sentOK :: bool

text \<open>
  \<open>Bad_url\<close>: \<open>http.NewRequestWithContext\<close> rejects the URL, its error is dropped and the nil
  request is used, which panics. \<open>No_answer\<close>: \<open>Do\<close> returns an error.
\<close>

datatype http_outcome = Bad_url | No_answer | Answer nat

type_synonym hsm = "string \<Rightarrow> string \<Rightarrow> http_outcome"

definition SM_URL_MID :: string where "SM_URL_MID = ''State/Components''"
definition SM_URL_SUFFIX :: string where "SM_URL_SUFFIX = ''BulkStateData''"

text \<open>A nil slice is written \<open>null\<close>; the unexported fields are not written.\<close>

definition bulk_json :: "bulk \<Rightarrow> json" where
  "bulk_json b = JObj
     [(''ComponentIDs'', if ComponentIDs b = [] then JNull else JArr (map JStr (ComponentIDs b))),
      (''State'', JStr (bk_State b)), (''Flag'', JStr (bk_Flag b)),
      (''ExtendedInfo'', JObj [(''ID'', JStr []), (''Message'', JStr (bk_Message b)),
         (''Flag'', JStr [])])]"

definition patch_url :: "bool \<Rightarrow> op_params \<Rightarrow> string" where
  "patch_url testMode p =
     (let url = string_param (statemgr_url p) in
      if testMode then url else url @ ''/'' @ SM_URL_MID @ ''/'' @ SM_URL_SUFFIX)"

text \<open>The result is the request's data with the outcome noted in \<open>sentOK\<close>; \<open>None\<close> is a panic.\<close>

definition send_sm_patch :: "hsm \<Rightarrow> bool \<Rightarrow> op_params \<Rightarrow> bulk \<Rightarrow> bulk option" where
  "send_sm_patch hsm testMode p b =
     (case json_marshal (bulk_json b) of
        None \<Rightarrow> Some b
      | Some barr \<Rightarrow>
          if int_param (nosm p) \<noteq> 0 then Some b
          else (case hsm (patch_url testMode p) barr of
                  Bad_url \<Rightarrow> None
                | No_answer \<Rightarrow> Some b
                | Answer code \<Rightarrow>
                    if code = 200 \<or> code = 204 \<or> code = 202 then Some (b\<lparr>sentOK := True\<rparr>)
                    else Some b))"

section \<open>Grooming the maps\<close>

definition all_kinds :: "hb_change list" where
  "all_kinds = [Started, Restarted, StopWarn, StopError]"

definition pre_local :: "seqno gomap \<Rightarrow> bool gomap \<Rightarrow> bool gomap" where
  "pre_local cp all =
     fold (\<lambda>(k, v) a. if v \<noteq> 0 then gm_set k True a else a) (gm_entries cp) all"

definition pre_global ::
  "seqno gomap \<Rightarrow> bool gomap \<times> seqno gomap \<Rightarrow> bool gomap \<times> seqno gomap \<times> seqno gomap" where
  "pre_global g ac =
     fold (\<lambda>(k, v) (a, cp, g').
             if v \<noteq> 0 then (gm_set k True a, gm_set k v cp, gm_set k 0 g') else (a, cp, g'))
          (gm_entries g) (fst ac, snd ac, g)"

definition groom_kind ::
  "hb_change \<Rightarrow> bool gomap \<times> hb_maps \<times> hb_maps \<Rightarrow> bool gomap \<times> hb_maps \<times> hb_maps" where
  "groom_kind c s =
     (let (all, cp, g) = s;
          (all', m, m') = pre_global (g c) (pre_local (cp c) all, cp c)
      in (all', cp(c := m), g(c := m')))"

text \<open>All components with a change, the persistent maps, and the global maps.\<close>

definition groomCompLocalMapsPRE ::
  "bool gomap \<Rightarrow> hb_maps \<Rightarrow> hb_maps \<Rightarrow> bool gomap \<times> hb_maps \<times> hb_maps" where
  "groomCompLocalMapsPRE all cp g =
     fold groom_kind all_kinds (all, cp, g)"

text \<open>Map \<open>c\<close> is \<open>map1\<close>; the entries are set in, and so added to, the three others.\<close>

definition groomCompLocalMapsPOST :: "hb_change \<Rightarrow> hb_maps \<Rightarrow> hb_maps" where
  "groomCompLocalMapsPOST c cp =
     (\<lambda>d. if d = c then cp c else fold (\<lambda>k m. gm_set k 0 m) (gm_keys (cp c)) (cp d))"

section \<open>One turn of the sender\<close>

fun createBSI :: "hb_change \<Rightarrow> bulk" where
  "createBSI Started = \<lparr>ComponentIDs = [], bk_State = StateReady, bk_Flag = FlagOK,
     bk_Message = ''Heartbeat started'', needSend = False, sentOK = False\<rparr>"
| "createBSI Restarted = \<lparr>ComponentIDs = [], bk_State = StateReady, bk_Flag = FlagOK,
     bk_Message = ''Heartbeat restarted'', needSend = False, sentOK = False\<rparr>"
| "createBSI StopWarn = \<lparr>ComponentIDs = [], bk_State = StateReady, bk_Flag = FlagWarning,
     bk_Message = ''Heartbeat stopped -- might be dead'', needSend = False, sentOK = False\<rparr>"
| "createBSI StopError = \<lparr>ComponentIDs = [], bk_State = StateStandby, bk_Flag = FlagAlert,
     bk_Message = ''Heartbeat stopped -- declared dead'', needSend = False, sentOK = False\<rparr>"

text \<open>The loop over \<open>allCompsMap\<close>.\<close>

definition fill_bsi :: "hb_maps \<Rightarrow> string list \<Rightarrow> (hb_change \<Rightarrow> bulk) \<Rightarrow> hb_change \<Rightarrow> bulk" where
  "fill_bsi cp comps bsi =
     fold (\<lambda>k b. case winner (\<lambda>d. gm_get (cp d) k) of
               Some c \<Rightarrow> b(c := (b c)\<lparr>ComponentIDs := ComponentIDs (b c) @ [k]\<rparr>)
             | None \<Rightarrow> b) comps bsi"

text \<open>Start a request when there is something to send; \<open>None\<close> is a panic of its goroutine.\<close>

definition start_patch :: "hsm \<Rightarrow> bool \<Rightarrow> op_params \<Rightarrow> bulk \<Rightarrow> bulk option" where
  "start_patch hsm testMode p b =
     (if ComponentIDs b \<noteq> [] then send_sm_patch hsm testMode p (b\<lparr>needSend := True\<rparr>) else Some b)"

text \<open>After the answers: one kind's maps.\<close>

definition settle :: "(hb_change \<Rightarrow> bulk) \<Rightarrow> hb_change \<Rightarrow> hb_maps \<Rightarrow> hb_maps" where
  "settle bsi c cp =
     (if needSend (bsi c) \<and> sentOK (bsi c)
      then (groomCompLocalMapsPOST c cp)(c := gm_empty) else cp)"

record round =
  rd_local :: hb_maps
  rd_global :: hb_maps
  rd_bsi :: "hb_change \<Rightarrow> bulk"

text \<open>
  The body of the loop for \<open>HSMQ_NEW\<close>, in the two parts between which other threads notify:
  \<open>sm_take\<close> moves the global changes into the sender's maps, under the lock, and makes the lists;
  \<open>sm_answer\<close> sends them and clears what was taken, which touches the sender's own maps only.
  \<open>None\<close> is a panic. The bulk data are shown as they were when the turn ended.
\<close>

definition sm_take :: "hb_maps \<Rightarrow> hb_maps \<Rightarrow> (hb_change \<Rightarrow> bulk) \<times> hb_maps \<times> hb_maps" where
  "sm_take cp0 g0 =
     (let (all, cp, g) = groomCompLocalMapsPRE gm_empty cp0 g0
      in (fill_bsi cp (gm_keys all) createBSI, cp, g))"

definition sm_answer ::
  "hsm \<Rightarrow> bool \<Rightarrow> op_params \<Rightarrow> bool \<Rightarrow> (hb_change \<Rightarrow> bulk) \<Rightarrow> hb_maps
    \<Rightarrow> (hb_maps \<times> (hb_change \<Rightarrow> bulk)) option" where
  "sm_answer hsm testMode p hsmReady bsi cp =
     (if \<not> hsmReady then Some (cp, bsi)
      else if list_ex (\<lambda>c. start_patch hsm testMode p (bsi c) = None) all_kinds then None
      else
        let bsi' = (\<lambda>c. the (start_patch hsm testMode p (bsi c)))
        in if \<not> needSend (bsi' Started) \<and> \<not> needSend (bsi' Restarted) \<and>
              \<not> needSend (bsi' StopWarn) \<and> \<not> needSend (bsi' StopError)
           then Some (cp, bsi')
           else Some (fold (settle bsi') all_kinds cp, bsi'))"

definition send_sm_round ::
  "hsm \<Rightarrow> bool \<Rightarrow> op_params \<Rightarrow> bool \<Rightarrow> hb_maps \<Rightarrow> hb_maps \<Rightarrow> round option" where
  "send_sm_round hsm testMode p hsmReady cp0 g0 =
     (let (bsi, cp, g) = sm_take cp0 g0
      in map_option (\<lambda>(cp', bsi'). \<lparr>rd_local = cp', rd_global = g, rd_bsi = bsi'\<rparr>)
           (sm_answer hsm testMode p hsmReady bsi cp))"

definition HSMQ_DIE :: int where "HSMQ_DIE = 0x8675309"
definition HSMQ_NEW :: int where "HSMQ_NEW = 0x11223344"

text \<open>One turn: the thread ends on \<open>HSMQ_DIE\<close>, the process on a panic.\<close>

datatype 'a turn = Exited | Panicked | Turned 'a

definition send_sm_req ::
  "hsm \<Rightarrow> bool \<Rightarrow> op_params \<Rightarrow> bool \<Rightarrow> int \<Rightarrow> hb_maps \<Rightarrow> hb_maps \<Rightarrow> round turn" where
  "send_sm_req hsm testMode p hsmReady qval cp g =
     (if qval = HSMQ_DIE then Exited
      else case send_sm_round hsm testMode p hsmReady cp g of
             None \<Rightarrow> Panicked | Some r \<Rightarrow> Turned r)"

section \<open>What is pending\<close>

text \<open>
  A global entry overrides the persistent one of the same kind. \<open>pending\<close> is the change a
  turn will try to send for a component.
\<close>

definition merged :: "hb_maps \<Rightarrow> hb_maps \<Rightarrow> string \<Rightarrow> hb_change \<Rightarrow> seqno" where
  "merged cp g x c = (if gm_get (g c) x \<noteq> 0 then gm_get (g c) x else gm_get (cp c) x)"

definition pending :: "hb_maps \<Rightarrow> hb_maps \<Rightarrow> string \<rightharpoonup> hb_change" where
  "pending cp g x = winner (merged cp g x)"

definition sender_ok :: "hb_maps \<Rightarrow> hb_maps \<Rightarrow> seqno \<Rightarrow> bool" where
  "sender_ok cp g s \<longleftrightarrow> (\<forall>x. seq_ok (merged cp g x) s)"

lemma set_all_kinds [simp]: "set all_kinds = UNIV"
  by (auto simp: all_kinds_def) (metis hb_change.exhaust)

lemma pre_local_keys:
  "set (gm_keys (pre_local cp all)) = set (gm_keys all) \<union> {x. gm_get cp x \<noteq> 0}"
proof -
  have "set (gm_keys (fold (\<lambda>(k, v) a. if v \<noteq> 0 then gm_set k True a else a) es all)) =
      set (gm_keys all) \<union> {x. \<exists>v. (x, v) \<in> set es \<and> v \<noteq> 0}" for es :: "(string \<times> seqno) list"
    by (induction es arbitrary: all) (auto split: if_splits)
  moreover have "{x. \<exists>v. (x, v) \<in> set (gm_entries cp) \<and> v \<noteq> 0} = {x. gm_get cp x \<noteq> 0}"
    using gm_entry_get gm_get_nz_entry by (auto simp: gm_entry_get) fastforce
  ultimately show ?thesis by (simp add: pre_local_def)
qed

lemma pre_global_fold:
  fixes es :: "(string \<times> seqno) list"
  assumes "distinct (map fst es)"
    and "fold (\<lambda>(k, v) (a, cp, g'). if v \<noteq> 0 then (gm_set k True a, gm_set k v cp, gm_set k 0 g')
              else (a, cp, g')) es (all, cp, g) = (all', cp', g')"
  shows "set (gm_keys all') = set (gm_keys all) \<union> {x. \<exists>v. (x, v) \<in> set es \<and> v \<noteq> 0}"
    and "gm_get cp' x = (if \<exists>v. (x, v) \<in> set es \<and> v \<noteq> 0 then the (map_of es x) else gm_get cp x)"
    and "gm_get g' x = (if \<exists>v. (x, v) \<in> set es \<and> v \<noteq> 0 then 0 else gm_get g x)"
  using assms
proof (induction es arbitrary: all cp g)
  case Nil
  { case 1 then show ?case by simp }
  { case 2 then show ?case by simp }
  { case 3 then show ?case by simp }
next
  case (Cons e es)
  obtain k v where e: "e = (k, v)" by (cases e)
  { case 1 then show ?case using Cons.IH(1) by (fastforce simp: e split: if_splits) }
  { case 2 then show ?case using Cons.IH(2)
      by (cases "x = k") (force simp: e split: if_splits)+ }
  { case 3 then show ?case using Cons.IH(3)
      by (cases "x = k") (force simp: e split: if_splits)+ }
qed

lemma pre_global_result:
  assumes "pre_global g (all, cp) = (all', cp', g')"
  shows "set (gm_keys all') = set (gm_keys all) \<union> {x. gm_get g x \<noteq> 0}"
    and "gm_get cp' x = (if gm_get g x \<noteq> 0 then gm_get g x else gm_get cp x)"
    and "gm_get g' x = 0"
proof -
  have nz: "(\<exists>v. (x, v) \<in> set (gm_entries g) \<and> v \<noteq> 0) \<longleftrightarrow> gm_get g x \<noteq> 0" for x
    using gm_entry_get gm_get_nz_entry by (metis (no_types))
  have val: "gm_get g x \<noteq> 0 \<Longrightarrow> the (map_of (gm_entries g) x) = gm_get g x" for x
    by (auto simp: gm_get_def gm_entries_def DAList.lookup.rep_eq split: option.splits)
  have d: "distinct (map fst (gm_entries g))" by (simp add: gm_entries_def)
  note f = pre_global_fold [OF d, of all cp g all' cp' g']
  show "set (gm_keys all') = set (gm_keys all) \<union> {x. gm_get g x \<noteq> 0}"
    using f(1) assms nz by (simp add: pre_global_def)
  show "gm_get cp' x = (if gm_get g x \<noteq> 0 then gm_get g x else gm_get cp x)"
    using f(2) assms nz val by (simp add: pre_global_def)
  show "gm_get g' x = 0"
    using f(3) assms nz by (simp add: pre_global_def)
qed

text \<open>One kind groomed: its entries move to the persistent map, nothing else changes.\<close>

lemma groom_kind_result:
  assumes "groom_kind c (all, cp, g) = (all', cp', g')"
  shows "set (gm_keys all') = set (gm_keys all) \<union> {x. merged cp g x c \<noteq> 0}"
    and "gm_get (cp' d) x = (if d = c then merged cp g x c else gm_get (cp d) x)"
    and "gm_get (g' d) x = (if d = c then 0 else gm_get (g d) x)"
proof -
  obtain m m' where pg: "pre_global (g c) (pre_local (cp c) all, cp c) = (all', m, m')"
    and cp': "cp' = cp(c := m)" and g': "g' = g(c := m')"
    using assms by (auto simp: groom_kind_def Let_def split: prod.splits)
  note r = pre_global_result [OF pg]
  show "set (gm_keys all') = set (gm_keys all) \<union> {x. merged cp g x c \<noteq> 0}"
    using r(1) by (auto simp: pre_local_keys merged_def)
  show "gm_get (cp' d) x = (if d = c then merged cp g x c else gm_get (cp d) x)"
    using r(2) by (simp add: cp' merged_def)
  show "gm_get (g' d) x = (if d = c then 0 else gm_get (g d) x)"
    using r(3) by (simp add: g')
qed

lemma groom_fold:
  assumes "fold groom_kind cs (all, cp, g) = (all', cp', g')" "distinct cs"
  shows "set (gm_keys all') = set (gm_keys all) \<union> {x. \<exists>c \<in> set cs. merged cp g x c \<noteq> 0} \<and>
    (\<forall>d x. gm_get (cp' d) x = (if d \<in> set cs then merged cp g x d else gm_get (cp d) x)) \<and>
    (\<forall>d x. gm_get (g' d) x = (if d \<in> set cs then 0 else gm_get (g d) x))"
  using assms
proof (induction cs arbitrary: all cp g)
  case (Cons c cs)
  obtain a1 cp1 g1 where k: "groom_kind c (all, cp, g) = (a1, cp1, g1)"
    by (cases "groom_kind c (all, cp, g)") auto
  note r = groom_kind_result [OF k]
  have same: "merged cp1 g1 x d = merged cp g x d" if "d \<noteq> c" for x d
    using that r(2,3) by (simp add: merged_def)
  have c: "c \<notin> set cs" and d: "distinct cs" using Cons.prems(2) by auto
  have f: "fold groom_kind cs (a1, cp1, g1) = (all', cp', g')" using Cons.prems(1) k by simp
  note IH = Cons.IH [OF f d]
  have "(\<exists>d \<in> set cs. merged cp1 g1 x d \<noteq> 0) \<longleftrightarrow> (\<exists>d \<in> set cs. merged cp g x d \<noteq> 0)" for x
    using c same by (metis (no_types))
  moreover have "merged cp1 g1 x d = merged cp g x d" if "d \<in> set cs" for x d
    using c that by (intro same) auto
  ultimately show ?case using IH r c by (auto split: if_splits)
qed simp

lemma groom_pre:
  assumes "groomCompLocalMapsPRE gm_empty cp g = (all, cp', g')"
  shows "set (gm_keys all) = {x. \<exists>c. merged cp g x c \<noteq> 0}"
    and "gm_get (cp' c) x = merged cp g x c"
    and "gm_get (g' c) x = 0"
  using groom_fold [of all_kinds gm_empty cp g all cp' g'] assms
  by (simp_all add: groomCompLocalMapsPRE_def) (simp_all add: all_kinds_def)

section \<open>What a turn sends\<close>

lemma fill_bsi_ids:
  "ComponentIDs (fill_bsi cp ks bsi c) =
     ComponentIDs (bsi c) @ filter (\<lambda>k. last_change cp k = Some c) ks"
  by (induction ks arbitrary: bsi)
    (auto simp: fill_bsi_def last_change_def split: option.splits)

lemma fill_bsi_flags [simp]:
  "needSend (fill_bsi cp ks bsi c) = needSend (bsi c)"
  "sentOK (fill_bsi cp ks bsi c) = sentOK (bsi c)"
  by (induction ks arbitrary: bsi) (auto simp: fill_bsi_def split: option.splits)

lemma createBSI_simps [simp]:
  "ComponentIDs (createBSI c) = []" "needSend (createBSI c) = False" "sentOK (createBSI c) = False"
  by (cases c; simp)+

lemma start_patch_simps:
  assumes "start_patch hsm tm p b = Some b'" "needSend b = False" "sentOK b = False"
  shows "ComponentIDs b' = ComponentIDs b" "needSend b' \<longleftrightarrow> ComponentIDs b \<noteq> []"
    "sentOK b' \<Longrightarrow> ComponentIDs b \<noteq> []"
  using assms
  by (auto simp: start_patch_def send_sm_patch_def json_marshal_def
      split: if_splits http_outcome.splits)

section \<open>What a turn keeps\<close>

lemma zero_keys_get:
  "gm_get (fold (\<lambda>k m. gm_set k 0 m) ks m) x = (if x \<in> set ks then 0 else gm_get m x)"
  by (induction ks arbitrary: m) auto

lemma zero_keys_keys:
  "set (gm_keys (fold (\<lambda>k m. gm_set k 0 m) ks m)) = set ks \<union> set (gm_keys m)"
  by (induction ks arbitrary: m) auto

definition sent_ok :: "(hb_change \<Rightarrow> bulk) \<Rightarrow> hb_change \<Rightarrow> bool" where
  "sent_ok bsi c \<longleftrightarrow> needSend (bsi c) \<and> sentOK (bsi c)"

definition has_key :: "hb_maps \<Rightarrow> string \<Rightarrow> hb_change \<Rightarrow> bool" where
  "has_key cp x c \<longleftrightarrow> x \<in> set (gm_keys (cp c))"

lemma settle_get:
  "gm_get (settle bsi c cp d) x =
     (if sent_ok bsi c \<and> has_key cp x c then 0 else gm_get (cp d) x)"
proof (cases "d = c")
  case True
  then show ?thesis
    by (auto simp: settle_def sent_ok_def has_key_def gm_get_not_key)
qed (simp add: settle_def sent_ok_def groomCompLocalMapsPOST_def zero_keys_get has_key_def)

lemma settle_keys:
  "has_key (settle bsi c cp) x d \<longleftrightarrow>
     (if sent_ok bsi c then d \<noteq> c \<and> (has_key cp x c \<or> has_key cp x d) else has_key cp x d)"
  by (simp add: settle_def sent_ok_def groomCompLocalMapsPOST_def has_key_def zero_keys_keys)

text \<open>
  A component's entries survive the successes exactly when no map that was sent
  successfully has a key for it; otherwise they are all zero.
\<close>

lemma settle_fold:
  "distinct cs \<Longrightarrow> gm_get (fold (settle bsi) cs cp d) x =
     (if \<exists>c \<in> set cs. sent_ok bsi c \<and> has_key cp x c then 0 else gm_get (cp d) x)"
proof (induction cs arbitrary: cp)
  case (Cons c cs)
  then have IH: "gm_get (fold (settle bsi) (c # cs) cp d) x =
      (if \<exists>e \<in> set cs. sent_ok bsi e \<and> has_key (settle bsi c cp) x e then 0
       else gm_get (settle bsi c cp d) x)" by simp
  have ne: "e \<in> set cs \<Longrightarrow> e \<noteq> c" for e using Cons.prems by auto
  show ?case
  proof (cases "sent_ok bsi c \<and> has_key cp x c")
    case True
    then have "gm_get (settle bsi c cp d) x = 0" by (simp add: settle_get)
    with True IH show ?thesis by simp
  next
    case False
    then have "(\<exists>e \<in> set cs. sent_ok bsi e \<and> has_key (settle bsi c cp) x e) \<longleftrightarrow>
        (\<exists>e \<in> set (c # cs). sent_ok bsi e \<and> has_key cp x e)"
      using ne by (auto simp: settle_keys)
    moreover have "gm_get (settle bsi c cp d) x = gm_get (cp d) x"
      unfolding settle_get using False by (rule if_not_P)
    ultimately show ?thesis by (simp only: IH)
  qed
qed simp

section \<open>The turn as a whole\<close>

definition after_pre :: "hb_maps \<Rightarrow> hb_maps \<Rightarrow> hb_maps" where
  "after_pre cp g = fst (snd (groomCompLocalMapsPRE gm_empty cp g))"

lemma last_change_after_pre: "last_change (after_pre cp g) = pending cp g"
proof -
  obtain all cp' g' where pre: "groomCompLocalMapsPRE gm_empty cp g = (all, cp', g')"
    by (cases "groomCompLocalMapsPRE gm_empty cp g") auto
  then show ?thesis
    by (simp add: fun_eq_iff last_change_def pending_def after_pre_def groom_pre(2) [OF pre])
qed

lemma has_key_after_pre: "merged cp g x c \<noteq> 0 \<Longrightarrow> has_key (after_pre cp g) x c"
proof -
  obtain all cp' g' where pre: "groomCompLocalMapsPRE gm_empty cp g = (all, cp', g')"
    by (cases "groomCompLocalMapsPRE gm_empty cp g") auto
  then show "merged cp g x c \<noteq> 0 \<Longrightarrow> has_key (after_pre cp g) x c"
    by (simp add: has_key_def after_pre_def gm_get_nz_key groom_pre(2) [OF pre])
qed

lemma pending_nz: "pending cp g x = Some c \<Longrightarrow> merged cp g x c \<noteq> 0"
  by (cases c) (auto simp: pending_def winner_iff)

lemma has_key_local: "has_key cp x c \<Longrightarrow> has_key (after_pre cp g) x c"
proof -
  have keys: "set (gm_keys m) \<subseteq> set (gm_keys (fst (snd (pre_global g' (a, m)))))" for g' a m
  proof -
    have "set (gm_keys m) \<subseteq> set (gm_keys (fst (snd
        (fold (\<lambda>(k, v) (a, cp, g'). if v \<noteq> 0 then (gm_set k True a, gm_set k v cp, gm_set k 0 g')
              else (a, cp, g')) es (a, m, h)))))" for es :: "(string \<times> seqno) list" and a m h
    proof (induction es arbitrary: a m h)
      case (Cons e es)
      obtain k v where e: "e = (k, v)" by (cases e)
      show ?case
        using Cons.IH [of m a h] Cons.IH [of "gm_set k v m" "gm_set k True a" "gm_set k 0 h"]
        by (auto simp: e)
    qed simp
    then show ?thesis by (simp add: pre_global_def)
  qed
  have one: "has_key (fst (snd s)) x c \<Longrightarrow> has_key (fst (snd (groom_kind d s))) x c" for d s
    using keys [of "fst (snd s) d" "snd (snd s) d" "pre_local (fst (snd s) d) (fst s)"]
    by (auto simp: groom_kind_def has_key_def Let_def split: prod.splits)
  have "has_key (fst (snd s)) x c \<Longrightarrow> has_key (fst (snd (fold groom_kind cs s))) x c" for cs s
    by (induction cs arbitrary: s) (simp_all add: one)
  from this [of "(gm_empty, cp, g)"] show "has_key cp x c \<Longrightarrow> has_key (after_pre cp g) x c"
    by (simp add: after_pre_def groomCompLocalMapsPRE_def)
qed

text \<open>The bulk data of a turn in full: what was sent and whether it was taken.\<close>

definition accepted :: "http_outcome \<Rightarrow> bool" where
  "accepted a \<longleftrightarrow> a = Answer 200 \<or> a = Answer 204 \<or> a = Answer 202"

definition bulk_for :: "hb_change \<Rightarrow> string list \<Rightarrow> bulk" where
  "bulk_for c ids = (createBSI c)\<lparr>ComponentIDs := ids\<rparr>"

lemma fill_bsi_rest:
  "fill_bsi cp ks bsi c = (bsi c)\<lparr>ComponentIDs := ComponentIDs (fill_bsi cp ks bsi c)\<rparr>"
proof (induction ks arbitrary: bsi)
  case (Cons k ks)
  show ?case
  proof (cases "winner (\<lambda>d. gm_get (cp d) k)")
    case (Some d)
    let ?b = "bsi(d := (bsi d)\<lparr>ComponentIDs := ComponentIDs (bsi d) @ [k]\<rparr>)"
    have step: "fill_bsi cp (k # ks) bsi = fill_bsi cp ks ?b" using Some by (simp add: fill_bsi_def)
    have "(?b c)\<lparr>ComponentIDs := y\<rparr> = (bsi c)\<lparr>ComponentIDs := y\<rparr>" for y by simp
    with Cons.IH [of ?b] show ?thesis unfolding step by metis
  qed (use Cons.IH in \<open>simp add: fill_bsi_def\<close>)
qed (simp add: fill_bsi_def)

lemma bulk_json_flags [simp]:
  "bulk_json (b\<lparr>needSend := x\<rparr>) = bulk_json b" "bulk_json (b\<lparr>sentOK := x\<rparr>) = bulk_json b"
  by (simp_all add: bulk_json_def)

lemma bulk_same_flags:
  "needSend b = False \<Longrightarrow> sentOK b = False \<Longrightarrow> b\<lparr>needSend := False, sentOK := False\<rparr> = b"
  by (cases b) simp

lemma start_patch_result:
  assumes "start_patch hsm tm p b = Some b'" "needSend b = False" "sentOK b = False"
  shows "b' = b\<lparr>needSend := ComponentIDs b \<noteq> [], sentOK := ComponentIDs b \<noteq> [] \<and>
     int_param (nosm p) = 0 \<and> accepted (hsm (patch_url tm p) (render (bulk_json b)))\<rparr>"
proof (cases "ComponentIDs b = [] \<or> int_param (nosm p) \<noteq> 0")
  case True
  then show ?thesis
    using assms
    by (auto simp: start_patch_def send_sm_patch_def json_marshal_def bulk_same_flags
        split: if_splits)
next
  case False
  then show ?thesis
    using assms
    by (cases "hsm (patch_url tm p) (render (bulk_json b))")
      (auto simp: start_patch_def send_sm_patch_def json_marshal_def accepted_def split: if_splits)
qed

lemma bulk_for_simps [simp]:
  "ComponentIDs (bulk_for c ids) = ids" "needSend (bulk_for c ids) = False"
  "sentOK (bulk_for c ids) = False"
  by (simp_all add: bulk_for_def)

text \<open>What the first part takes: the latest change of every component, once.\<close>

lemma sm_take_result:
  assumes "sm_take cp g = (bsi, cp', g')"
  shows "set (ComponentIDs (bsi c)) = {x. pending cp g x = Some c}"
    and "distinct (ComponentIDs (bsi c))"
    and "bsi c = bulk_for c (ComponentIDs (bsi c))"
    and "cp' = after_pre cp g"
    and "gm_get (cp' d) x = merged cp g x d" and "gm_get (g' d) x = 0"
proof -
  obtain all where pre: "groomCompLocalMapsPRE gm_empty cp g = (all, cp', g')"
    and bsi: "bsi = fill_bsi cp' (gm_keys all) createBSI"
    using assms by (auto simp: sm_take_def split: prod.splits)
  show cp': "cp' = after_pre cp g" using pre by (simp add: after_pre_def)
  show "set (ComponentIDs (bsi c)) = {x. pending cp g x = Some c}"
    using groom_pre(1) [OF pre] last_change_after_pre [of cp g] pending_nz [of cp g _ c]
    by (auto simp: bsi fill_bsi_ids cp')
  show "distinct (ComponentIDs (bsi c))" by (simp add: bsi fill_bsi_ids)
  show "bsi c = bulk_for c (ComponentIDs (bsi c))"
    unfolding bsi bulk_for_def by (rule fill_bsi_rest)
  show "gm_get (cp' d) x = merged cp g x d" by (rule groom_pre(2) [OF pre])
  show "gm_get (g' d) x = 0" by (rule groom_pre(3) [OF pre])
qed

text \<open>What the second part does, for data that have not been sent yet.\<close>

lemma sm_answer_result:
  assumes "sm_answer hsm tm p ready bsi cp = Some (loc, bsi')"
    and flags: "\<And>c. needSend (bsi c) = False" "\<And>c. sentOK (bsi c) = False"
  shows "bsi' c = (bsi c)\<lparr>needSend := ready \<and> ComponentIDs (bsi c) \<noteq> [],
      sentOK := ready \<and> ComponentIDs (bsi c) \<noteq> [] \<and> int_param (nosm p) = 0 \<and>
        accepted (hsm (patch_url tm p) (render (bulk_json (bsi c))))\<rparr>"
    and "gm_get (loc d) x = (if \<exists>c. sent_ok bsi' c \<and> has_key cp x c then 0 else gm_get (cp d) x)"
proof -
  have "(\<forall>c. bsi' c = (bsi c)\<lparr>needSend := ready \<and> ComponentIDs (bsi c) \<noteq> [],
      sentOK := ready \<and> ComponentIDs (bsi c) \<noteq> [] \<and> int_param (nosm p) = 0 \<and>
        accepted (hsm (patch_url tm p) (render (bulk_json (bsi c))))\<rparr>) \<and>
    gm_get (loc d) x = (if \<exists>c. sent_ok bsi' c \<and> has_key cp x c then 0 else gm_get (cp d) x)"
  proof (cases ready)
    case False
    then have "loc = cp" "bsi' = bsi" using assms(1) by (simp_all add: sm_answer_def)
    then show ?thesis using False by (simp add: flags bulk_same_flags sent_ok_def)
  next
    case True
    have ne: "start_patch hsm tm p (bsi c) \<noteq> None" for c
      using assms(1) True by (auto simp: sm_answer_def Let_def list_ex_iff split: if_splits)
    have bsi': "bsi' = (\<lambda>c. the (start_patch hsm tm p (bsi c)))"
      using assms(1) True by (auto simp: sm_answer_def Let_def split: if_splits)
    then have "start_patch hsm tm p (bsi c) = Some (bsi' c)" for c using ne [of c] by auto
    note st = start_patch_result [OF this flags]
    have loc: "loc = fold (settle bsi') all_kinds cp \<or> loc = cp \<and> (\<forall>c. \<not> needSend (bsi' c))"
      using assms(1) True unfolding bsi'
      by (auto simp: sm_answer_def Let_def all_change split: if_splits)
    have "distinct all_kinds" by (simp add: all_kinds_def)
    from settle_fold [OF this, of bsi' cp d x]
    have "gm_get (loc d) x = (if \<exists>c. sent_ok bsi' c \<and> has_key cp x c then 0 else gm_get (cp d) x)"
      using loc by (auto simp: sent_ok_def)
    with st True show ?thesis by simp
  qed
  then show "bsi' c = (bsi c)\<lparr>needSend := ready \<and> ComponentIDs (bsi c) \<noteq> [],
      sentOK := ready \<and> ComponentIDs (bsi c) \<noteq> [] \<and> int_param (nosm p) = 0 \<and>
        accepted (hsm (patch_url tm p) (render (bulk_json (bsi c))))\<rparr>"
    "gm_get (loc d) x = (if \<exists>c. sent_ok bsi' c \<and> has_key cp x c then 0 else gm_get (cp d) x)"
    by blast+
qed

text \<open>Everything a turn that does not panic does.\<close>

lemma send_sm_round_parts:
  assumes "send_sm_round hsm tm p ready cp g = Some r"
  obtains bsi cp' where "sm_take cp g = (bsi, cp', rd_global r)"
    and "sm_answer hsm tm p ready bsi cp' = Some (rd_local r, rd_bsi r)"
  using assms by (auto simp: send_sm_round_def split: prod.splits)

lemma send_sm_round_bsi:
  assumes "send_sm_round hsm tm p ready cp g = Some r"
  shows "rd_bsi r c = (bulk_for c (ComponentIDs (rd_bsi r c)))
     \<lparr>needSend := ready \<and> ComponentIDs (rd_bsi r c) \<noteq> [],
      sentOK := ready \<and> ComponentIDs (rd_bsi r c) \<noteq> [] \<and> int_param (nosm p) = 0 \<and>
        accepted (hsm (patch_url tm p)
          (render (bulk_json (bulk_for c (ComponentIDs (rd_bsi r c))))))\<rparr>"
proof -
  obtain bsi cp' where tk: "sm_take cp g = (bsi, cp', rd_global r)"
    and an: "sm_answer hsm tm p ready bsi cp' = Some (rd_local r, rd_bsi r)"
    by (rule send_sm_round_parts [OF assms])
  have b: "bsi c = bulk_for c (ComponentIDs (bsi c))" for c by (rule sm_take_result(3) [OF tk])
  have "needSend (bsi c) = False" "sentOK (bsi c) = False" for c by (subst b, simp)+
  note r = sm_answer_result(1) [OF an this, of c]
  then have "ComponentIDs (rd_bsi r c) = ComponentIDs (bsi c)" by simp
  with r b [of c] show ?thesis by metis
qed

lemma send_sm_round_result:
  assumes "send_sm_round hsm tm p ready cp g = Some r"
  shows "set (ComponentIDs (rd_bsi r c)) = {x. pending cp g x = Some c}"
    and "distinct (ComponentIDs (rd_bsi r c))"
    and "sent_ok (rd_bsi r) c \<Longrightarrow> ready"
    and "needSend (rd_bsi r c) \<longleftrightarrow> ready \<and> ComponentIDs (rd_bsi r c) \<noteq> []"
    and "gm_get (rd_local r d) x =
      (if \<exists>c. sent_ok (rd_bsi r) c \<and> has_key (after_pre cp g) x c then 0 else merged cp g x d)"
    and "gm_get (rd_global r d) x = 0"
proof -
  obtain bsi cp' where tk: "sm_take cp g = (bsi, cp', rd_global r)"
    and an: "sm_answer hsm tm p ready bsi cp' = Some (rd_local r, rd_bsi r)"
    by (rule send_sm_round_parts [OF assms])
  note t = sm_take_result [OF tk]
  have flags: "needSend (bsi c) = False" "sentOK (bsi c) = False" for c by (subst t(3), simp)+
  note a = sm_answer_result [OF an flags]
  show "set (ComponentIDs (rd_bsi r c)) = {x. pending cp g x = Some c}"
    "distinct (ComponentIDs (rd_bsi r c))" "sent_ok (rd_bsi r) c \<Longrightarrow> ready"
    "needSend (rd_bsi r c) \<longleftrightarrow> ready \<and> ComponentIDs (rd_bsi r c) \<noteq> []"
    using t(1,2) by (simp_all add: a(1) sent_ok_def)
  show "gm_get (rd_local r d) x =
      (if \<exists>c. sent_ok (rd_bsi r) c \<and> has_key (after_pre cp g) x c then 0 else merged cp g x d)"
    unfolding a(2) t(4) [symmetric] t(5) ..
  show "gm_get (rd_global r d) x = 0" by (rule t(6))
qed

section \<open>Pending changes across notifications and turns\<close>

lemma pending_after_turn:
  assumes "send_sm_round hsm tm p ready cp g = Some r"
  shows "pending (rd_local r) (rd_global r) x =
    (if \<exists>c. sent_ok (rd_bsi r) c \<and> has_key (after_pre cp g) x c then None else pending cp g x)"
proof -
  let ?gone = "\<exists>c. sent_ok (rd_bsi r) c \<and> has_key (after_pre cp g) x c"
  have m: "merged (rd_local r) (rd_global r) x = (if ?gone then \<lambda>d. 0 else merged cp g x)"
    by (rule ext)
      (simp add: merged_def [of "rd_local r"] send_sm_round_result(5,6) [OF assms], blast)
  show ?thesis
  proof (cases ?gone)
    case True
    have "winner (\<lambda>d. 0) = None" by (simp add: winner_def)
    with True m show ?thesis by (simp only: pending_def if_True)
  next
    case False
    with m show ?thesis by (simp only: pending_def if_False)
  qed
qed

lemma sender_ok_after_turn:
  assumes "send_sm_round hsm tm p ready cp g = Some r" "sender_ok cp g s"
  shows "sender_ok (rd_local r) (rd_global r) s"
  unfolding sender_ok_def
proof
  fix x
  have "seq_ok (merged cp g x) s" using assms(2) by (simp add: sender_ok_def)
  then show "seq_ok (merged (rd_local r) (rd_global r) x) s"
    by (rule seq_ok_clear)
      (simp add: merged_def send_sm_round_result(5,6) [OF assms(1)])
qed

lemma merged_notify:
  assumes "change_of st = Some c" "nt_seq n + 1 \<noteq> 0"
  shows "merged cp (nt_maps (hb_update_notify hb st n)) x =
    (if x = Component hb then (merged cp (nt_maps n) x)(c := nt_seq n + 1)
     else merged cp (nt_maps n) x)"
  using assms by (auto simp: fun_eq_iff merged_def notify_maps)

lemma sender_ok_notify:
  assumes "sender_ok cp (nt_maps n) (nt_seq n)" "nt_seq n + 1 \<noteq> 0" "change_of st = Some c"
  shows "sender_ok cp (nt_maps (hb_update_notify hb st n)) (nt_seq n + 1)"
  using assms by (simp add: sender_ok_def merged_notify seq_ok_newest seq_ok_mono)

lemma pending_notify:
  assumes "sender_ok cp (nt_maps n) (nt_seq n)" "nt_seq n + 1 \<noteq> 0" "change_of st = Some c"
  shows "pending cp (nt_maps (hb_update_notify hb st n)) =
    (pending cp (nt_maps n))(Component hb \<mapsto> c)"
proof
  fix x
  show "pending cp (nt_maps (hb_update_notify hb st n)) x =
      ((pending cp (nt_maps n))(Component hb \<mapsto> c)) x"
    using assms winner_newest [of "merged cp (nt_maps n) x" "nt_seq n" c]
    by (auto simp: pending_def merged_notify sender_ok_def)
qed

lemma pending_init [simp]: "pending no_changes no_changes = (\<lambda>x. None)"
  by (simp add: fun_eq_iff pending_def merged_def no_changes_def winner_def)

lemma sender_ok_init [simp]: "sender_ok no_changes no_changes s"
  by (simp add: sender_ok_def seq_ok_def merged_def no_changes_def)

lemma answer_no_panic:
  assumes "\<And>b. hsm (patch_url tm p) b \<noteq> Bad_url"
  shows "sm_answer hsm tm p ready bsi cp \<noteq> None"
proof -
  have "start_patch hsm tm p b \<noteq> None" for b
    using assms by (auto simp: start_patch_def send_sm_patch_def json_marshal_def
        split: http_outcome.splits)
  then show ?thesis
    by (simp add: sm_answer_def Let_def list_ex_iff del: not_None_eq)
qed

lemma round_no_panic:
  assumes "\<And>b. hsm (patch_url tm p) b \<noteq> Bad_url"
  shows "\<exists>r. send_sm_round hsm tm p ready cp g = Some r"
proof -
  obtain bsi cp' g' where tk: "sm_take cp g = (bsi, cp', g')" by (metis prod.exhaust)
  obtain a where "sm_answer hsm tm p ready bsi cp' = Some a"
    using answer_no_panic [of hsm tm p ready bsi cp', OF assms] by blast
  with tk show ?thesis by (simp add: send_sm_round_def split_beta)
qed

lemma sent_ok_iff:
  assumes "send_sm_round hsm tm p ready cp g = Some r"
  shows "sent_ok (rd_bsi r) c \<longleftrightarrow> ready \<and> int_param (nosm p) = 0 \<and>
    ComponentIDs (rd_bsi r c) \<noteq> [] \<and>
    accepted (hsm (patch_url tm p) (render (bulk_json (bulk_for c (ComponentIDs (rd_bsi r c))))))"
  using arg_cong [OF send_sm_round_bsi [OF assms, of c], of sentOK]
    arg_cong [OF send_sm_round_bsi [OF assms, of c], of needSend]
  by (simp add: sent_ok_def) blast

lemma ids_nonempty:
  assumes "send_sm_round hsm tm p ready cp g = Some r"
  shows "ComponentIDs (rd_bsi r c) \<noteq> [] \<longleftrightarrow> (\<exists>x. pending cp g x = Some c)"
  using send_sm_round_result(1) [OF assms, of c] by (cases "ComponentIDs (rd_bsi r c)") auto

text \<open>The two parts of a turn, with notifications in between: the numbers stay in order.\<close>

lemma sm_take_merged: "sm_take cp g = (bsi, cp', g') \<Longrightarrow> merged cp' g' = merged cp g"
  by (intro ext) (simp add: merged_def [of cp' g'] sm_take_result(5,6))

lemma sm_take_flags:
  "sm_take cp g = (bsi, cp', g') \<Longrightarrow> needSend (bsi c) = False \<and> sentOK (bsi c) = False"
  by (subst (1 2) sm_take_result(3), assumption+) simp

lemma sm_answer_sender_ok:
  assumes "sm_answer hsm tm p ready bsi cp = Some (cp', bsi')" "sender_ok cp g s"
    and "\<And>c. needSend (bsi c) = False \<and> sentOK (bsi c) = False"
  shows "sender_ok cp' g s"
  unfolding sender_ok_def
proof
  fix x
  have "seq_ok (merged cp g x) s" using assms(2) by (simp add: sender_ok_def)
  moreover have "merged cp' g x c = merged cp g x c \<or> merged cp' g x c = 0" for c
    using sm_answer_result(2) [OF assms(1)] assms(3) by (simp add: merged_def)
  ultimately show "seq_ok (merged cp' g x) s" by (auto intro: seq_ok_clear)
qed

section \<open>A State Manager that answers all or nothing\<close>

definition hsm_up :: "bool \<Rightarrow> hsm" where
  "hsm_up up = (\<lambda>u b. if up then Answer 200 else No_answer)"

lemma accepted_up: "accepted (hsm_up up u b) \<longleftrightarrow> up"
  by (simp add: hsm_up_def accepted_def)

lemma hsm_up_url: "hsm_up up u b \<noteq> Bad_url"
  by (simp add: hsm_up_def)

lemma next_seq_nz:
  assumes "unat (s::seqno) < 2 ^ 64 - 1"
  shows "s + 1 \<noteq> 0 \<and> unat (s + 1) = unat s + 1"
proof -
  have "s + 1 \<noteq> 0"
  proof
    assume "s + 1 = 0"
    then have "s = - 1" by (simp add: eq_neg_iff_add_eq_0)
    with assms show False by (simp add: unsigned_minus_1_eq_mask mask_eq_exp_minus_1)
  qed
  then show ?thesis using unatSuc [of s] by (simp add: add.commute)
qed

lemma notify_unknown:
  "change_of st = None \<Longrightarrow> nt_maps (hb_update_notify hb st n) = nt_maps n"
  by (simp add: notify_defs Let_def split: prod.splits)

section \<open>Properties\<close>

text \<open>What is to be said of a change: state, flag and message; and the body that says it.\<close>

fun said :: "hb_change \<Rightarrow> string \<times> string \<times> string" where
  "said Started = (''Ready'', ''OK'', ''Heartbeat started'')"
| "said Restarted = (''Ready'', ''OK'', ''Heartbeat restarted'')"
| "said StopWarn = (''Ready'', ''Warning'', ''Heartbeat stopped -- might be dead'')"
| "said StopError = (''Standby'', ''Alert'', ''Heartbeat stopped -- declared dead'')"

definition change_json :: "hb_change \<Rightarrow> string list \<Rightarrow> json" where
  "change_json c ids =
     (let (state, flag, msg) = said c in JObj
        [(''ComponentIDs'', JArr (map JStr ids)), (''State'', JStr state), (''Flag'', JStr flag),
         (''ExtendedInfo'', JObj [(''ID'', JStr []), (''Message'', JStr msg), (''Flag'', JStr [])])])"

lemma bulk_for_said:
  "bulk_for c ids = \<lparr>ComponentIDs = ids, bk_State = fst (said c), bk_Flag = fst (snd (said c)),
     bk_Message = snd (snd (said c)), needSend = False, sentOK = False\<rparr>"
  by (cases c) (simp_all add: bulk_for_def StateReady_def StateStandby_def FlagOK_def FlagWarning_def FlagAlert_def)

lemma bulk_json_said: "ids \<noteq> [] \<Longrightarrow> bulk_json (bulk_for c ids) = change_json c ids"
  by (simp add: bulk_for_said bulk_json_def change_json_def split_beta)

lemma bulk_sent:
  "(bulk_for c ids)\<lparr>needSend := a, sentOK := b\<rparr> = \<lparr>ComponentIDs = ids, bk_State = fst (said c),
     bk_Flag = fst (snd (said c)), bk_Message = snd (snd (said c)), needSend = a, sentOK = b\<rparr>"
  by (simp add: bulk_for_said)

text \<open>
  C16: What one turn sends. In a turn that does not panic, the list of each kind of change holds
  exactly the components whose number under that kind is higher than under any other (the number in
  the global map, or in the sender's own map where the global one has none), each once, so no
  component is in two lists; the body says that kind's state, flag and message; a request is made
  exactly when HSM is ready and the list is not empty, and it counts as sent exactly when \<open>nosm\<close> is
  off and the answer is 200, 202 or 204.
\<close>

theorem turn_sends_latest:
  assumes "send_sm_round hsm tm p ready cp g = Some r"
  shows "\<exists>ids. distinct ids \<and> set ids = {x. \<forall>d. d \<noteq> c \<longrightarrow> merged cp g x d < merged cp g x c} \<and>
    rd_bsi r c = \<lparr>ComponentIDs = ids, bk_State = fst (said c), bk_Flag = fst (snd (said c)),
      bk_Message = snd (snd (said c)), needSend = (ready \<and> ids \<noteq> []),
      sentOK = (ready \<and> ids \<noteq> [] \<and> int_param (nosm p) = 0 \<and>
        hsm (patch_url tm p) (render (change_json c ids)) \<in> {Answer 200, Answer 202, Answer 204})\<rparr>"
proof -
  obtain ids where ids: "ids = ComponentIDs (rd_bsi r c)" by simp
  let ?told = "hsm (patch_url tm p) (render (change_json c ids)) \<in> {Answer 200, Answer 202, Answer 204}"
  have acc: "accepted (hsm (patch_url tm p) (render (bulk_json (bulk_for c ids)))) \<longleftrightarrow> ?told" if "ids \<noteq> []"
    unfolding bulk_json_said [OF that] accepted_def by blast
  have eq: "(ready \<and> ids \<noteq> [] \<and> int_param (nosm p) = 0 \<and>
      accepted (hsm (patch_url tm p) (render (bulk_json (bulk_for c ids))))) =
      (ready \<and> ids \<noteq> [] \<and> int_param (nosm p) = 0 \<and> ?told)" using acc by blast
  have "rd_bsi r c = (bulk_for c ids)\<lparr>needSend := (ready \<and> ids \<noteq> []),
      sentOK := (ready \<and> ids \<noteq> [] \<and> int_param (nosm p) = 0 \<and> ?told)\<rparr>"
    using send_sm_round_bsi [OF assms, of c, folded ids] unfolding eq .
  then have "rd_bsi r c = \<lparr>ComponentIDs = ids, bk_State = fst (said c), bk_Flag = fst (snd (said c)),
      bk_Message = snd (snd (said c)), needSend = (ready \<and> ids \<noteq> []),
      sentOK = (ready \<and> ids \<noteq> [] \<and> int_param (nosm p) = 0 \<and> ?told)\<rparr>"
    by (simp only: bulk_sent)
  moreover have "set ids = {x. \<forall>d. d \<noteq> c \<longrightarrow> merged cp g x d < merged cp g x c}"
    using send_sm_round_result(1) [OF assms, of c] by (simp add: ids pending_def winner_iff)
  ultimately show ?thesis using send_sm_round_result(2) [OF assms, of c] unfolding ids by blast
qed

theorem turn_sends_latest_witness:
  "\<exists>r. send_sm_round (hsm_up True) False initAppParams True no_changes
      (no_changes(Started := gm_set ''x0'' 1 gm_empty, StopError := gm_set ''x0'' 2 gm_empty)) = Some r \<and>
    set (ComponentIDs (rd_bsi r StopError)) = {''x0''} \<and> bk_State (rd_bsi r StopError) = ''Standby'' \<and>
    sentOK (rd_bsi r StopError)"
proof -
  let ?g = "no_changes(Started := gm_set ''x0'' 1 gm_empty, StopError := gm_set ''x0'' 2 gm_empty)"
  obtain r where r: "send_sm_round (hsm_up True) False initAppParams True no_changes ?g = Some r"
    using round_no_panic [of "hsm_up True" False initAppParams, OF hsm_up_url] by blast
  have "(\<forall>d. d \<noteq> StopError \<longrightarrow> merged no_changes ?g x d < merged no_changes ?g x StopError) \<longleftrightarrow> x = ''x0''" for x
    by (auto simp: merged_def no_changes_def)
  then have only: "{x. \<forall>d. d \<noteq> StopError \<longrightarrow> merged no_changes ?g x d < merged no_changes ?g x StopError} = {''x0''}"
    by blast
  obtain ids where c: "distinct ids \<and> set ids = {''x0''} \<and> rd_bsi r StopError = \<lparr>ComponentIDs = ids, bk_State = fst (said StopError),
      bk_Flag = fst (snd (said StopError)), bk_Message = snd (snd (said StopError)), needSend = (True \<and> ids \<noteq> []),
      sentOK = (True \<and> ids \<noteq> [] \<and> int_param (nosm initAppParams) = 0 \<and>
        hsm_up True (patch_url False initAppParams) (render (change_json StopError ids))
          \<in> {Answer 200, Answer 202, Answer 204})\<rparr>"
    using turn_sends_latest [OF r, of StopError, unfolded only] by (rule exE)
  note ids = c [THEN conjunct2, THEN conjunct1] and e = c [THEN conjunct2, THEN conjunct2]
  have "ids \<noteq> []" using ids by (metis empty_not_insert list.set(1))
  then have "sentOK (rd_bsi r StopError)" unfolding e by (simp add: hsm_up_def initAppParams_def int_app_def)
  moreover have "ComponentIDs (rd_bsi r StopError) = ids" "bk_State (rd_bsi r StopError) = ''Standby''"
    unfolding e by simp_all
  ultimately show ?thesis using r ids by blast
qed

text \<open>
  What one turn keeps. A change whose request was taken is no longer pending; when no
  request was taken (HSM not ready, \<open>nosm\<close>, all requests failed) everything stays as it was;
  and whatever is pending after a turn was pending before it, with the same kind, and its
  request was not taken: a turn never brings back an older change.
\<close>

theorem turn_keeps:
  assumes "send_sm_round hsm tm p ready cp g = Some r"
  shows "(\<forall>x c. pending cp g x = Some c \<and> sent_ok (rd_bsi r) c \<longrightarrow>
      pending (rd_local r) (rd_global r) x = None) \<and>
    ((\<forall>c. \<not> sent_ok (rd_bsi r) c) \<longrightarrow> pending (rd_local r) (rd_global r) = pending cp g) \<and>
    (\<forall>x c. pending (rd_local r) (rd_global r) x = Some c \<longrightarrow>
      pending cp g x = Some c \<and> \<not> sent_ok (rd_bsi r) c)"
  using pending_after_turn [OF assms] has_key_after_pre pending_nz
  by (auto simp: fun_eq_iff split: if_splits)

theorem turn_keeps_witness:
  "\<exists>r. send_sm_round (hsm_up False) False initAppParams True no_changes
      (no_changes(StopWarn := gm_set ''x0'' 1 gm_empty)) = Some r \<and>
    pending (rd_local r) (rd_global r) ''x0'' = Some StopWarn"
proof -
  let ?g = "no_changes(StopWarn := gm_set ''x0'' 1 gm_empty)"
  obtain r where r: "send_sm_round (hsm_up False) False initAppParams True no_changes ?g = Some r"
    using round_no_panic [of "hsm_up False" False initAppParams, OF hsm_up_url] by blast
  have "pending no_changes ?g ''x0'' = Some StopWarn"
    by (simp add: pending_def winner_def merged_def no_changes_def)
  moreover have "\<not> sent_ok (rd_bsi r) c" for c by (simp add: sent_ok_iff [OF r] accepted_up)
  moreover from this have "pending (rd_local r) (rd_global r) = pending no_changes ?g"
    using turn_keeps [OF r] by blast
  ultimately show ?thesis using r by metis
qed

text \<open>
  C33: A failed change can be lost, against the comment in \<open>send_sm_req\<close> that says any that
  failed are retained. When the request of one kind fails and the request of another kind is
  taken, every component with any entry, even a cleared one, in the other kind's map loses its
  pending change: \<open>groomCompLocalMapsPOST\<close> clears by the keys of that map, and the previous
  successful turns have left keys there.
\<close>

theorem failed_change_lost:
  assumes "send_sm_round hsm tm p ready cp g = Some r"
    and "pending cp g x = Some c" "\<not> sent_ok (rd_bsi r) c"
    and "sent_ok (rd_bsi r) d" "x \<in> set (gm_keys (cp d))"
  shows "pending (rd_local r) (rd_global r) x = None"
  using pending_after_turn [OF assms(1), of x] has_key_local [of cp x d g] assms(4,5)
  by (auto simp: has_key_def)

lemma singleton_list:
  assumes "distinct ids" "set ids = {y}"
  shows "ids = [y]"
proof -
  have "length ids = 1" using distinct_card [OF assms(1)] assms(2) by simp
  then obtain a where "ids = [a]" by (auto simp: length_Suc_conv)
  with assms(2) show ?thesis by simp
qed

lemma render_kinds_differ: "render (bulk_json (bulk_for StopWarn [''x0''])) \<noteq>
    render (bulk_json (bulk_for Restarted [''x1'']))"
proof
  let ?j1 = "bulk_json (bulk_for StopWarn [''x0''])" and ?j2 = "bulk_json (bulk_for Restarted [''x1''])"
  assume "render ?j1 = render ?j2"
  moreover have "numbers_ok ?j1" "depth ?j1 \<le> max_depth" "numbers_ok ?j2" "depth ?j2 \<le> max_depth"
    by (simp_all add: bulk_json_def bulk_for_def max_depth_def)
  ultimately have "clean ?j1 = clean ?j2" using parse_render by (metis option.inject)
  then show False
    by (simp add: bulk_json_def bulk_for_def ascii_def)
qed

theorem failed_change_lost_witness:
  "\<exists>hsm r cp g. send_sm_round hsm False initAppParams True cp g = Some r \<and>
     pending cp g ''x0'' = Some StopWarn \<and> \<not> sent_ok (rd_bsi r) StopWarn \<and>
     pending (rd_local r) (rd_global r) ''x0'' = None"
proof -
  let ?cp = "no_changes(Restarted := gm_set ''x0'' 0 gm_empty)"
  let ?g = "no_changes(StopWarn := gm_set ''x0'' 1 gm_empty, Restarted := gm_set ''x1'' 2 gm_empty)"
  define hsm where "hsm u b = (if b = render (bulk_json (bulk_for StopWarn [''x0'']))
      then No_answer else Answer 200)" for u b :: string
  have no_bad: "hsm u b \<noteq> Bad_url" for u b by (simp add: hsm_def)
  obtain r where r: "send_sm_round hsm False initAppParams True ?cp ?g = Some r"
    using round_no_panic [of hsm False initAppParams True ?cp ?g, OF no_bad] by blast
  have p0: "pending ?cp ?g ''x0'' = Some StopWarn"
    by (simp add: pending_def winner_def merged_def no_changes_def)
  have pend: "pending ?cp ?g x = (if x = ''x0'' then Some StopWarn
      else if x = ''x1'' then Some Restarted else None)" for x
    by (simp add: pending_def winner_def merged_def no_changes_def)
  have "set (ComponentIDs (rd_bsi r StopWarn)) = {''x0''}"
    unfolding send_sm_round_result(1) [OF r] by (auto simp: pend split: if_splits)
  then have warn: "ComponentIDs (rd_bsi r StopWarn) = [''x0'']"
    by (rule singleton_list [OF send_sm_round_result(2) [OF r]])
  have "set (ComponentIDs (rd_bsi r Restarted)) = {''x1''}"
    unfolding send_sm_round_result(1) [OF r] by (auto simp: pend split: if_splits)
  then have rest: "ComponentIDs (rd_bsi r Restarted) = [''x1'']"
    by (rule singleton_list [OF send_sm_round_result(2) [OF r]])
  have nw: "\<not> sent_ok (rd_bsi r) StopWarn"
    by (simp add: sent_ok_iff [OF r] warn hsm_def accepted_def)
  have ok: "sent_ok (rd_bsi r) Restarted"
    using render_kinds_differ
    by (simp add: sent_ok_iff [OF r] rest hsm_def accepted_def initAppParams_def int_app_def)
  have "pending (rd_local r) (rd_global r) ''x0'' = None"
    by (rule failed_change_lost [OF r p0 nw ok]) simp
  with r p0 nw show ?thesis by blast
qed

end
