(* ===== verification/Kv_Store.thy ===== *)
theory Kv_Store
  imports Prelude
begin

text \<open>
  The key/value store behind \<open>kvHandle\<close>. The Go interface \<open>hmetcd.Kvi\<close> is a record of
  operations over an abstract store state; the program's functions take it as an argument.
  The locale \<open>kvi_store\<close> states what the interface documents (an operation that reports no
  error has done its work; a failed write may or may not have happened), \<open>kvi_reliable\<close>
  adds that no operation fails. They are interpreted on the in-memory backend
  \<open>Kvs_mem\<close> and on a backend whose operations fail on a given schedule.
\<close>

section \<open>The interface\<close>

type_synonym kv_error = "string option"

record 's kvi =
  kv_get :: "string \<Rightarrow> 's \<Rightarrow> (string \<times> bool \<times> kv_error) \<times> 's"
  kv_get_range :: "string \<Rightarrow> string \<Rightarrow> 's \<Rightarrow> ((string \<times> string) list \<times> kv_error) \<times> 's"
  kv_store :: "string \<Rightarrow> string \<Rightarrow> 's \<Rightarrow> kv_error \<times> 's"
  kv_delete :: "string \<Rightarrow> 's \<Rightarrow> kv_error \<times> 's"
  kv_timed_lock :: "int \<Rightarrow> 's \<Rightarrow> kv_error \<times> 's"
  kv_unlock :: "'s \<Rightarrow> kv_error \<times> 's"
  kv_temp_key :: "string \<Rightarrow> 's \<Rightarrow> kv_error \<times> 's"

text \<open>The ranges of keys that all backends serve: the end is greater than the start.\<close>

definition range_ok :: "string \<Rightarrow> string \<Rightarrow> bool" where
  "range_ok a b \<longleftrightarrow> a \<noteq> [] \<and> a < b"

locale kvi_store =
  fixes K :: "'s kvi" and view :: "'s \<Rightarrow> string \<rightharpoonup> string"
  assumes get_view: "view (snd (kv_get K k s)) = view s"
    and get_ok: "kv_get K k s = ((v, ok, None), s') \<Longrightarrow>
      view s k = (if ok then Some v else None)"
    and get_err: "kv_get K k s = ((v, ok, Some e), s') \<Longrightarrow> \<not> ok"
    and range_view: "view (snd (kv_get_range K a b s)) = view s"
    and range_distinct: "kv_get_range K a b s = ((kvs, None), s') \<Longrightarrow> distinct (map fst kvs)"
    and range_sound: "kv_get_range K a b s = ((kvs, None), s') \<Longrightarrow> range_ok a b \<Longrightarrow> (k, v) \<in> set kvs \<Longrightarrow>
      view s k = Some v \<and> a \<le> k \<and> k \<le> b"
    and range_complete: "kv_get_range K a b s = ((kvs, None), s') \<Longrightarrow> range_ok a b \<Longrightarrow>
      view s k = Some v \<Longrightarrow> a \<le> k \<Longrightarrow> k < b \<Longrightarrow> (k, v) \<in> set kvs"
    and store_ok: "kv_store K k v s = (None, s') \<Longrightarrow> view s' = (view s)(k \<mapsto> v)"
    and store_err: "kv_store K k v s = (Some e, s') \<Longrightarrow>
      view s' = view s \<or> view s' = (view s)(k \<mapsto> v)"
    and delete_ok: "kv_delete K k s = (None, s') \<Longrightarrow> view s' = (view s)(k := None)"
    and delete_err: "kv_delete K k s = (Some e, s') \<Longrightarrow>
      view s' = view s \<or> view s' = (view s)(k := None)"
    and lock_view: "view (snd (kv_timed_lock K n s)) = view s"
    and unlock_view: "view (snd (kv_unlock K s)) = view s"
begin

lemma store_view:
  "kv_store K k v s = (e, s') \<Longrightarrow> view s' = view s \<or> view s' = (view s)(k \<mapsto> v)"
  using store_ok store_err by (cases e) auto

lemma delete_view:
  "kv_delete K k s = (e, s') \<Longrightarrow> view s' = view s \<or> view s' = (view s)(k := None)"
  using delete_ok delete_err by (cases e) auto

lemma store_frame: "k' \<noteq> k \<Longrightarrow> view (snd (kv_store K k v s)) k' = view s k'"
  using store_view [of k v s] by (cases "kv_store K k v s") fastforce

lemma delete_frame: "k' \<noteq> k \<Longrightarrow> view (snd (kv_delete K k s)) k' = view s k'"
  using delete_view [of k s] by (cases "kv_delete K k s") fastforce

lemmas reads_view [simp] = get_view range_view lock_view unlock_view

end

text \<open>A store whose reads and writes do not fail (taking the lock still may).\<close>

locale kvi_reliable = kvi_store +
  assumes get_never: "snd (snd (fst (kv_get K k s))) = None"
    and range_never: "snd (fst (kv_get_range K a b s)) = None"
    and store_never: "fst (kv_store K k v s) = None"
    and delete_never: "fst (kv_delete K k s) = None"
begin

lemma view_store: "view (snd (kv_store K k v s)) = (view s)(k \<mapsto> v)"
  using store_never [of k v s] by (cases "kv_store K k v s") (auto dest: store_ok)

lemma view_delete: "view (snd (kv_delete K k s)) = (view s)(k := None)"
  using delete_never [of k s] by (cases "kv_delete K k s") (auto dest: delete_ok)

lemma get_result:
  "fst (kv_get K k s) = (v, ok, e) \<Longrightarrow> e = None \<and> view s k = (if ok then Some v else None)"
  using get_never [of k s] by (cases "kv_get K k s") (auto dest: get_ok)

end

section \<open>The in-memory backend\<close>

type_synonym mem = "string gomap"

definition mem_view :: "mem \<Rightarrow> string \<rightharpoonup> string" where
  "mem_view m = DAList.lookup m"

definition mem_get :: "string \<Rightarrow> mem \<Rightarrow> (string \<times> bool \<times> kv_error) \<times> mem" where
  "mem_get k m =
     ((case DAList.lookup m k of None \<Rightarrow> ([], False, None) | Some v \<Rightarrow> (v, True, None)), m)"

definition mem_get_range ::
  "string \<Rightarrow> string \<Rightarrow> mem \<Rightarrow> ((string \<times> string) list \<times> kv_error) \<times> mem" where
  "mem_get_range a b m = ((filter (\<lambda>(k, v). a \<le> k \<and> k \<le> b) (gm_entries m), None), m)"

definition mem_store :: "string \<Rightarrow> string \<Rightarrow> mem \<Rightarrow> kv_error \<times> mem" where
  "mem_store k v m = (None, gm_set k v m)"

definition mem_delete :: "string \<Rightarrow> mem \<Rightarrow> kv_error \<times> mem" where
  "mem_delete k m = (None, DAList.delete k m)"

definition mem_temp_key :: "string \<Rightarrow> mem \<Rightarrow> kv_error \<times> mem" where
  "mem_temp_key k m = (None, gm_set k ''1'' m)"

definition mem_kvi :: "mem kvi" where
  "mem_kvi =
     \<lparr>kv_get = mem_get, kv_get_range = mem_get_range, kv_store = mem_store,
      kv_delete = mem_delete, kv_timed_lock = (\<lambda>n m. (None, m)), kv_unlock = (\<lambda>m. (None, m)),
      kv_temp_key = mem_temp_key\<rparr>"

text \<open>\<open>Open\<close> with a \<open>mem:\<close> URL stores the program's base name under itself.\<close>

definition mem_open :: "string \<Rightarrow> mem \<Rightarrow> mem" where
  "mem_open app_base m = gm_set app_base app_base m"

lemmas mem_defs = mem_kvi_def mem_view_def mem_get_def mem_get_range_def mem_store_def
  mem_delete_def mem_temp_key_def

lemma mem_entries_iff: "(k, v) \<in> set (gm_entries m) \<longleftrightarrow> DAList.lookup m k = Some v"
  by (simp add: gm_entries_def DAList.lookup.rep_eq)

lemma mem_lookup_set [simp]: "DAList.lookup (gm_set k v m) = (DAList.lookup m)(k \<mapsto> v)"
  by (auto simp: gm_set_def lookup_update)

interpretation mem: kvi_reliable mem_kvi mem_view
proof
  fix a b s kvs s'
  assume "kv_get_range mem_kvi a b s = ((kvs, None), s')"
  then have "kvs = filter (\<lambda>(k, v). a \<le> k \<and> k \<le> b) (gm_entries s)" by (auto simp: mem_defs)
  then show "distinct (map fst kvs)"
    by (simp add: distinct_map_fst_filter gm_entries_def)
qed (auto simp: mem_defs mem_entries_iff split: option.splits if_splits)

section \<open>A backend with failures\<close>

text \<open>
  The same store with a schedule of failures, one flag per operation: an operation whose
  flag is set reports an error and changes nothing, as a request that \<open>Kvs_etcd\<close> could not
  send. When the schedule is used up, operations succeed.
\<close>

record faulty =
  fk_mem :: mem
  fk_faults :: "bool list"

definition fails :: "faulty \<Rightarrow> bool" where
  "fails s \<longleftrightarrow> (case fk_faults s of [] \<Rightarrow> False | b # _ \<Rightarrow> b)"

definition next_op :: "mem \<Rightarrow> faulty \<Rightarrow> faulty" where
  "next_op m s = s\<lparr>fk_mem := m, fk_faults := tl (fk_faults s)\<rparr>"

definition faulty_write :: "(mem \<Rightarrow> kv_error \<times> mem) \<Rightarrow> faulty \<Rightarrow> kv_error \<times> faulty" where
  "faulty_write f s =
     (if fails s then (Some ''timeout'', next_op (fk_mem s) s)
      else (fst (f (fk_mem s)), next_op (snd (f (fk_mem s))) s))"

definition faulty_get :: "string \<Rightarrow> faulty \<Rightarrow> (string \<times> bool \<times> kv_error) \<times> faulty" where
  "faulty_get k s =
     ((if fails s then ([], False, Some ''timeout'') else fst (mem_get k (fk_mem s))),
      next_op (fk_mem s) s)"

definition faulty_get_range ::
  "string \<Rightarrow> string \<Rightarrow> faulty \<Rightarrow> ((string \<times> string) list \<times> kv_error) \<times> faulty" where
  "faulty_get_range a b s =
     ((if fails s then ([], Some ''timeout'') else fst (mem_get_range a b (fk_mem s))),
      next_op (fk_mem s) s)"

definition faulty_kvi :: "faulty kvi" where
  "faulty_kvi =
     \<lparr>kv_get = faulty_get, kv_get_range = faulty_get_range,
      kv_store = (\<lambda>k v. faulty_write (mem_store k v)), kv_delete = (\<lambda>k. faulty_write (mem_delete k)),
      kv_timed_lock = (\<lambda>n. faulty_write (\<lambda>m. (None, m))), kv_unlock = faulty_write (\<lambda>m. (None, m)),
      kv_temp_key = (\<lambda>k. faulty_write (mem_temp_key k))\<rparr>"

definition faulty_view :: "faulty \<Rightarrow> string \<rightharpoonup> string" where
  "faulty_view s = mem_view (fk_mem s)"

lemmas faulty_defs = faulty_kvi_def faulty_view_def faulty_get_def faulty_get_range_def
  faulty_write_def next_op_def

interpretation faulty: kvi_store faulty_kvi faulty_view
proof
  fix a b s kvs s'
  assume "kv_get_range faulty_kvi a b s = ((kvs, None), s')"
  then have "kvs = filter (\<lambda>(k, v). a \<le> k \<and> k \<le> b) (gm_entries (fk_mem s))"
    by (auto simp: faulty_defs mem_defs split: if_splits)
  then show "distinct (map fst kvs)"
    by (simp add: distinct_map_fst_filter gm_entries_def)
qed (auto simp: faulty_defs mem_defs mem_entries_iff split: option.splits if_splits)

end
