(* ===== verification/Http.thy ===== *)
theory Http
  imports Json_Roundtrip
begin

text \<open>
  The HTTP side of a handler: the request it reads, the \<open>http.ResponseWriter\<close> it writes
  (headers are frozen by the first \<open>WriteHeader\<close>; a handler that writes nothing answers
  200) and the RFC 7807 problem reports of \<open>hms-base\<close> (\<open>NewProblemDetails\<close>,
  \<open>SendProblemDetails\<close>). The functions \<open>problem_rsp\<close> and \<open>method_rsp\<close> are the two shapes in
  which the handlers report an error.
\<close>

section \<open>Requests and responses\<close>

record request =
  rq_method :: string
  rq_body :: string
  rq_read_error :: bool   \<comment> \<open>\<open>ReadAll\<close> failed after returning \<open>rq_body\<close>\<close>
  rq_xname :: string      \<comment> \<open>\<open>mux.Vars(r)["xname"]\<close>, empty when absent\<close>
  rq_path :: string

record response =
  rw_header :: "(string \<times> string) list"
  rw_status :: "nat option"
  rw_sent :: "(string \<times> string) list"  \<comment> \<open>the headers as they were at \<open>WriteHeader\<close>\<close>
  rw_body :: string

definition new_response :: response where
  "new_response = \<lparr>rw_header = [], rw_status = None, rw_sent = [], rw_body = []\<rparr>"

definition header_add :: "string \<Rightarrow> string \<Rightarrow> response \<Rightarrow> response" where
  "header_add k v w = w\<lparr>rw_header := rw_header w @ [(k, v)]\<rparr>"

definition header_set :: "string \<Rightarrow> string \<Rightarrow> response \<Rightarrow> response" where
  "header_set k v w = w\<lparr>rw_header := filter (\<lambda>p. fst p \<noteq> k) (rw_header w) @ [(k, v)]\<rparr>"

definition write_header :: "nat \<Rightarrow> response \<Rightarrow> response" where
  "write_header code w =
     (if rw_status w = None then w\<lparr>rw_status := Some code, rw_sent := rw_header w\<rparr> else w)"

definition write_body :: "string \<Rightarrow> response \<Rightarrow> response" where
  "write_body bs w = (let w' = write_header 200 w in w'\<lparr>rw_body := rw_body w' @ bs\<rparr>)"

text \<open>What the server does when the handler returns.\<close>

definition finish :: "response \<Rightarrow> response" where
  "finish w = write_header 200 w"

abbreviation status_of :: "response \<Rightarrow> nat" where
  "status_of w \<equiv> the (rw_status (finish w))"

section \<open>Problem reports\<close>

record problem =
  pd_type :: string
  pd_title :: string
  pd_detail :: string
  pd_instance :: string
  pd_status :: nat

definition new_problem_details :: "string \<Rightarrow> string \<Rightarrow> string \<Rightarrow> string \<Rightarrow> nat \<Rightarrow> problem" where
  "new_problem_details ty title detail inst status =
     \<lparr>pd_type = ty, pd_title = title, pd_detail = detail, pd_instance = inst, pd_status = status\<rparr>"

text \<open>All fields but the type carry \<open>omitempty\<close>.\<close>

definition problem_json :: "problem \<Rightarrow> json" where
  "problem_json p = JObj
     ([(''type'', JStr (pd_type p))]
      @ (if pd_title p = [] then [] else [(''title'', JStr (pd_title p))])
      @ (if pd_detail p = [] then [] else [(''detail'', JStr (pd_detail p))])
      @ (if pd_instance p = [] then [] else [(''instance'', JStr (pd_instance p))])
      @ (if pd_status p = 0 then [] else [(''status'', JNum (itoa (int (pd_status p))))]))"

definition send_problem_details :: "problem \<Rightarrow> nat \<Rightarrow> response \<Rightarrow> response" where
  "send_problem_details p status w =
     (let w1 = header_set ''Content-Type'' ''application/problem+json'' w;
          st = (if status = 0 then pd_status p else status);
          st' = (if st = 0 then 400 else st)
      in write_body (render (problem_json p) @ [byte 10]) (write_header st' w1))"

text \<open>The handlers' error exits.\<close>

definition problem_rsp :: "string \<Rightarrow> string \<Rightarrow> string \<Rightarrow> nat \<Rightarrow> response \<Rightarrow> response" where
  "problem_rsp title detail inst status w =
     send_problem_details (new_problem_details ''about:blank'' title detail inst status) 0 w"

definition method_rsp :: "string \<Rightarrow> string \<Rightarrow> string \<Rightarrow> response \<Rightarrow> response" where
  "method_rsp allow detail inst w =
     problem_rsp ''Invalid Request'' detail inst 405 (header_add ''Allow'' allow w)"

lemma write_header_status [simp]:
  "rw_status (write_header c w) = (case rw_status w of None \<Rightarrow> Some c | Some s \<Rightarrow> Some s)"
  by (auto simp: write_header_def split: option.splits)

lemma header_status [simp]:
  "rw_status (header_add k v w) = rw_status w" "rw_status (header_set k v w) = rw_status w"
  by (simp_all add: header_add_def header_set_def)

lemma write_body_status [simp]:
  "rw_status (write_body b w) = (case rw_status w of None \<Rightarrow> Some 200 | Some s \<Rightarrow> Some s)"
  by (simp add: write_body_def Let_def)

lemma new_response_simps [simp]:
  "rw_status new_response = None" "rw_header new_response = []" "rw_body new_response = []"
  by (simp_all add: new_response_def)

lemma problem_rsp_status [simp]:
  "rw_status w = None \<Longrightarrow> c \<noteq> 0 \<Longrightarrow> rw_status (problem_rsp t d i c w) = Some c"
  by (simp add: problem_rsp_def send_problem_details_def new_problem_details_def Let_def)

lemma method_rsp_status [simp]:
  "rw_status w = None \<Longrightarrow> rw_status (method_rsp a d i w) = Some 405"
  by (simp add: method_rsp_def)

lemma method_rsp_allow:
  "rw_status w = None \<Longrightarrow> (''Allow'', a) \<in> set (rw_sent (method_rsp a d i w))"
  by (auto simp: method_rsp_def problem_rsp_def send_problem_details_def Let_def write_body_def
      write_header_def header_set_def header_add_def)

end
