(* ===== verification/Process.thy ===== *)
theory Process
  imports Hsm_Sender Kv_Store Http
begin

text \<open>
  The variables of the process that the HTTP handlers and the heartbeat checker share, the
  clock they read, and the constants that name keys and URLs (\<open>hbtd.go\<close>, \<open>api.go\<close>). The store
  \<open>K\<close>, the clock \<open>clk\<close> (one value per reading) and the xname functions of \<open>hms-xname\<close> are
  arguments of the operations.
\<close>

section \<open>Constants\<close>

definition HBTD_HEALTH_KEY :: string where "HBTD_HEALTH_KEY = ''HBTD_HEALTH_KEY''"
definition HBTD_HEALTH_OK :: string where "HBTD_HEALTH_OK = ''HBTD_OK''"
definition HB_KEYRANGE_START :: string where "HB_KEYRANGE_START = ''x0''"
definition HB_KEYRANGE_END :: string where "HB_KEYRANGE_END = ''xz''"

definition URL_BASE :: string where "URL_BASE = ''/hmi''"
definition URL_VERSION :: string where "URL_VERSION = ''/v1''"
definition URL_ROOT :: string where "URL_ROOT = URL_BASE @ URL_VERSION"
definition URL_HEARTBEAT :: string where "URL_HEARTBEAT = URL_ROOT @ ''/heartbeat''"
definition URL_PARAMS :: string where "URL_PARAMS = URL_ROOT @ ''/params''"
definition URL_HB_STATES :: string where "URL_HB_STATES = URL_ROOT @ ''/hbstates''"
definition URL_HB_STATE :: string where "URL_HB_STATE = URL_ROOT @ ''/hbstate''"
definition URL_LIVENESS :: string where "URL_LIVENESS = URL_ROOT @ ''/liveness''"
definition URL_READINESS :: string where "URL_READINESS = URL_ROOT @ ''/readiness''"
definition URL_HEALTH :: string where "URL_HEALTH = URL_ROOT @ ''/health''"

section \<open>State\<close>

text \<open>
  \<open>timers\<close> are the pending calls of \<open>hb_checker\<close> with their delays in seconds; \<open>hsm_q\<close> is
  \<open>hsmUpdateQ\<close>; \<open>sm_local\<close> are the maps local to \<open>send_sm_req\<close>.
\<close>

record 's hbtd =
  app_params :: op_params
  server_url_port :: string
  notif :: notify
  sm_local :: hb_maps
  hsm_q :: "int list"
  hsm_ready :: bool
  staleKeys :: bool
  sg_ncomp :: int
  timers :: "int list"
  kvs :: 's
  tick :: nat

type_synonym clock = "nat \<Rightarrow> int"

definition read_clock :: "clock \<Rightarrow> 's hbtd \<Rightarrow> int \<times> 's hbtd" where
  "read_clock clk s = (clk (tick s), s\<lparr>tick := tick s + 1\<rparr>)"

abbreviation notify_state :: "hbinfo \<Rightarrow> int \<Rightarrow> 's hbtd \<Rightarrow> 's hbtd" where
  "notify_state hb st s \<equiv> s\<lparr>notif := hb_update_notify hb st (notif s)\<rparr>"

text \<open>\<open>var hsmUpdateQ = make(chan int, 100000)\<close>.\<close>

definition hsmUpdateQ_cap :: nat where "hsmUpdateQ_cap = 100000"

definition clock_range :: "clock \<Rightarrow> bool" where
  "clock_range clk \<longleftrightarrow> (\<forall>n. clock_ok (clk n))"

lemma read_clock_fst [simp]: "fst (read_clock clk s) = clk (tick s)"
  by (simp add: read_clock_def)

lemma read_clock_snd [simp]:
  "app_params (snd (read_clock clk s)) = app_params s" "notif (snd (read_clock clk s)) = notif s"
  "kvs (snd (read_clock clk s)) = kvs s" "staleKeys (snd (read_clock clk s)) = staleKeys s"
  "tick (snd (read_clock clk s)) = tick s + 1" "hsm_q (snd (read_clock clk s)) = hsm_q s"
  by (simp_all add: read_clock_def)

section \<open>The range of component keys\<close>

definition in_range :: "string \<Rightarrow> bool" where
  "in_range k \<longleftrightarrow> HB_KEYRANGE_START \<le> k \<and> k < HB_KEYRANGE_END"

lemma hb_range_ok: "range_ok HB_KEYRANGE_START HB_KEYRANGE_END"
  by (simp add: range_ok_def HB_KEYRANGE_START_def HB_KEYRANGE_END_def)

lemma params_key_not_in_range: "\<not> HB_KEYRANGE_START \<le> KV_PARAM_KEY"
  by (simp add: HB_KEYRANGE_START_def KV_PARAM_KEY_def)

end
