(* ===== verification/Heartbeat.thy ===== *)
theory Heartbeat
  imports Process
begin

text \<open>
  Receiving heartbeats (\<open>track.go\<close>): \<open>updateHB\<close> and the two handlers \<open>hbRcv\<close> (component in the
  body) and \<open>hbRcvXName\<close> (component in the URL). A handler takes the response and the process
  state to new ones. \<open>valid_xname\<close> stands for \<open>xnametypes.GetHMSType(..) != HMSTypeInvalid\<close>
  and \<open>norm_xname\<close> for \<open>xnametypes.NormalizeHMSCompID\<close>.
\<close>

section \<open>Updating a component's record\<close>

text \<open>The record that is written for a heartbeat, from the one read or created.\<close>

definition beat :: "int \<Rightarrow> string \<Rightarrow> string \<Rightarrow> hbinfo \<Rightarrow> hbinfo" where
  "beat now timestamp status hbb =
     (let h = hbb\<lparr>Last_hb_rcv_time := format_time now, Last_hb_timestamp := timestamp,
                  Last_hb_status := status\<rparr>
      in if Had_warning h = HB_WARN_GAP then h\<lparr>Had_warning := HB_WARN_NORMAL\<rparr> else h)"

text \<open>
  \<open>updateHB\<close> in the parts between which other threads can run: the read of the record, or a new
  record when there is none, with the flag \<open>newkey\<close>; the write, which leaves the record to announce;
  and the notification. \<open>Inl\<close> is the early return with its answer.
\<close>

definition updateHB_read ::
  "'s kvi \<Rightarrow> string \<Rightarrow> string \<Rightarrow> response \<Rightarrow> 's hbtd \<Rightarrow> (response + bool \<times> hbinfo) \<times> 's hbtd" where
  "updateHB_read K errinst xname w s =
     (let ((kval, kok, kerr), kv1) = kv_get K xname (kvs s);
          s1 = s\<lparr>kvs := kv1\<rparr>;
          newkey = (\<not> kok \<or> kerr \<noteq> None);
          (hbb, umok) = (if newkey then (no_hbinfo\<lparr>Component := xname\<rparr>, True)
                         else hbinfo_unmarshal kval no_hbinfo)
      in if \<not> umok then
           (Inl (problem_rsp ''Internal Server Error'' ''Error unmarshalling JSON string'' errinst 500 w), s1)
         else (Inr (newkey, hbb), s1))"

definition updateHB_write ::
  "'s kvi \<Rightarrow> clock \<Rightarrow> string \<Rightarrow> string \<Rightarrow> string \<Rightarrow> string \<Rightarrow> bool \<times> hbinfo \<Rightarrow> response \<Rightarrow> 's hbtd
    \<Rightarrow> (response \<times> hbinfo option) \<times> 's hbtd" where
  "updateHB_write K clk errinst xname timestamp status rd w s =
     (let (newkey, hbb) = rd;
          (now, s2) = read_clock clk s;
          hb = beat now timestamp status hbb
      in case hbinfo_marshal hb of
           None \<Rightarrow> ((problem_rsp ''Internal Server Error'' ''Error marshalling JSON data''
                     errinst 500 w, None), s2)
         | Some jstr \<Rightarrow>
             let (merr, kv2) = kv_store K xname jstr (kvs s2);
                 s3 = s2\<lparr>kvs := kv2\<rparr>
             in if merr \<noteq> None then
                  ((problem_rsp ''Internal Server Error''
                     ''Key/Value service store operation failed'' errinst 500 w, None), s3)
                else ((w, if newkey then Some hb else None), s3))"

definition updateHB_notify :: "hbinfo option \<Rightarrow> 's hbtd \<Rightarrow> 's hbtd" where
  "updateHB_notify new s = (case new of None \<Rightarrow> s | Some hb \<Rightarrow> notify_state hb HB_started s)"

definition updateHB ::
  "'s kvi \<Rightarrow> clock \<Rightarrow> string \<Rightarrow> string \<Rightarrow> string \<Rightarrow> string \<Rightarrow> response \<Rightarrow> 's hbtd
    \<Rightarrow> response \<times> 's hbtd" where
  "updateHB K clk errinst xname timestamp status w s =
     (case updateHB_read K errinst xname w s of
        (Inl w', s1) \<Rightarrow> (w', s1)
      | (Inr rd, s1) \<Rightarrow>
          let ((w', new), s2) = updateHB_write K clk errinst xname timestamp status rd w s1
          in (w', updateHB_notify new s2))"

lemmas updateHB_defs = updateHB_def updateHB_read_def updateHB_write_def updateHB_notify_def

section \<open>The handlers\<close>

record hbjson_full_v1 =
  hj_Component :: string
  hj_Hostname :: string
  hj_NID :: string
  hj_Status :: string
  hj_Timestamp :: string

record hbjson_v1 =
  hx_Status :: string
  hx_Timestamp :: string

definition full_names :: "string list" where
  "full_names = [''Component'', ''Hostname'', ''NID'', ''Status'', ''Timestamp'']"

definition short_names :: "string list" where
  "short_names = [''Status'', ''Timestamp'']"

definition empty_fields :: "string list \<Rightarrow> fields" where
  "empty_fields ns = map (\<lambda>n. (n, [])) ns"

definition hbjson_full_of :: "fields \<Rightarrow> hbjson_full_v1" where
  "hbjson_full_of fs =
     \<lparr>hj_Component = field ''Component'' fs, hj_Hostname = field ''Hostname'' fs,
      hj_NID = field ''NID'' fs, hj_Status = field ''Status'' fs,
      hj_Timestamp = field ''Timestamp'' fs\<rparr>"

definition hbjson_of :: "fields \<Rightarrow> hbjson_v1" where
  "hbjson_of fs = \<lparr>hx_Status = field ''Status'' fs, hx_Timestamp = field ''Timestamp'' fs\<rparr>"

text \<open>The error text after a failed \<open>Unmarshal\<close>: the first field, in struct order, of a wrong type.\<close>

definition bad_json_text :: "string list \<Rightarrow> string \<Rightarrow> string" where
  "bad_json_text names body =
     (case unmarshal_map body of
        None \<Rightarrow> ''Invalid JSON data type''
      | Some v \<Rightarrow> (case bad_field names v of
                     None \<Rightarrow> ''Invalid JSON data type''
                   | Some nm \<Rightarrow> ''Invalid data type in '' @ nm @ '' field''))"

definition missing_full :: "hbjson_full_v1 \<Rightarrow> string" where
  "missing_full j =
     (if hj_Component j = [] then ''Missing Component field''
      else if hj_Hostname j = [] then ''Missing Hostname field''
      else if hj_NID j = [] then ''Missing NID field''
      else if hj_Status j = [] then ''Missing Status field''
      else if hj_Timestamp j = [] then ''Missing Timestamp field''
      else [])"

definition missing_short :: "hbjson_v1 \<Rightarrow> string" where
  "missing_short j =
     (if hx_Status j = [] then ''Missing Status field''
      else if hx_Timestamp j = [] then ''Missing Timestamp field''
      else [])"

text \<open>The error of \<open>ioutil.ReadAll\<close> is overwritten; what was read is decoded.\<close>

definition hbRcv ::
  "'s kvi \<Rightarrow> clock \<Rightarrow> (string \<Rightarrow> bool) \<Rightarrow> request \<Rightarrow> response \<Rightarrow> 's hbtd \<Rightarrow> response \<times> 's hbtd" where
  "hbRcv K clk valid_xname r w s =
     (if rq_method r \<noteq> ''POST'' then
        (method_rsp ''POST'' ''Only POST operations supported'' URL_HEARTBEAT w, s)
      else
        let (fs, ok) = unmarshal_strings (empty_fields full_names) (rq_body r);
            jdata = hbjson_full_of fs
        in if \<not> ok then
             (problem_rsp ''Invalid Request'' (bad_json_text full_names (rq_body r))
                URL_HEARTBEAT 400 w, s)
           else if missing_full jdata \<noteq> [] then
             (problem_rsp ''Invalid Request'' (missing_full jdata) URL_HEARTBEAT 400 w, s)
           else if \<not> valid_xname (hj_Component jdata) then
             (problem_rsp ''Invalid Request'' ''Invalid Component Name'' URL_HEARTBEAT 400 w, s)
           else if snd (parse_int (hj_NID jdata) 0 64) \<noteq> None then
             (problem_rsp ''Invalid Request'' ''Invalid NID'' URL_HEARTBEAT 400 w, s)
           else updateHB K clk URL_HEARTBEAT (hj_Component jdata) (hj_Timestamp jdata)
                  (hj_Status jdata) w s)"

definition hbRcvXName ::
  "'s kvi \<Rightarrow> clock \<Rightarrow> (string \<Rightarrow> string) \<Rightarrow> request \<Rightarrow> response \<Rightarrow> 's hbtd \<Rightarrow> response \<times> 's hbtd" where
  "hbRcvXName K clk norm_xname r w s =
     (let xn = norm_xname (last (split_on CHR ''/'' (rq_path r)));
          xname = (if rq_xname r = [] then xn else rq_xname r)
      in if rq_xname r = [] \<and> xn = [] then
           (problem_rsp ''Invalid Request'' ''Only POST operations supported'' URL_HEARTBEAT 405 w, s)
         else if rq_method r \<noteq> ''POST'' then
           (method_rsp ''POST'' ''Only POST operations supported'' URL_HEARTBEAT w, s)
         else
           let (fs, ok) = unmarshal_strings (empty_fields short_names) (rq_body r);
               jdata = hbjson_of fs
           in if \<not> ok then
                (problem_rsp ''Invalid Request'' (bad_json_text short_names (rq_body r))
                   URL_HEARTBEAT 400 w, s)
              else if missing_short jdata \<noteq> [] then
                (problem_rsp ''Invalid Request'' (missing_short jdata) URL_HEARTBEAT 400 w, s)
              else updateHB K clk URL_HEARTBEAT xname (hx_Timestamp jdata) (hx_Status jdata) w s)"

section \<open>Which requests are heartbeats\<close>

text \<open>
  The component, timestamp and status of a well-formed request; \<open>None\<close> for one that must be
  refused. This is the contract of the two handlers, without their order of checks.
\<close>

definition hb_parse :: "(string \<Rightarrow> bool) \<Rightarrow> request \<Rightarrow> (string \<times> string \<times> string) option" where
  "hb_parse valid_xname r =
     (let (fs, ok) = unmarshal_strings (empty_fields full_names) (rq_body r);
          j = hbjson_full_of fs
      in if rq_method r = ''POST'' \<and> ok \<and> hj_Component j \<noteq> [] \<and> hj_Hostname j \<noteq> [] \<and>
            hj_NID j \<noteq> [] \<and> hj_Status j \<noteq> [] \<and> hj_Timestamp j \<noteq> [] \<and>
            valid_xname (hj_Component j) \<and> snd (parse_int (hj_NID j) 0 64) = None
         then Some (hj_Component j, hj_Timestamp j, hj_Status j) else None)"

definition hb_parse_xname :: "(string \<Rightarrow> string) \<Rightarrow> request \<Rightarrow> (string \<times> string \<times> string) option" where
  "hb_parse_xname norm_xname r =
     (let xname = (if rq_xname r = [] then norm_xname (last (split_on CHR ''/'' (rq_path r)))
                   else rq_xname r);
          (fs, ok) = unmarshal_strings (empty_fields short_names) (rq_body r);
          j = hbjson_of fs
      in if rq_method r = ''POST'' \<and> ok \<and> xname \<noteq> [] \<and> hx_Status j \<noteq> [] \<and> hx_Timestamp j \<noteq> []
         then Some (xname, hx_Timestamp j, hx_Status j) else None)"

lemma missing_full_iff:
  "missing_full j = [] \<longleftrightarrow> hj_Component j \<noteq> [] \<and> hj_Hostname j \<noteq> [] \<and> hj_NID j \<noteq> [] \<and>
     hj_Status j \<noteq> [] \<and> hj_Timestamp j \<noteq> []"
  by (simp add: missing_full_def)

lemma missing_short_iff:
  "missing_short j = [] \<longleftrightarrow> hx_Status j \<noteq> [] \<and> hx_Timestamp j \<noteq> []"
  by (simp add: missing_short_def)

lemma hbRcv_parsed:
  "hb_parse valid_xname r = Some (c, ts, st) \<Longrightarrow>
   hbRcv K clk valid_xname r w s = updateHB K clk URL_HEARTBEAT c ts st w s"
  by (auto simp: hb_parse_def hbRcv_def Let_def missing_full_iff split: prod.splits if_splits)

lemma hbRcvXName_parsed:
  "hb_parse_xname norm_xname r = Some (c, ts, st) \<Longrightarrow>
   hbRcvXName K clk norm_xname r w s = updateHB K clk URL_HEARTBEAT c ts st w s"
  by (auto simp: hb_parse_xname_def hbRcvXName_def Let_def missing_short_iff
      split: prod.splits if_splits)

lemma hbRcv_refused:
  assumes "hb_parse valid_xname r = None" "rw_status w = None"
  shows "snd (hbRcv K clk valid_xname r w s) = s \<and>
    rw_status (fst (hbRcv K clk valid_xname r w s)) = Some (if rq_method r = ''POST'' then 400 else 405)"
  using assms
  by (auto simp: hb_parse_def hbRcv_def Let_def missing_full_iff split: prod.splits if_splits)

lemma hbRcvXName_refused:
  assumes "hb_parse_xname norm_xname r = None" "rw_status w = None"
  shows "snd (hbRcvXName K clk norm_xname r w s) = s \<and>
    rw_status (fst (hbRcvXName K clk norm_xname r w s)) \<in> {Some 400, Some 405}"
  using assms
  by (auto simp: hb_parse_xname_def hbRcvXName_def Let_def missing_short_iff
      split: prod.splits if_splits)

section \<open>What a heartbeat does to the store\<close>

lemma beat_simps [simp]:
  "Component (beat now ts st h) = Component h"
  "Last_hb_rcv_time (beat now ts st h) = format_time now"
  "Last_hb_timestamp (beat now ts st h) = ts" "Last_hb_status (beat now ts st h) = st"
  "Had_warning (beat now ts st h) =
     (if Had_warning h = HB_WARN_GAP then HB_WARN_NORMAL else Had_warning h)"
  by (simp_all add: beat_def Let_def)

text \<open>On any store: only the component's key can change, and only a success announces it.\<close>

lemma updateHB_eq:
  assumes "kv_get K x (kvs s) = ((kval, kok, kerr), kv1)"
    and "(if \<not> kok \<or> kerr \<noteq> None then (no_hbinfo\<lparr>Component := x\<rparr>, True)
          else hbinfo_unmarshal kval no_hbinfo) = (hbb, umok)"
    and "hbinfo_marshal (beat (clk (tick s)) ts st hbb) = Some jstr"
    and "kv_store K x jstr kv1 = (merr, kv2)"
  shows "updateHB K clk errinst x ts st w s =
      (if \<not> umok then (problem_rsp ''Internal Server Error'' ''Error unmarshalling JSON string''
           errinst 500 w, s\<lparr>kvs := kv1\<rparr>)
       else let s3 = s\<lparr>kvs := kv2, tick := tick s + 1\<rparr> in
         if merr \<noteq> None then (problem_rsp ''Internal Server Error''
             ''Key/Value service store operation failed'' errinst 500 w, s3)
         else (w, if \<not> kok \<or> kerr \<noteq> None
                  then notify_state (beat (clk (tick s)) ts st hbb) HB_started s3 else s3))"
  using assms by (simp add: updateHB_defs read_clock_def Let_def)

context kvi_store
begin

lemma updateHB_store:
  assumes "updateHB K clk errinst x ts st w s = (w', s')" "rw_status w = None"
  shows "(\<forall>k. k \<noteq> x \<longrightarrow> view (kvs s') k = view (kvs s) k) \<and>
    (rw_status w' = None \<and> (\<exists>h v. beat (clk (tick s)) ts st h = h \<and> complete v (sane h) \<and>
         view (kvs s') x = Some v) \<or>
     rw_status w' = Some 500 \<and> notif s' = notif s)"
proof -
  obtain kval kok kerr kv1 where get: "kv_get K x (kvs s) = ((kval, kok, kerr), kv1)"
    by (metis prod.exhaust)
  have v1: "view kv1 = view (kvs s)" using get_view [of x "kvs s"] get by simp
  obtain hbb umok where um: "(if \<not> kok \<or> kerr \<noteq> None then (no_hbinfo\<lparr>Component := x\<rparr>, True)
      else hbinfo_unmarshal kval no_hbinfo) = (hbb, umok)" by (metis prod.exhaust)
  define hb where "hb = beat (clk (tick s)) ts st hbb"
  obtain jstr where js: "hbinfo_marshal hb = Some jstr" "complete jstr (sane hb)"
    using hbinfo_marshal_complete by blast
  obtain merr kv2 where st: "kv_store K x jstr kv1 = (merr, kv2)" by (metis prod.exhaust)
  note res = updateHB_eq [where clk = clk and s = s, OF get um js(1) [unfolded hb_def] st,
      of errinst w]
  have idem: "beat (clk (tick s)) ts st hb = hb" unfolding hb_def by (simp add: beat_def Let_def)
  have fr: "k \<noteq> x \<Longrightarrow> view kv2 k = view kv1 k" for k
    using store_frame [of k x jstr kv1] st by simp
  show ?thesis
  proof (cases "umok \<and> merr = None")
    case True
    then have w': "w' = w" and kv: "kvs s' = kv2"
      using res assms(1) by (auto simp: Let_def)
    have "view kv2 = (view kv1)(x \<mapsto> jstr)" using True st by (intro store_ok) simp
    then show ?thesis using w' kv v1 assms(2) js(2) idem by auto
  next
    case False
    then show ?thesis using res assms fr v1 by (auto simp: Let_def split: if_splits)
  qed
qed

end

text \<open>What is written, whether or not the write is reported to have worked.\<close>

context kvi_store
begin

lemma updateHB_written:
  assumes "updateHB K clk errinst x ts st w s = (w', s')"
  shows "view (kvs s') = view (kvs s) \<or>
    (\<exists>hbb v. view (kvs s') = (view (kvs s))(x \<mapsto> v) \<and>
       complete v (sane (beat (clk (tick s)) ts st hbb)) \<and>
       (hbb = no_hbinfo\<lparr>Component := x\<rparr> \<or>
        (\<exists>v0. view (kvs s) x = Some v0 \<and> hbinfo_unmarshal v0 no_hbinfo = (hbb, True))))"
proof -
  obtain kval kok kerr kv1 where get: "kv_get K x (kvs s) = ((kval, kok, kerr), kv1)"
    by (metis prod.exhaust)
  have v1: "view kv1 = view (kvs s)" using get_view [of x "kvs s"] get by simp
  obtain hbb umok where um: "(if \<not> kok \<or> kerr \<noteq> None then (no_hbinfo\<lparr>Component := x\<rparr>, True)
      else hbinfo_unmarshal kval no_hbinfo) = (hbb, umok)" by (metis prod.exhaust)
  obtain jstr where js: "hbinfo_marshal (beat (clk (tick s)) ts st hbb) = Some jstr"
      "complete jstr (sane (beat (clk (tick s)) ts st hbb))"
    using hbinfo_marshal_complete by blast
  obtain merr kv2 where st: "kv_store K x jstr kv1 = (merr, kv2)" by (metis prod.exhaust)
  note res = updateHB_eq [where clk = clk and s = s, OF get um js(1) st, of errinst w]
  have src: "hbb = no_hbinfo\<lparr>Component := x\<rparr> \<or>
      (\<exists>v0. view (kvs s) x = Some v0 \<and> hbinfo_unmarshal v0 no_hbinfo = (hbb, True))" if "umok"
  proof (cases "\<not> kok \<or> kerr \<noteq> None")
    case False
    then have "view (kvs s) x = Some kval" using get_ok [of x "kvs s" kval kok kv1] get by simp
    then show ?thesis using um that False by auto
  qed (use um in simp)
  have "view kv2 = view (kvs s) \<or> view kv2 = (view (kvs s))(x \<mapsto> jstr)"
    using store_view [OF st] v1 by simp
  moreover have "kvs s' = (if umok then kv2 else kv1)"
    using res assms by (auto simp: Let_def split: if_splits)
  ultimately show ?thesis using v1 js(2) src by (cases umok) auto
qed

end

text \<open>On a store that does not fail: a first heartbeat creates the record and announces it.\<close>

context kvi_reliable
begin

lemma updateHB_first:
  assumes "view (kvs s) x = None"
    and h_def: "h = beat (clk (tick s)) ts st (no_hbinfo\<lparr>Component := x\<rparr>)"
  shows "\<exists>s' v. updateHB K clk errinst x ts st w s = (w, s') \<and> complete v (sane h) \<and>
    view (kvs s') = (view (kvs s))(x \<mapsto> v) \<and>
    s' = s\<lparr>kvs := kvs s', tick := tick s + 1, notif := hb_update_notify h HB_started (notif s)\<rparr>"
proof -
  obtain kval kok kerr kv1 where get: "kv_get K x (kvs s) = ((kval, kok, kerr), kv1)"
    by (metis prod.exhaust)
  have v1: "view kv1 = view (kvs s)" using get_view [of x "kvs s"] get by simp
  have ok: "\<not> kok" using get_result [of x "kvs s" kval kok kerr] get assms(1) by (auto split: if_splits)
  obtain jstr where js: "hbinfo_marshal h = Some jstr" "complete jstr (sane h)"
    using hbinfo_marshal_complete by blast
  obtain merr kv2 where st: "kv_store K x jstr kv1 = (merr, kv2)" by (metis prod.exhaust)
  have "merr = None" "view kv2 = (view kv1)(x \<mapsto> jstr)"
    using store_never [of x jstr kv1] view_store [of x jstr kv1] st by simp_all
  moreover have "updateHB K clk errinst x ts st w s =
      (w, notify_state h HB_started (s\<lparr>kvs := kv2, tick := tick s + 1\<rparr>))"
    using updateHB_eq [OF get, of "no_hbinfo\<lparr>Component := x\<rparr>" True clk ts st jstr merr kv2 errinst w]
      ok js(1) st \<open>merr = None\<close> by (simp add: h_def)
  ultimately show ?thesis using js(2) v1 by (intro exI [of _ jstr] exI) auto
qed

lemma updateHB_again:
  assumes "view (kvs s) x = Some v0" "hbinfo_unmarshal v0 no_hbinfo = (h0, True)"
    and h_def: "h = beat (clk (tick s)) ts st h0"
  shows "\<exists>s' v. updateHB K clk errinst x ts st w s = (w, s') \<and> complete v (sane h) \<and>
    view (kvs s') = (view (kvs s))(x \<mapsto> v) \<and> s' = s\<lparr>kvs := kvs s', tick := tick s + 1\<rparr>"
proof -
  obtain kval kok kerr kv1 where get: "kv_get K x (kvs s) = ((kval, kok, kerr), kv1)"
    by (metis prod.exhaust)
  have v1: "view kv1 = view (kvs s)" using get_view [of x "kvs s"] get by simp
  have ok: "kok" "kerr = None" "kval = v0"
    using get_result [of x "kvs s" kval kok kerr] get assms(1) by (auto split: if_splits)
  obtain jstr where js: "hbinfo_marshal h = Some jstr" "complete jstr (sane h)"
    using hbinfo_marshal_complete by blast
  obtain merr kv2 where st: "kv_store K x jstr kv1 = (merr, kv2)" by (metis prod.exhaust)
  have "merr = None" "view kv2 = (view kv1)(x \<mapsto> jstr)"
    using store_never [of x jstr kv1] view_store [of x jstr kv1] st by simp_all
  moreover have "updateHB K clk errinst x ts st w s = (w, s\<lparr>kvs := kv2, tick := tick s + 1\<rparr>)"
    using updateHB_eq [OF get, of h0 True clk ts st jstr merr kv2 errinst w]
      ok js(1) st \<open>merr = None\<close> assms(2) by (simp add: h_def)
  ultimately show ?thesis using js(2) v1 by (intro exI [of _ jstr] exI) auto
qed

end

text \<open>The record a heartbeat starts from: the stored one, or a fresh one.\<close>

definition prior :: "(string \<rightharpoonup> string) \<Rightarrow> string \<Rightarrow> hbinfo \<Rightarrow> bool" where
  "prior m c h0 \<longleftrightarrow>
     (case m c of None \<Rightarrow> h0 = no_hbinfo\<lparr>Component := c\<rparr>
      | Some v \<Rightarrow> hbinfo_unmarshal v no_hbinfo = (h0, True))"

text \<open>What an accepted heartbeat leaves behind.\<close>

definition recorded ::
  "('s \<Rightarrow> string \<rightharpoonup> string) \<Rightarrow> string \<Rightarrow> hbinfo \<Rightarrow> 's hbtd \<Rightarrow> 's hbtd \<Rightarrow> bool" where
  "recorded view c h s s' \<longleftrightarrow>
     (\<exists>v. complete v (sane h) \<and> view (kvs s') = (view (kvs s))(c \<mapsto> v)) \<and>
     s' = s\<lparr>kvs := kvs s', tick := tick s + 1,
            notif := (if view (kvs s) c = None then hb_update_notify h HB_started (notif s)
                      else notif s)\<rparr>"

lemma recordedD:
  assumes "recorded view c h s s'"
  shows "\<exists>v. complete v (sane h) \<and> view (kvs s') = (view (kvs s))(c \<mapsto> v)"
    and "notif s' = (if view (kvs s) c = None then hb_update_notify h HB_started (notif s)
      else notif s)"
    and "tick s' = tick s + 1" "app_params s' = app_params s" "staleKeys s' = staleKeys s"
    "sm_local s' = sm_local s" "hsm_q s' = hsm_q s" "timers s' = timers s"
proof -
  have eq: "s' = s\<lparr>kvs := kvs s', tick := tick s + 1,
      notif := (if view (kvs s) c = None then hb_update_notify h HB_started (notif s) else notif s)\<rparr>"
    using assms unfolding recorded_def by blast
  show "\<exists>v. complete v (sane h) \<and> view (kvs s') = (view (kvs s))(c \<mapsto> v)"
    using assms unfolding recorded_def by blast
  show "notif s' = (if view (kvs s) c = None then hb_update_notify h HB_started (notif s)
      else notif s)" using arg_cong [OF eq, of notif] by simp
  show "tick s' = tick s + 1" using arg_cong [OF eq, of tick] by simp
  show "app_params s' = app_params s" using arg_cong [OF eq, of app_params] by simp
  show "staleKeys s' = staleKeys s" using arg_cong [OF eq, of staleKeys] by simp
  show "sm_local s' = sm_local s" using arg_cong [OF eq, of sm_local] by simp
  show "hsm_q s' = hsm_q s" using arg_cong [OF eq, of hsm_q] by simp
  show "timers s' = timers s" using arg_cong [OF eq, of timers] by simp
qed

context kvi_reliable
begin

lemma updateHB_prior:
  assumes "prior (view (kvs s)) x h0"
  shows "\<exists>s'. updateHB K clk errinst x ts st w s = (w, s') \<and>
    recorded view x (beat (clk (tick s)) ts st h0) s s'"
proof (cases "view (kvs s) x")
  case None
  with assms have "h0 = no_hbinfo\<lparr>Component := x\<rparr>" by (simp add: prior_def)
  from updateHB_first [OF None, of _ clk ts st errinst w] this None show ?thesis
    by (auto simp: recorded_def)
next
  case (Some v0)
  with assms have "hbinfo_unmarshal v0 no_hbinfo = (h0, True)" by (simp add: prior_def)
  from updateHB_again [OF Some this, of _ clk ts st errinst w] Some show ?thesis
    by (auto simp: recorded_def)
qed

end

section \<open>Properties\<close>

text \<open>
  C9: An accepted heartbeat is recorded. On a store that does not fail, a well-formed POST
  whose component has no record, or a readable one, is answered 200 and writes exactly that
  component's record, with the receive time, timestamp and status of this heartbeat; a
  monitoring-gap warning becomes a normal one, any other warning is kept for the checker; and
  \<open>HB_started\<close> is notified exactly when there was no record. Nothing else changes.
\<close>

theorem heartbeat_recorded:
  assumes "kvi_reliable K view" "hb_parse valid_xname r = Some (c, ts, st)"
    and "prior (view (kvs s)) c h0"
  shows "\<exists>s'. hbRcv K clk valid_xname r new_response s = (new_response, s') \<and>
    status_of new_response = 200 \<and> recorded view c (beat (clk (tick s)) ts st h0) s s'"
  using kvi_reliable.updateHB_prior [OF assms(1,3), of clk URL_HEARTBEAT ts st new_response]
    hbRcv_parsed [OF assms(2), of K clk new_response s]
  by (simp add: finish_def)

text \<open>A concrete request and state.\<close>

definition sample_request :: request where
  "sample_request =
     \<lparr>rq_method = ''POST'', rq_body = render (fields_json
        [(''Component'', ''x0''), (''Hostname'', ''n''), (''NID'', ''1''), (''Status'', ''OK''),
         (''Timestamp'', ''now'')]),
      rq_read_error = False, rq_xname = [], rq_path = URL_HEARTBEAT\<rparr>"

definition sample_state :: "'s \<Rightarrow> 's hbtd" where
  "sample_state kv =
     \<lparr>app_params = initAppParams, server_url_port = URL_PORT, notif = init_notify,
      sm_local = no_changes, hsm_q = [], hsm_ready = True, staleKeys = False, sg_ncomp = 0,
      timers = [], kvs = kv, tick = 0\<rparr>"

lemma sample_parse:
  "hb_parse (\<lambda>x. True) sample_request = Some (''x0'', ''now'', ''OK'')"
proof -
  let ?gs = "[(''Component'', ''x0''), (''Hostname'', ''n''), (''NID'', ''1''), (''Status'', ''OK''),
         (''Timestamp'', ''now'')]"
  have "unmarshal_strings (empty_fields full_names) (render (fields_json ?gs)) =
      (map (\<lambda>(k, v). (k, sanitize v)) ?gs, True)"
    by (rule unmarshal_all) (simp_all add: empty_fields_def full_names_def ascii_def)
  moreover have "snd (parse_int ''1'' 0 64) = None"
    by (simp add: parse_int_def parse_uint_def base_prefix_def Let_def digit_val_def)
  ultimately show ?thesis
    by (simp add: hb_parse_def sample_request_def hbjson_full_of_def field_def ascii_def)
qed

theorem heartbeat_recorded_witness:
  "\<exists>s'. hbRcv mem_kvi (\<lambda>n. 100) (\<lambda>x. True) sample_request new_response (sample_state gm_empty) =
      (new_response, s') \<and> mem_view (kvs s') ''x0'' \<noteq> None \<and>
    notif s' = hb_update_notify (beat 100 ''now'' ''OK'' (no_hbinfo\<lparr>Component := ''x0''\<rparr>))
      HB_started init_notify"
proof -
  have none: "mem_view gm_empty ''x0'' = None" by (simp add: mem_view_def gm_empty_def)
  then have "prior (mem_view (kvs (sample_state gm_empty))) ''x0'' (no_hbinfo\<lparr>Component := ''x0''\<rparr>)"
    by (simp add: prior_def sample_state_def)
  from heartbeat_recorded [OF mem.kvi_reliable_axioms sample_parse this, of "\<lambda>n. 100"] obtain s'
    where s': "hbRcv mem_kvi (\<lambda>n. 100) (\<lambda>x. True) sample_request new_response
        (sample_state gm_empty) = (new_response, s')"
      and rec: "recorded mem_view ''x0'' (beat 100 ''now'' ''OK'' (no_hbinfo\<lparr>Component := ''x0''\<rparr>))
        (sample_state gm_empty) s'" by blast
  have "mem_view (kvs s') ''x0'' \<noteq> None" using recordedD(1) [OF rec] by auto
  moreover have "notif s' = hb_update_notify (beat 100 ''now'' ''OK'' (no_hbinfo\<lparr>Component := ''x0''\<rparr>))
      HB_started init_notify"
    using recordedD(2) [OF rec] none by (simp add: sample_state_def)
  ultimately show ?thesis using s' by blast
qed

text \<open>
  A heartbeat sent to the component's own URL is recorded in the same way, for any
  component name the URL gives: this handler checks neither that it is an xname nor its case.
\<close>

theorem heartbeat_xname_recorded:
  assumes "kvi_reliable K view" "hb_parse_xname norm_xname r = Some (c, ts, st)"
    and "prior (view (kvs s)) c h0"
  shows "\<exists>s'. hbRcvXName K clk norm_xname r new_response s = (new_response, s') \<and>
    recorded view c (beat (clk (tick s)) ts st h0) s s'"
  using kvi_reliable.updateHB_prior [OF assms(1,3), of clk URL_HEARTBEAT ts st new_response]
    hbRcvXName_parsed [OF assms(2), of K clk new_response s]
  by simp

definition sample_xname_request :: "string \<Rightarrow> request" where
  "sample_xname_request x =
     \<lparr>rq_method = ''POST'', rq_body = render (fields_json
        [(''Status'', ''OK''), (''Timestamp'', ''now'')]),
      rq_read_error = False, rq_xname = x, rq_path = URL_HEARTBEAT @ ''/'' @ x\<rparr>"

lemma sample_xname_parse:
  "x \<noteq> [] \<Longrightarrow> hb_parse_xname f (sample_xname_request x) = Some (x, ''now'', ''OK'')"
proof -
  let ?gs = "[(''Status'', ''OK''), (''Timestamp'', ''now'')]"
  have "unmarshal_strings (empty_fields short_names) (render (fields_json ?gs)) =
      (map (\<lambda>(k, v). (k, sanitize v)) ?gs, True)"
    by (rule unmarshal_all) (simp_all add: empty_fields_def short_names_def ascii_def)
  then show "x \<noteq> [] \<Longrightarrow> ?thesis"
    by (simp add: hb_parse_xname_def sample_xname_request_def hbjson_of_def field_def ascii_def)
qed

theorem heartbeat_xname_recorded_witness:
  "\<exists>s'. hbRcvXName mem_kvi (\<lambda>n. 100) (\<lambda>x. x) (sample_xname_request ''X0'') new_response
      (sample_state gm_empty) = (new_response, s') \<and> mem_view (kvs s') ''X0'' \<noteq> None"
proof -
  have "prior (mem_view (kvs (sample_state gm_empty))) ''X0'' (no_hbinfo\<lparr>Component := ''X0''\<rparr>)"
    by (simp add: prior_def sample_state_def mem_view_def gm_empty_def)
  moreover have "hb_parse_xname (\<lambda>x. x) (sample_xname_request ''X0'') = Some (''X0'', ''now'', ''OK'')"
    by (simp add: sample_xname_parse)
  ultimately obtain s' where s': "hbRcvXName mem_kvi (\<lambda>n. 100) (\<lambda>x. x)
        (sample_xname_request ''X0'') new_response (sample_state gm_empty) = (new_response, s')"
      and rec: "recorded mem_view ''X0'' (beat 100 ''now'' ''OK'' (no_hbinfo\<lparr>Component := ''X0''\<rparr>))
        (sample_state gm_empty) s'"
    using heartbeat_xname_recorded [OF mem.kvi_reliable_axioms, of "\<lambda>x. x"] by blast
  from recordedD(1) [OF rec] s' show ?thesis by auto
qed

text \<open>
  A refused heartbeat has no effect. A request that is not a POST (405), or whose body
  does not decode, misses a field, or names an invalid component or NID (400), changes
  neither the store nor the notifications nor anything else.
\<close>

theorem heartbeat_refused:
  assumes "hb_parse valid_xname r = None"
  shows "snd (hbRcv K clk valid_xname r new_response s) = s \<and>
    rw_status (fst (hbRcv K clk valid_xname r new_response s)) =
      Some (if rq_method r = ''POST'' then 400 else 405)"
  by (rule hbRcv_refused [OF assms]) simp

theorem heartbeat_refused_witness:
  "snd (hbRcv mem_kvi (\<lambda>n. 100) (\<lambda>x. True) (sample_request\<lparr>rq_method := ''GET''\<rparr>) new_response
     (sample_state gm_empty)) = sample_state gm_empty"
proof -
  have "hb_parse (\<lambda>x. True) (sample_request\<lparr>rq_method := ''GET''\<rparr>) = None"
    by (simp add: hb_parse_def split_beta)
  from heartbeat_refused [OF this] show ?thesis by blast
qed

text \<open>
  C30: On a store whose operations may fail, an accepted heartbeat touches no key but its
  component's, and when it is not answered 200 it is answered 500 and nothing is notified; if
  it is answered 200, the record has been written.
\<close>

theorem heartbeat_store_errors:
  assumes "kvi_store K view" "hb_parse valid_xname r = Some (c, ts, st)"
    and "hbRcv K clk valid_xname r new_response s = (w', s')"
  shows "(\<forall>k. k \<noteq> c \<longrightarrow> view (kvs s') k = view (kvs s) k) \<and>
    (rw_status w' = None \<and> (\<exists>h v. beat (clk (tick s)) ts st h = h \<and> complete v (sane h) \<and>
         view (kvs s') c = Some v) \<or>
     rw_status w' = Some 500 \<and> notif s' = notif s)"
  using kvi_store.updateHB_store [OF assms(1), of clk URL_HEARTBEAT c ts st new_response s w' s']
    assms(3) hbRcv_parsed [OF assms(2), of K clk new_response s]
  by simp

theorem heartbeat_store_errors_witness:
  "\<exists>w' s'. hbRcv faulty_kvi (\<lambda>n. 100) (\<lambda>x. True) sample_request new_response
      (sample_state \<lparr>fk_mem = gm_empty, fk_faults = [False, True]\<rparr>) = (w', s') \<and>
    (rw_status w' = None \<or> notif s' = init_notify)"
proof -
  let ?s = "sample_state \<lparr>fk_mem = gm_empty, fk_faults = [False, True]\<rparr>"
  obtain w' s' where r: "hbRcv faulty_kvi (\<lambda>n. 100) (\<lambda>x. True) sample_request new_response ?s = (w', s')"
    by (metis prod.exhaust)
  have "notif ?s = init_notify" by (simp add: sample_state_def)
  with heartbeat_store_errors [OF faulty.kvi_store_axioms sample_parse r] r show ?thesis by auto
qed

text \<open>
  A failed read is taken for a missing key: when the store cannot be read for one moment,
  the heartbeat replaces whatever record the component had, warning flag included, by a fresh
  one, and \<open>HB_started\<close> is notified for a component that had been heartbeating all along.
\<close>

theorem read_error_restarts_component:
  assumes "hb_parse valid_xname r = Some (c, ts, st)" "fk_faults (kvs s) = [True]"
  shows "\<exists>s' v. hbRcv faulty_kvi clk valid_xname r new_response s = (new_response, s') \<and>
    notif s' = hb_update_notify (beat (clk (tick s)) ts st (no_hbinfo\<lparr>Component := c\<rparr>))
      HB_started (notif s) \<and>
    faulty_view (kvs s') c = Some v \<and>
    complete v (sane (beat (clk (tick s)) ts st (no_hbinfo\<lparr>Component := c\<rparr>)))"
proof -
  let ?h = "beat (clk (tick s)) ts st (no_hbinfo\<lparr>Component := c\<rparr>)"
  obtain jstr where js: "hbinfo_marshal ?h = Some jstr" "complete jstr (sane ?h)"
    using hbinfo_marshal_complete by blast
  have get: "kv_get faulty_kvi c (kvs s) =
      (([], False, Some ''timeout''), \<lparr>fk_mem = fk_mem (kvs s), fk_faults = []\<rparr>)"
    using assms(2) by (cases "kvs s") (simp add: faulty_defs fails_def)
  have st: "kv_store faulty_kvi c jstr \<lparr>fk_mem = fk_mem (kvs s), fk_faults = []\<rparr> =
      (None, \<lparr>fk_mem = gm_set c jstr (fk_mem (kvs s)), fk_faults = []\<rparr>)"
    by (simp add: faulty_defs fails_def mem_store_def)
  have um: "(if \<not> False \<or> Some ''timeout'' \<noteq> None then (no_hbinfo\<lparr>Component := c\<rparr>, True)
      else hbinfo_unmarshal [] no_hbinfo) = (no_hbinfo\<lparr>Component := c\<rparr>, True)" by simp
  show ?thesis
    using updateHB_eq [where clk = clk and s = s, OF get um js(1) st, of URL_HEARTBEAT new_response] js(2)
      hbRcv_parsed [OF assms(1), of faulty_kvi clk new_response s]
    by (simp add: Let_def faulty_view_def mem_view_def)
qed

theorem read_error_restarts_component_witness:
  "\<exists>s'. hbRcv faulty_kvi (\<lambda>n. 100) (\<lambda>x. True) sample_request new_response
      (sample_state \<lparr>fk_mem = gm_set ''x0'' ''{}'' gm_empty, fk_faults = [True]\<rparr>) = (new_response, s') \<and>
    nt_seq (notif s') = 1"
proof -
  let ?s = "sample_state \<lparr>fk_mem = gm_set ''x0'' ''{}'' gm_empty, fk_faults = [True]\<rparr>"
  have "fk_faults (kvs ?s) = [True]" by (simp add: sample_state_def)
  from read_error_restarts_component [OF sample_parse this, of "\<lambda>n. 100"] show ?thesis
    by (auto simp: sample_state_def init_notify_def)
qed

end
