(* ===== verification/Health.thy ===== *)
theory Health
  imports Heartbeat
begin

text \<open>
  Readiness of the State Manager and the health endpoints (\<open>health.go\<close>): the thread \<open>checkHSM\<close>
  as a function of the answers it gets, the wait for it at startup as a loop that may never
  end, and the handlers \<open>doHealth\<close>, \<open>doReadiness\<close>, \<open>doLiveness\<close>. Whether the store handle, the
  HTTP client and the message bus exist, and the status the bus library reports, are
  arguments.
\<close>

section \<open>Readiness of the State Manager\<close>

definition SM_URL_READY :: string where "SM_URL_READY = ''service/ready''"

definition ready_url :: "op_params \<Rightarrow> string" where
  "ready_url p = string_param (statemgr_url p) @ ''/'' @ SM_URL_READY"

text \<open>
  One round of the loop after the other: \<open>stopCheckHSM\<close> as the loop reads it, and the outcome
  of a GET to a URL. A URL that makes no request counts as no answer. The result is \<open>hsmReady\<close>
  after these rounds.
\<close>

type_synonym hsm_probe = "bool \<times> (string \<Rightarrow> http_outcome)"

fun check_hsm_loop :: "string \<Rightarrow> hsm_probe list \<Rightarrow> bool \<Rightarrow> bool" where
  "check_hsm_loop url [] hsmReady = hsmReady"
| "check_hsm_loop url ((stopCheckHSM, get) # rounds) hsmReady =
     (if stopCheckHSM then hsmReady
      else
        let lrdy = (case get url of Answer code \<Rightarrow> code = 200 | _ \<Rightarrow> False)
        in check_hsm_loop url rounds lrdy)"

definition checkHSM :: "op_params \<Rightarrow> hsm_probe list \<Rightarrow> bool \<Rightarrow> bool" where
  "checkHSM p rounds hsmReady =
     (if int_param (nosm p) \<noteq> 0 then hsmReady
      else check_hsm_loop (ready_url p) rounds hsmReady)"

text \<open>
  The wait, polling \<open>hsmReady\<close>: the number of the poll that ended it, or \<open>None\<close> if it never ends.
\<close>

partial_function (option) wait_loop :: "(nat \<Rightarrow> bool) \<Rightarrow> nat \<Rightarrow> nat option" where
  "wait_loop hsmReady n = (if hsmReady n then Some n else wait_loop hsmReady (n + 1))"

definition waitForHSM :: "op_params \<Rightarrow> (nat \<Rightarrow> bool) \<Rightarrow> nat option" where
  "waitForHSM p hsmReady = (if int_param (nosm p) \<noteq> 0 then Some 0 else wait_loop hsmReady 0)"

section \<open>The health endpoints\<close>

record HealthResponse =
  hr_KvStoreStatus :: string
  hr_MsgBusStatus :: string
  hr_HsmStatus :: string

definition health_json :: "HealthResponse \<Rightarrow> json" where
  "health_json h = JObj
     [(''KvStore'', JStr (hr_KvStoreStatus h)), (''MsgBus'', JStr (hr_MsgBusStatus h)),
      (''HsmStatus'', JStr (hr_HsmStatus h))]"

text \<open>\<open>msgbus\<close> is the status the handle reports, \<open>None\<close> for a nil handle.\<close>

definition bus_text :: "int option \<Rightarrow> string" where
  "bus_text msgbus =
     (case msgbus of
        None \<Rightarrow> ''Not Connected''
      | Some st \<Rightarrow>
          if st = 1 then ''Connected and OPEN''
          else if st = 2 then ''Connected and CLOSED''
          else ''Connected with unknown status:'' @ itoa st)"

definition hsm_text :: "bool \<Rightarrow> bool \<Rightarrow> string" where
  "hsm_text have_client ready =
     (if \<not> have_client then ''Not initialized'' else if \<not> ready then ''Not ready'' else ''Ready'')"

definition kv_text :: "bool \<Rightarrow> string \<times> bool \<times> kv_error \<Rightarrow> string" where
  "kv_text have_kv res =
     (if \<not> have_kv then ''Not initialized''
      else case res of
          (_, _, Some e) \<Rightarrow> ''Error accessing key values:'' @ e
        | (v, ok, None) \<Rightarrow>
            if \<not> ok then ''Initialization key not present''
            else ''Initialization key present: '' @ v)"

text \<open>The header is set after \<open>WriteHeader\<close>; \<open>Encode\<close> ends with a newline.\<close>

definition doHealth ::
  "'s kvi \<Rightarrow> bool \<Rightarrow> bool \<Rightarrow> int option \<Rightarrow> request \<Rightarrow> response \<Rightarrow> 's hbtd \<Rightarrow> response \<times> 's hbtd" where
  "doHealth K have_kv have_client msgbus r w s =
     (if rq_method r \<noteq> ''GET'' then
        (method_rsp ''GET'' ''Only GET operation supported'' (''/'' @ URL_HEALTH) w, s)
      else
        let (res, kv) = (if have_kv then kv_get K HBTD_HEALTH_KEY (kvs s)
                         else (([], False, None), kvs s));
            stats = \<lparr>hr_KvStoreStatus = kv_text have_kv res,
              hr_MsgBusStatus = bus_text msgbus, hr_HsmStatus = hsm_text have_client (hsm_ready s)\<rparr>;
            w1 = header_set ''Content-Type'' ''application/json'' (write_header 200 w)
        in (case json_marshal (health_json stats) of
              None \<Rightarrow> w1 | Some js \<Rightarrow> write_body (js @ [byte 10]) w1,
            s\<lparr>kvs := kv\<rparr>))"

definition doReadiness ::
  "'s kvi \<Rightarrow> bool \<Rightarrow> request \<Rightarrow> response \<Rightarrow> 's hbtd \<Rightarrow> response \<times> 's hbtd" where
  "doReadiness K have_kv r w s =
     (if rq_method r \<noteq> ''GET'' then
        (method_rsp ''GET'' ''Only GET operation supported'' (''/'' @ URL_READINESS) w, s)
      else
        let ((_, _, kerr), kv) = (if have_kv then kv_get K HBTD_HEALTH_KEY (kvs s)
                                  else (([], False, None), kvs s));
            ready = (have_kv \<and> kerr = None)
        in (write_header (if ready then 204 else 503) w, s\<lparr>kvs := kv\<rparr>))"

definition doLiveness :: "request \<Rightarrow> response \<Rightarrow> 's hbtd \<Rightarrow> response \<times> 's hbtd" where
  "doLiveness r w s =
     (if rq_method r \<noteq> ''GET'' then
        (method_rsp ''GET'' ''Only GET operation supported'' (''/'' @ URL_LIVENESS) w, s)
      else (write_header 204 w, s))"

section \<open>Lemmas\<close>

lemma check_hsm_append:
  "\<forall>(st, g) \<in> set xs. \<not> st \<Longrightarrow>
   check_hsm_loop u (xs @ ys) b = check_hsm_loop u ys (check_hsm_loop u xs b)"
  by (induction xs arbitrary: b) (auto simp: Let_def)

lemma wait_loop_found:
  assumes "hsmReady n" "\<forall>i. m \<le> i \<and> i < n \<longrightarrow> \<not> hsmReady i" "m \<le> n"
  shows "wait_loop hsmReady m = Some n"
  using assms(2,3)
proof (induction "n - m" arbitrary: m)
  case 0
  then have "m = n" by simp
  with assms(1) show ?case by (simp add: wait_loop.simps)
next
  case (Suc d)
  then have "\<not> hsmReady m" "m < n" by auto
  moreover from this have "wait_loop hsmReady (m + 1) = Some n"
    using Suc.prems(1) Suc.hyps(2) by (intro Suc.hyps(1)) auto
  ultimately show ?case by (subst wait_loop.simps) simp
qed

lemma wait_loop_sound:
  "wait_loop hsmReady m = Some n \<Longrightarrow> hsmReady n \<and> m \<le> n \<and> (\<forall>i. m \<le> i \<and> i < n \<longrightarrow> \<not> hsmReady i)"
proof (induction rule: wait_loop.raw_induct [rotated 1, consumes 1])
  case (1 wl m n)
  then show ?case by (auto split: if_splits) (metis Suc_leD, metis not_less_eq_eq le_antisym)
qed

definition sample_probe :: "string \<Rightarrow> request" where
  "sample_probe method = \<lparr>rq_method = method, rq_body = [], rq_read_error = False, rq_xname = [],
     rq_path = URL_HEALTH\<rparr>"

lemma waitForHSM_eq:
  "waitForHSM p hsmReady =
     (if int_param (nosm p) \<noteq> 0 then Some 0
      else if \<exists>n. hsmReady n then Some (LEAST n. hsmReady n) else None)"
proof (cases "\<exists>n. hsmReady n")
  case True
  then have "hsmReady (LEAST n. hsmReady n)" by (rule LeastI_ex)
  moreover have "\<forall>i. 0 \<le> i \<and> i < (LEAST n. hsmReady n) \<longrightarrow> \<not> hsmReady i"
    using not_less_Least by blast
  ultimately have "wait_loop hsmReady 0 = Some (LEAST n. hsmReady n)" by (rule wait_loop_found) simp
  with True show ?thesis by (simp add: waitForHSM_def)
next
  case False
  have "wait_loop hsmReady 0 = None"
  proof (cases "wait_loop hsmReady 0")
    case (Some n)
    then show ?thesis using wait_loop_sound [OF Some] False by blast
  qed
  with False show ?thesis by (simp add: waitForHSM_def)
qed

section \<open>Properties\<close>

text \<open>
  \<open>hsmReady\<close> follows the latest answer: after any rounds of \<open>checkHSM\<close> none of which was told
  to stop, the last of which asked the readiness URL of the parameters the thread was started
  with, the State Manager counts as ready exactly when that answer was 200, whatever came before;
  once told to stop, later answers have no effect.
\<close>

theorem hsm_ready_follows_answer:
  assumes "int_param (nosm p) = 0" "\<forall>(st, get) \<in> set rounds. \<not> st"
  shows "(checkHSM p (rounds @ [(False, get)]) b \<longleftrightarrow> get (ready_url p) = Answer 200) \<and>
    checkHSM p (rounds @ (True, get') # later) b = checkHSM p rounds b"
  using assms by (auto simp: checkHSM_def check_hsm_append Let_def split: http_outcome.splits)

theorem hsm_ready_follows_answer_witness:
  "checkHSM initAppParams ([(False, \<lambda>u. Answer 200)] @ [(False, \<lambda>u. Answer 503)]) True = False"
proof -
  have p: "int_param (nosm initAppParams) = 0" by (simp add: initAppParams_def int_app_def)
  have r: "\<forall>(st, get) \<in> set [(False, \<lambda>u::string. Answer 200)]. \<not> st" by simp
  have "checkHSM initAppParams ([(False, \<lambda>u. Answer 200)] @ [(False, \<lambda>u. Answer 503)]) True \<longleftrightarrow>
      Answer 503 = Answer 200"
    using hsm_ready_follows_answer [OF p r, of "\<lambda>u. Answer 503"] by blast
  then show ?thesis by simp
qed

text \<open>
  The wait at startup ends exactly when it should: \<open>waitForHSM\<close> returns if and only if the
  State Manager is not used or some poll finds it ready, and it returns at the first such poll.
\<close>

theorem wait_for_hsm_returns:
  "waitForHSM p hsmReady =
     (if int_param (nosm p) \<noteq> 0 then Some 0
      else if \<exists>n. hsmReady n then Some (LEAST n. hsmReady n) else None)"
  by (rule waitForHSM_eq)

text \<open>
  An instance started with \<open>nosm\<close> never talks to the State Manager again: its \<open>checkHSM\<close> has
  returned at once, so \<open>hsmReady\<close> keeps its initial value, and every turn of the sender, whatever
  the parameters have been patched to since, makes no request and keeps every change pending.
\<close>

theorem nosm_start_never_sends:
  assumes "int_param (nosm p) \<noteq> 0"
    and "send_sm_round hsm tm q (checkHSM p rounds False) cp g = Some r"
  shows "needSend (rd_bsi r c) = False \<and> pending (rd_local r) (rd_global r) = pending cp g"
proof -
  have off: "checkHSM p rounds False = False" using assms(1) by (simp add: checkHSM_def)
  note rnd = assms(2) [unfolded off]
  have "needSend (rd_bsi r d) = False" for d
    using arg_cong [OF send_sm_round_bsi [OF rnd, of d], of needSend] by simp
  moreover from this have "\<not> sent_ok (rd_bsi r) d" for d unfolding sent_ok_def by blast
  then have "pending (rd_local r) (rd_global r) x = pending cp g x" for x
    unfolding pending_after_turn [OF rnd, of x] by simp
  then have "pending (rd_local r) (rd_global r) = pending cp g" by (rule ext)
  ultimately show ?thesis by blast
qed

theorem nosm_start_never_sends_witness:
  "\<exists>r. send_sm_round (hsm_up True) False initAppParams
      (checkHSM (set_nosm 1 initAppParams) [(False, \<lambda>u. Answer 200)] False) no_changes
      (no_changes(Started := gm_set ''x0'' 1 gm_empty)) = Some r \<and>
    pending (rd_local r) (rd_global r) ''x0'' = Some Started"
proof -
  let ?g = "no_changes(Started := gm_set ''x0'' 1 gm_empty)"
  obtain r where r: "send_sm_round (hsm_up True) False initAppParams
      (checkHSM (set_nosm 1 initAppParams) [(False, \<lambda>u. Answer 200)] False) no_changes ?g = Some r"
    using round_no_panic [of "hsm_up True" False initAppParams, OF hsm_up_url] by blast
  have on: "int_param (nosm (set_nosm 1 initAppParams)) \<noteq> 0" by (simp add: set_nosm_def)
  have "pending no_changes ?g ''x0'' = Some Started"
    by (simp add: pending_def winner_def merged_def no_changes_def)
  then have "pending (rd_local r) (rd_global r) ''x0'' = Some Started"
    using nosm_start_never_sends [OF on r] by simp
  with r show ?thesis by blast
qed

text \<open>
  Readiness is the state of the store: a GET of \<open>/readiness\<close> is answered 204 when there is a
  store and the health key can be read, present or not, and 503 otherwise; any other method 405.
  Neither it nor \<open>/liveness\<close> (204) nor \<open>/health\<close> (200) changes anything.
\<close>

theorem health_endpoints:
  assumes "kvi_store K view"
  shows "rw_status (fst (doReadiness K have_kv r new_response s)) =
      Some (if rq_method r \<noteq> ''GET'' then 405
            else if have_kv \<and> snd (snd (fst (kv_get K HBTD_HEALTH_KEY (kvs s)))) = None then 204 else 503) \<and>
    rw_status (fst (doLiveness r new_response s)) = Some (if rq_method r \<noteq> ''GET'' then 405 else 204) \<and>
    rw_status (fst (doHealth K have_kv cl bus r new_response s)) =
      Some (if rq_method r \<noteq> ''GET'' then 405 else 200) \<and>
    (\<forall>s' \<in> {snd (doReadiness K have_kv r new_response s), snd (doLiveness r new_response s),
        snd (doHealth K have_kv cl bus r new_response s)}.
      s' = s\<lparr>kvs := kvs s'\<rparr> \<and> view (kvs s') = view (kvs s))"
proof -
  have gv: "view (snd (kv_get K HBTD_HEALTH_KEY (kvs s))) = view (kvs s)"
    by (rule kvi_store.get_view [OF assms])
  obtain v ok e kv where g: "kv_get K HBTD_HEALTH_KEY (kvs s) = ((v, ok, e), kv)"
    by (metis prod.exhaust)
  have "view kv = view (kvs s)" using gv g by simp
  then show ?thesis
    by (simp add: doReadiness_def doLiveness_def doHealth_def g json_marshal_def Let_def
        split: prod.splits)
qed

theorem health_endpoints_witness:
  "rw_status (fst (doReadiness faulty_kvi True (sample_probe ''GET'') new_response
     (sample_state \<lparr>fk_mem = gm_empty, fk_faults = [True]\<rparr>))) = Some 503"
proof -
  let ?s = "sample_state \<lparr>fk_mem = gm_empty, fk_faults = [True]\<rparr>"
  have "snd (snd (fst (kv_get faulty_kvi HBTD_HEALTH_KEY (kvs ?s)))) \<noteq> None"
    by (simp add: faulty_defs fails_def sample_state_def)
  then show ?thesis
    using health_endpoints [OF faulty.kvi_store_axioms, of True "sample_probe ''GET''" ?s]
    by (simp add: sample_probe_def)
qed

text \<open>
  The \<open>Content-Type\<close> that \<open>/health\<close> sets never reaches the client: it is set after the status
  line and the headers have been sent.
\<close>

theorem health_header_lost:
  assumes "rq_method r = ''GET''"
  shows "rw_sent (fst (doHealth K have_kv cl bus r new_response s)) = []"
  using assms
  by (simp add: doHealth_def json_marshal_def Let_def write_body_def write_header_def
      header_set_def new_response_def split: prod.splits)

theorem health_header_lost_witness:
  "rw_sent (fst (doHealth mem_kvi True True None (sample_probe ''GET'') new_response
     (sample_state gm_empty))) = []"
  by (rule health_header_lost) (simp add: sample_probe_def)

end
