(* ===== verification/Checker.thy ===== *)
theory Checker
  imports Heartbeat
begin

text \<open>
  The periodic check of the tracked components: \<open>rearm_hbcheck_timer\<close> and \<open>hb_checker\<close> of
  \<open>track.go\<close>. The check is split where other handlers can run: \<open>checker_open\<close> takes the lock and
  reads the range, \<open>check_one\<close> handles one record, \<open>check_apply\<close> does one of the deletes and updates
  that were collected, \<open>checker_end\<close> does what is left of them and the rest. \<open>hb_checker\<close> runs one
  after the other.
\<close>

section \<open>Going through the records\<close>

text \<open>
  The local variables of the loop. \<open>nhb\<close> is declared outside of it, so each record is decoded
  on top of the previous one.
\<close>

record scan =
  sc_nhb :: hbinfo
  sc_ncomp :: int
  sc_delete :: "string list"
  sc_update :: "(string \<times> string) list"

definition init_scan :: scan where
  "init_scan = \<lparr>sc_nhb = no_hbinfo, sc_ncomp = 0, sc_delete = [], sc_update = []\<rparr>"

definition store_scan :: "scan \<Rightarrow> scan" where
  "store_scan sc =
     (case hbinfo_marshal (sc_nhb sc) of
        None \<Rightarrow> sc
      | Some jstr \<Rightarrow> sc\<lparr>sc_update := sc_update sc @ [(Component (sc_nhb sc), jstr)]\<rparr>)"

definition check_one :: "clock \<Rightarrow> string \<times> string \<Rightarrow> scan \<times> 's hbtd \<Rightarrow> scan \<times> 's hbtd" where
  "check_one clk kv st =
     (let (sc, s) = st in
      if fst kv = KV_PARAM_KEY then (sc, s)
      else
        let (nhb, ok) = hbinfo_unmarshal (snd kv) (sc_nhb sc);
            sc1 = sc\<lparr>sc_ncomp := sc_ncomp sc + 1, sc_nhb := nhb\<rparr>
        in if \<not> ok then (sc1, s)
           else
             let (now, s1) = read_clock clk s;
                 tdiff = int64 (now - parse_time (Last_hb_rcv_time nhb))
             in if int_param (errtime (app_params s1)) \<le> tdiff then
                  if staleKeys s1 then
                    let (now2, s2) = read_clock clk s1;
                        nhb2 = nhb\<lparr>Last_hb_rcv_time := format_time now2, Had_warning := HB_WARN_GAP\<rparr>
                    in (store_scan (sc1\<lparr>sc_nhb := nhb2\<rparr>), notify_state nhb2 HB_stopped_warn s2)
                  else
                    (sc1\<lparr>sc_delete := sc_delete sc1 @ [fst kv], sc_ncomp := sc_ncomp sc1 - 1\<rparr>,
                     notify_state nhb HB_stopped_error s1)
                else if int_param (warntime (app_params s1)) \<le> tdiff then
                  if Had_warning nhb = HB_WARN_NONE then
                    let nhb2 = nhb\<lparr>Had_warning := HB_WARN_NORMAL\<rparr>
                    in (store_scan (sc1\<lparr>sc_nhb := nhb2\<rparr>), notify_state nhb2 HB_stopped_warn s1)
                  else (sc1, s1)
                else if Had_warning nhb = HB_WARN_NORMAL then
                  let nhb2 = nhb\<lparr>Had_warning := HB_WARN_NONE\<rparr>
                  in (store_scan (sc1\<lparr>sc_nhb := nhb2\<rparr>), notify_state nhb2 HB_restarted_warn s1)
                else (sc1, s1))"

definition check_all ::
  "clock \<Rightarrow> (string \<times> string) list \<Rightarrow> scan \<times> 's hbtd \<Rightarrow> scan \<times> 's hbtd" where
  "check_all clk kvlist st = fold (check_one clk) kvlist st"

section \<open>The check\<close>

text \<open>A timer's delay is a \<open>time.Duration\<close>, in nanoseconds.\<close>

definition rearm_hbcheck_timer :: "'s hbtd \<Rightarrow> 's hbtd" where
  "rearm_hbcheck_timer s =
     (if 0 < int_param (check_interval (app_params s))
      then s\<lparr>timers := timers s @ [int64 (int_param (check_interval (app_params s)) * 1000000000)]\<rparr>
      else s)"

text \<open>
  The lock and the read of all keys; \<open>None\<close> when the function has returned, because another
  instance holds the lock or the keys could not be read.
\<close>

definition checker_open :: "'s kvi \<Rightarrow> 's hbtd \<Rightarrow> (string \<times> string) list option \<times> 's hbtd" where
  "checker_open K s =
     (let ci = int_param (check_interval (app_params s));
          (lckerr, s1) = (if 0 < ci
                          then let (e, kv) = kv_timed_lock K (int64 (ci * 2)) (kvs s)
                               in (e, s\<lparr>kvs := kv\<rparr>)
                          else (None, s))
      in if lckerr \<noteq> None then (None, rearm_hbcheck_timer s1)
         else
           let ((kvlist, err), kv2) = kv_get_range K HB_KEYRANGE_START HB_KEYRANGE_END (kvs s1);
               s2 = s1\<lparr>kvs := kv2\<rparr>
           in if err \<noteq> None then
                (None, rearm_hbcheck_timer (s2\<lparr>kvs := snd (kv_unlock K (kvs s2))\<rparr>))
              else (Some kvlist, s2))"

text \<open>Up to the end of the loop.\<close>

definition checker_begin :: "'s kvi \<Rightarrow> clock \<Rightarrow> 's hbtd \<Rightarrow> scan option \<times> 's hbtd" where
  "checker_begin K clk s =
     (case checker_open K s of
        (None, s1) \<Rightarrow> (None, s1)
      | (Some kvlist, s1) \<Rightarrow>
          let (sc, s2) = check_all clk kvlist (init_scan, s1) in (Some sc, s2))"

definition delete_keys :: "'s kvi \<Rightarrow> string list \<Rightarrow> 's \<Rightarrow> 's" where
  "delete_keys K ks kv = fold (\<lambda>k kv. snd (kv_delete K k kv)) ks kv"

definition store_keys :: "'s kvi \<Rightarrow> (string \<times> string) list \<Rightarrow> 's \<Rightarrow> 's" where
  "store_keys K us kv = fold (\<lambda>u kv. snd (kv_store K (fst u) (snd u) kv)) us kv"

text \<open>
  The rest. The flag is \<open>False\<close> when the send to the full \<open>hsmUpdateQ\<close> blocks: the state is
  then the one in which the function waits.
\<close>

definition checker_end :: "'s kvi \<Rightarrow> scan \<Rightarrow> 's hbtd \<Rightarrow> 's hbtd \<times> bool" where
  "checker_end K sc s =
     (let kv1 = delete_keys K (sc_delete sc) (kvs s);
          kv2 = store_keys K (sc_update sc) kv1;
          kv3 = (if 0 < int_param (check_interval (app_params s)) then snd (kv_unlock K kv2) else kv2);
          s1 = s\<lparr>kvs := kv3\<rparr>
      in if length (hsm_q s1) < hsmUpdateQ_cap then
           let s2 = s1\<lparr>hsm_q := hsm_q s1 @ [HSMQ_NEW]\<rparr>;
               s3 = (if sc_ncomp sc \<noteq> sg_ncomp s2 then s2\<lparr>sg_ncomp := sc_ncomp sc\<rparr> else s2);
               s4 = s3\<lparr>staleKeys := False\<rparr>
           in (rearm_hbcheck_timer s4, True)
         else (s1, False))"

definition hb_checker :: "'s kvi \<Rightarrow> clock \<Rightarrow> 's hbtd \<Rightarrow> 's hbtd \<times> bool" where
  "hb_checker K clk s =
     (case checker_begin K clk s of
        (None, s1) \<Rightarrow> (s1, True)
      | (Some sc, s1) \<Rightarrow> checker_end K sc s1)"

section \<open>The verdict on one component\<close>

text \<open>
  What a check decides from the record, the parameters and the clock: the record to keep
  (\<open>None\<close>: deleted) and the change to notify. \<open>now2\<close> is the second reading, used after a
  monitoring gap only.
\<close>

definition verdict :: "op_params \<Rightarrow> bool \<Rightarrow> int \<Rightarrow> int \<Rightarrow> hbinfo \<Rightarrow> hbinfo option \<times> int option" where
  "verdict p stale now now2 h =
     (let overdue = int64 (now - parse_time (Last_hb_rcv_time h)) in
      if int_param (errtime p) \<le> overdue then
        if stale then (Some (h\<lparr>Last_hb_rcv_time := format_time now2, Had_warning := HB_WARN_GAP\<rparr>),
                       Some HB_stopped_warn)
        else (None, Some HB_stopped_error)
      else if int_param (warntime p) \<le> overdue then
        if Had_warning h = HB_WARN_NONE
        then (Some (h\<lparr>Had_warning := HB_WARN_NORMAL\<rparr>), Some HB_stopped_warn)
        else (Some h, None)
      else if Had_warning h = HB_WARN_NORMAL
        then (Some (h\<lparr>Had_warning := HB_WARN_NONE\<rparr>), Some HB_restarted_warn)
        else (Some h, None))"

text \<open>The record that is notified: the new one, or the old one of a dead component.\<close>

definition noted :: "hbinfo \<Rightarrow> hbinfo option \<times> int option \<Rightarrow> (hbinfo \<times> int) list" where
  "noted h vd = (case snd vd of None \<Rightarrow> [] | Some st \<Rightarrow> [(case fst vd of None \<Rightarrow> h | Some h' \<Rightarrow> h', st)])"

definition notify_all :: "(hbinfo \<times> int) list \<Rightarrow> notify \<Rightarrow> notify" where
  "notify_all ns n = fold (\<lambda>(h, st). hb_update_notify h st) ns n"

text \<open>A record as the service writes it: complete, filed under its own name, valid text.\<close>

definition good_rec :: "string \<Rightarrow> string \<Rightarrow> hbinfo \<Rightarrow> bool" where
  "good_rec k v h \<longleftrightarrow> complete v h \<and> Component h = k \<and> sane h = h"

text \<open>
  What is filed under any name, valid UTF-8 or not: the component in the record is the name as JSON
  can hold it.
\<close>

definition stored_rec :: "string \<Rightarrow> string \<Rightarrow> hbinfo \<Rightarrow> bool" where
  "stored_rec k v h \<longleftrightarrow> complete v h \<and> Component h = sanitize k \<and> sane h = h"

lemma sane_component: "sane h = h \<Longrightarrow> sanitize (Component h) = Component h"
  by (metis sane_simps(1))

lemma good_rec_stored: "good_rec k v h \<Longrightarrow> stored_rec k v h"
  using sane_component [of h] by (auto simp: good_rec_def stored_rec_def)

lemma stored_rec_good: "stored_rec k v h \<Longrightarrow> good_rec (Component h) v h"
  by (simp add: stored_rec_def good_rec_def)

lemma verdict_component:
  "fst (verdict p stale now now2 h) = Some h' \<Longrightarrow> Component h' = Component h"
  by (auto simp: verdict_def Let_def split: if_splits)

definition readings :: "op_params \<Rightarrow> bool \<Rightarrow> int \<Rightarrow> hbinfo \<Rightarrow> nat" where
  "readings p stale now h =
     (if int_param (errtime p) \<le> int64 (now - parse_time (Last_hb_rcv_time h)) \<and> stale then 2 else 1)"

text \<open>One record: independent of what the loop variable held before.\<close>

lemma store_scan_eq: "store_scan sc = sc\<lparr>sc_update := sc_update sc @
    [(Component (sc_nhb sc), the (hbinfo_marshal (sc_nhb sc)))]\<rparr>"
  using hbinfo_marshal_complete [of "sc_nhb sc"] by (auto simp: store_scan_def)

lemma check_one_eq:
  assumes um: "hbinfo_unmarshal v (sc_nhb sc) = (h, True)" and k: "k \<noteq> KV_PARAM_KEY"
  shows "check_one clk (k, v) (sc, s) =
    (let vd = verdict (app_params s) (staleKeys s) (clk (tick s)) (clk (tick s + 1)) h;
         sc1 = sc\<lparr>sc_ncomp := sc_ncomp sc + 1, sc_nhb := h\<rparr>;
         s1 = s\<lparr>tick := tick s + readings (app_params s) (staleKeys s) (clk (tick s)) h,
                notif := notify_all (noted h vd) (notif s)\<rparr>
     in case vd of
          (None, _) \<Rightarrow> (sc1\<lparr>sc_delete := sc_delete sc @ [k], sc_ncomp := sc_ncomp sc\<rparr>, s1)
        | (Some h', Some _) \<Rightarrow> (store_scan (sc1\<lparr>sc_nhb := h'\<rparr>), s1)
        | (Some _, None) \<Rightarrow> (sc1, s1))"
proof -
  let ?od = "int64 (clk (tick s) - parse_time (Last_hb_rcv_time h))"
  note simps = check_one_def read_clock_def Let_def verdict_def noted_def notify_all_def readings_def
  show ?thesis
  proof (cases "int_param (errtime (app_params s)) \<le> ?od")
    case True
    then show ?thesis by (cases "staleKeys s") (simp_all add: simps um k)
  next
    case err: False
    show ?thesis
    proof (cases "int_param (warntime (app_params s)) \<le> ?od")
      case True
      with err show ?thesis by (cases "Had_warning h = HB_WARN_NONE") (simp_all add: simps um k)
    next
      case False
      with err show ?thesis by (cases "Had_warning h = HB_WARN_NORMAL") (simp_all add: simps um k)
    qed
  qed
qed

lemma check_one_complete:
  assumes good: "complete v h" and k: "k \<noteq> KV_PARAM_KEY"
    and vd: "verdict (app_params s) (staleKeys s) (clk (tick s)) (clk (tick s + 1)) h = vd"
    and ck: "check_one clk (k, v) (sc, s) = (sc', s')"
  shows "sc_delete sc' = sc_delete sc @ (if fst vd = None then [k] else [])"
    and "sc_update sc' = sc_update sc @
      (if fst vd \<noteq> None \<and> snd vd \<noteq> None then [(Component h, the (hbinfo_marshal (the (fst vd))))] else [])"
    and "sc_ncomp sc' = sc_ncomp sc + (if fst vd = None then 0 else 1)"
    and "s' = s\<lparr>tick := tick s + readings (app_params s) (staleKeys s) (clk (tick s)) h,
                notif := notify_all (noted h vd) (notif s)\<rparr>"
proof -
  have um: "hbinfo_unmarshal v (sc_nhb sc) = (h, True)"
    using good by (simp add: complete_unmarshal)
  obtain c where c: "Component h = c" by simp
  have c': "fst vd = Some h' \<Longrightarrow> Component h' = c" for h'
    using verdict_component vd c by blast
  note eq = check_one_eq [OF um k, of clk s, unfolded vd ck Let_def]
  obtain a b where ab: "vd = (a, b)" by (cases vd)
  have "sc_delete sc' = sc_delete sc @ (if fst vd = None then [k] else []) \<and>
    sc_update sc' = sc_update sc @
      (if fst vd \<noteq> None \<and> snd vd \<noteq> None then [(Component h, the (hbinfo_marshal (the (fst vd))))] else []) \<and>
    sc_ncomp sc' = sc_ncomp sc + (if fst vd = None then 0 else 1) \<and>
    s' = s\<lparr>tick := tick s + readings (app_params s) (staleKeys s) (clk (tick s)) h,
                notif := notify_all (noted h vd) (notif s)\<rparr>"
    using eq c' by (cases a; cases b) (simp_all add: ab store_scan_eq c)
  then show "sc_delete sc' = sc_delete sc @ (if fst vd = None then [k] else [])"
    "sc_update sc' = sc_update sc @
      (if fst vd \<noteq> None \<and> snd vd \<noteq> None then [(Component h, the (hbinfo_marshal (the (fst vd))))] else [])"
    "sc_ncomp sc' = sc_ncomp sc + (if fst vd = None then 0 else 1)"
    "s' = s\<lparr>tick := tick s + readings (app_params s) (staleKeys s) (clk (tick s)) h,
                notif := notify_all (noted h vd) (notif s)\<rparr>"
    by blast+
qed

lemma check_one_good:
  assumes good: "good_rec k v h" and k: "k \<noteq> KV_PARAM_KEY"
    and vd: "verdict (app_params s) (staleKeys s) (clk (tick s)) (clk (tick s + 1)) h = vd"
    and ck: "check_one clk (k, v) (sc, s) = (sc', s')"
  shows "sc_delete sc' = sc_delete sc @ (if fst vd = None then [k] else [])"
    and "sc_update sc' = sc_update sc @
      (if fst vd \<noteq> None \<and> snd vd \<noteq> None then [(k, the (hbinfo_marshal (the (fst vd))))] else [])"
    and "sc_ncomp sc' = sc_ncomp sc + (if fst vd = None then 0 else 1)"
    and "s' = s\<lparr>tick := tick s + readings (app_params s) (staleKeys s) (clk (tick s)) h,
                notif := notify_all (noted h vd) (notif s)\<rparr>"
  using check_one_complete [of v h k s clk vd sc sc' s'] good k vd ck by (simp_all add: good_rec_def)

section \<open>The whole scan\<close>

text \<open>
  What a scan of the keys \<open>ks\<close> with the verdicts \<open>vd\<close> collects and notifies.
\<close>

definition scan_result ::
  "string list \<Rightarrow> (string \<Rightarrow> hbinfo) \<Rightarrow> (string \<Rightarrow> hbinfo option \<times> int option) \<Rightarrow> scan \<Rightarrow> 's hbtd
    \<Rightarrow> scan \<Rightarrow> 's hbtd \<Rightarrow> bool" where
  "scan_result ks h vd sc s sc' s' \<longleftrightarrow>
     sc_delete sc' = sc_delete sc @ filter (\<lambda>k. fst (vd k) = None) ks \<and>
     sc_update sc' = sc_update sc @ map (\<lambda>k. (k, the (hbinfo_marshal (the (fst (vd k))))))
       (filter (\<lambda>k. fst (vd k) \<noteq> None \<and> snd (vd k) \<noteq> None) ks) \<and>
     sc_ncomp sc' = sc_ncomp sc + int (length (filter (\<lambda>k. fst (vd k) \<noteq> None) ks)) \<and>
     (\<exists>n \<ge> tick s. s' = s\<lparr>tick := n,
        notif := notify_all (concat (map (\<lambda>k. noted (h k) (vd k)) ks)) (notif s)\<rparr>)"

definition verdict_at :: "clock \<Rightarrow> 's hbtd \<Rightarrow> nat \<Rightarrow> hbinfo \<Rightarrow> hbinfo option \<times> int option" where
  "verdict_at clk s n h = verdict (app_params s) (staleKeys s) (clk n) (clk (n + 1)) h"

lemma scan_result_cong:
  assumes "\<And>x. x \<in> set ks \<Longrightarrow> vd x = vd' x"
  shows "scan_result ks h vd sc s sc' s' = scan_result ks h vd' sc s sc' s'"
proof -
  have f: "filter (\<lambda>k. P (vd k)) ks = filter (\<lambda>k. P (vd' k)) ks" for P
    using assms by (intro filter_cong) auto
  have "map (\<lambda>k. F k (vd k)) (filter Q ks) = map (\<lambda>k. F k (vd' k)) (filter Q ks)" for F Q
    using assms by (intro map_cong) auto
  note m = this [of "\<lambda>k r. (k, the (hbinfo_marshal (the (fst r))))"]
  have c: "map (\<lambda>k. noted (h k) (vd k)) ks = map (\<lambda>k. noted (h k) (vd' k)) ks"
    using assms by (intro map_cong) auto
  show ?thesis
    unfolding scan_result_def m c f [of "\<lambda>r. fst r = None"] f [of "\<lambda>r. fst r \<noteq> None"]
      f [of "\<lambda>r. fst r \<noteq> None \<and> snd r \<noteq> None"] ..
qed

lemma notify_all_append: "notify_all (xs @ ys) n = notify_all ys (notify_all xs n)"
  by (simp add: notify_all_def)

lemma check_all_good:
  assumes "\<And>k v. (k, v) \<in> set kvl \<Longrightarrow> good_rec k v (h k) \<and> k \<noteq> KV_PARAM_KEY"
    and "distinct (map fst kvl)" "check_all clk kvl (sc, s) = (sc', s')"
  shows "\<exists>t. (\<forall>k. tick s \<le> t k) \<and>
    scan_result (map fst kvl) h (\<lambda>k. verdict_at clk s (t k) (h k)) sc s sc' s'"
  using assms
proof (induction kvl arbitrary: sc s)
  case Nil
  then have "sc' = sc" "s' = s" by (simp_all add: check_all_def)
  moreover have "\<exists>n\<ge>tick s. s = s\<lparr>tick := n, notif := notif s\<rparr>"
    by (intro exI [of _ "tick s"]) simp
  ultimately have "scan_result [] h vd sc s sc' s'" for vd
    by (simp add: scan_result_def notify_all_def)
  then show ?case by (intro exI [of _ "\<lambda>k. tick s"]) simp
next
  case (Cons kv kvl)
  obtain k v where kv: "kv = (k, v)" by (cases kv)
  obtain sc1 s1 where one: "check_one clk (k, v) (sc, s) = (sc1, s1)"
    by (cases "check_one clk (k, v) (sc, s)")
  define vk where "vk = verdict_at clk s (tick s) (h k)"
  have good: "good_rec k v (h k)" and kp: "k \<noteq> KV_PARAM_KEY" using Cons.prems(1) kv by auto
  have vk: "verdict (app_params s) (staleKeys s) (clk (tick s)) (clk (tick s + 1)) (h k) = vk"
    by (simp add: vk_def verdict_at_def)
  note r1 = check_one_good [OF good kp vk one]
  have rest: "check_all clk kvl (sc1, s1) = (sc', s')"
    using Cons.prems(3) one by (simp add: check_all_def kv)
  have le: "tick s \<le> tick s1" and same: "app_params s1 = app_params s" "staleKeys s1 = staleKeys s"
    by (simp_all add: r1(4))
  obtain t where t: "\<forall>x. tick s1 \<le> t x"
    and sr: "scan_result (map fst kvl) h (\<lambda>x. verdict_at clk s1 (t x) (h x)) sc1 s1 sc' s'"
    using Cons.IH [OF _ _ rest] Cons.prems(1,2) by (auto simp: kv)
  define t' where "t' = t(k := tick s)"
  have k: "k \<notin> set (map fst kvl)" using Cons.prems(2) by (simp add: kv)
  have vd: "x \<in> set (map fst kvl) \<Longrightarrow> verdict_at clk s1 (t x) (h x) = verdict_at clk s (t' x) (h x)" for x
    using k by (auto simp: verdict_at_def same t'_def)
  have vd_k: "verdict_at clk s (t' k) (h k) = vk" by (simp add: t'_def vk_def)
  let ?vd = "\<lambda>x. verdict_at clk s (t' x) (h x)"
  have sr': "scan_result (map fst kvl) h ?vd sc1 s1 sc' s'"
    using sr vd by (subst scan_result_cong [where vd' = "\<lambda>x. verdict_at clk s1 (t x) (h x)"]) auto
  obtain n where n: "tick s1 \<le> n" "s' = s1\<lparr>tick := n,
      notif := notify_all (concat (map (\<lambda>k. noted (h k) (?vd k)) (map fst kvl))) (notif s1)\<rparr>"
    using sr' unfolding scan_result_def by blast
  have s': "s' = s\<lparr>tick := n,
      notif := notify_all (concat (map (\<lambda>k. noted (h k) (?vd k)) (map fst (kv # kvl)))) (notif s)\<rparr>"
    unfolding n(2) r1(4) by (simp add: kv vd_k notify_all_append)
  have "scan_result (map fst (kv # kvl)) h ?vd sc s sc' s'"
    unfolding scan_result_def
  proof (intro conjI)
    show "\<exists>n\<ge>tick s. s' = s\<lparr>tick := n,
      notif := notify_all (concat (map (\<lambda>k. noted (h k) (?vd k)) (map fst (kv # kvl)))) (notif s)\<rparr>"
      by (intro exI [of _ n] conjI le_trans [OF le n(1)]) (rule s')
  qed (use sr' r1(1,2,3) in \<open>auto simp: scan_result_def kv vd_k\<close>)
  moreover have "\<forall>x. tick s \<le> t' x" using t le by (auto simp: t'_def intro: le_trans)
  ultimately show ?case by blast
qed

section \<open>Notifying many\<close>

lemma noted_changes:
  "(h', st) \<in> set (noted h (verdict p stale a b h)) \<Longrightarrow> Component h' = Component h \<and> change_of st \<noteq> None"
  by (auto simp: noted_def verdict_def Let_def split: if_splits)

lemma notify_all_pending:
  assumes "sender_ok cp (nt_maps n) (nt_seq n)" "unat (nt_seq n) + length ns < 2 ^ 64"
    and "\<forall>(h, st) \<in> set ns. change_of st \<noteq> None" "distinct (map (\<lambda>(h, st). Component h) ns)"
  shows "sender_ok cp (nt_maps (notify_all ns n)) (nt_seq (notify_all ns n)) \<and>
    unat (nt_seq (notify_all ns n)) = unat (nt_seq n) + length ns \<and>
    (\<forall>x. pending cp (nt_maps (notify_all ns n)) x =
      (case map_of (map (\<lambda>(h, st). (Component h, st)) ns) x of
         None \<Rightarrow> pending cp (nt_maps n) x | Some st \<Rightarrow> change_of st))"
  using assms
proof (induction ns arbitrary: n)
  case Nil
  then show ?case by (simp add: notify_all_def)
next
  case (Cons a ns)
  obtain h st where a: "a = (h, st)" by (cases a)
  obtain c where c: "change_of st = Some c" using Cons.prems(3) by (auto simp: a)
  let ?n = "hb_update_notify h st n"
  have lt: "unat (nt_seq n) < 2 ^ 64 - 1" using Cons.prems(2) by simp
  have nz: "nt_seq n + 1 \<noteq> 0" "unat (nt_seq n + 1) = unat (nt_seq n) + 1"
    using next_seq_nz [OF lt] by blast+
  have step: "notify_all ((h, st) # ns) n = notify_all ns ?n" by (simp add: notify_all_def)
  have IH: "sender_ok cp (nt_maps (notify_all ns ?n)) (nt_seq (notify_all ns ?n)) \<and>
    unat (nt_seq (notify_all ns ?n)) = unat (nt_seq ?n) + length ns \<and>
    (\<forall>x. pending cp (nt_maps (notify_all ns ?n)) x =
      (case map_of (map (\<lambda>(h, st). (Component h, st)) ns) x of
         None \<Rightarrow> pending cp (nt_maps ?n) x | Some st \<Rightarrow> change_of st))"
    using Cons.prems sender_ok_notify [OF Cons.prems(1) nz(1) c] nz(2)
    by (intro Cons.IH) (simp_all add: a)
  have "map_of (map (\<lambda>(h, st). (Component h, st)) ns) (Component h) = None"
    using Cons.prems(4) by (force simp: a map_of_eq_None_iff case_prod_unfold comp_def)
  then show ?case
    using IH pending_notify [OF Cons.prems(1) nz(1) c, of h] nz(2) c
    by (auto simp: step a split: option.splits)
qed

section \<open>The check on a store\<close>

text \<open>The records of tracked components are good.\<close>

definition wf_store :: "(string \<rightharpoonup> string) \<Rightarrow> bool" where
  "wf_store m \<longleftrightarrow>
     (\<forall>k v. HB_KEYRANGE_START \<le> k \<and> k \<le> HB_KEYRANGE_END \<and> m k = Some v \<longrightarrow> (\<exists>h. good_rec k v h))"

text \<open>The same for whatever names heartbeats have come with.\<close>

definition stored_ok :: "(string \<rightharpoonup> string) \<Rightarrow> bool" where
  "stored_ok m \<longleftrightarrow>
     (\<forall>k v. HB_KEYRANGE_START \<le> k \<and> k \<le> HB_KEYRANGE_END \<and> m k = Some v \<longrightarrow> (\<exists>h. stored_rec k v h))"

lemma wf_store_stored: "wf_store m \<Longrightarrow> stored_ok m"
  using good_rec_stored unfolding wf_store_def stored_ok_def by blast

definition rec_of :: "(string \<rightharpoonup> string) \<Rightarrow> string \<Rightarrow> hbinfo" where
  "rec_of m k = fst (hbinfo_unmarshal (the (m k)) no_hbinfo)"

lemma good_rec_of: "m k = Some v \<Longrightarrow> good_rec k v h \<Longrightarrow> rec_of m k = h"
  by (simp add: rec_of_def good_rec_def complete_def)

lemma rearm_simps [simp]:
  "kvs (rearm_hbcheck_timer s) = kvs s" "notif (rearm_hbcheck_timer s) = notif s"
  "app_params (rearm_hbcheck_timer s) = app_params s" "sm_local (rearm_hbcheck_timer s) = sm_local s"
  "hsm_q (rearm_hbcheck_timer s) = hsm_q s" "staleKeys (rearm_hbcheck_timer s) = staleKeys s"
  "sg_ncomp (rearm_hbcheck_timer s) = sg_ncomp s" "tick (rearm_hbcheck_timer s) = tick s"
  "timers (rearm_hbcheck_timer s) = timers s @
     (if 0 < int_param (check_interval (app_params s))
      then [int64 (int_param (check_interval (app_params s)) * 1000000000)] else [])"
  by (simp_all add: rearm_hbcheck_timer_def)

lemma checker_end_simps:
  assumes "checker_end K sc s = (s', True)"
  shows "notif s' = notif s" "staleKeys s' = False" "app_params s' = app_params s"
    "sm_local s' = sm_local s" "tick s' = tick s" "hsm_q s' = hsm_q s @ [HSMQ_NEW]"
    "sg_ncomp s' = sc_ncomp sc"
    "timers s' = timers s @ (if 0 < int_param (check_interval (app_params s))
      then [int64 (int_param (check_interval (app_params s)) * 1000000000)] else [])"
  using assms by (auto simp: checker_end_def Let_def split: if_splits)

context kvi_store
begin

lemma delete_keys_frame: "k \<notin> set ks \<Longrightarrow> view (delete_keys K ks kv) k = view kv k"
proof (induction ks arbitrary: kv)
  case (Cons d ks)
  then show ?case using delete_frame [of k d kv] by (simp add: delete_keys_def)
qed (simp add: delete_keys_def)

lemma store_keys_frame: "k \<notin> fst ` set us \<Longrightarrow> view (store_keys K us kv) k = view kv k"
proof (induction us arbitrary: kv)
  case (Cons u us)
  then show ?case using store_frame [of k "fst u" "snd u" kv] by (simp add: store_keys_def)
qed (simp add: store_keys_def)

lemma checker_open_some:
  assumes "checker_open K s = (Some kvl, s1)"
  shows "view (kvs s1) = view (kvs s) \<and> s1 = s\<lparr>kvs := kvs s1\<rparr> \<and> distinct (map fst kvl) \<and>
    (\<forall>(k, v) \<in> set kvl. view (kvs s) k = Some v \<and> HB_KEYRANGE_START \<le> k \<and> k \<le> HB_KEYRANGE_END) \<and>
    (\<forall>k v. view (kvs s) k = Some v \<longrightarrow> in_range k \<longrightarrow> (k, v) \<in> set kvl)"
proof -
  define kv1 where "kv1 = (if 0 < int_param (check_interval (app_params s))
    then snd (kv_timed_lock K (int64 (int_param (check_interval (app_params s)) * 2)) (kvs s))
    else kvs s)"
  have v1: "view kv1 = view (kvs s)" by (simp add: kv1_def)
  obtain l err kv2 where r: "kv_get_range K HB_KEYRANGE_START HB_KEYRANGE_END kv1 = ((l, err), kv2)"
    by (metis prod.exhaust)
  have v2: "view kv2 = view (kvs s)" using range_view [of _ _ kv1] r v1 by (metis snd_conv)
  have op: "err = None" "l = kvl" "s1 = s\<lparr>kvs := kv2\<rparr>"
    using assms r by (auto simp: checker_open_def kv1_def Let_def split: if_splits prod.splits)
  note r' = r [unfolded op(1,2)]
  have "distinct (map fst kvl)" by (rule range_distinct [OF r'])
  moreover have "\<forall>(k, v) \<in> set kvl. view (kvs s) k = Some v \<and> HB_KEYRANGE_START \<le> k \<and> k \<le> HB_KEYRANGE_END"
    using range_sound [OF r' hb_range_ok] v1 by auto
  moreover have "\<forall>k v. view (kvs s) k = Some v \<longrightarrow> in_range k \<longrightarrow> (k, v) \<in> set kvl"
    using range_complete [OF r' hb_range_ok] v1 by (auto simp: in_range_def)
  ultimately show ?thesis using op(3) v2 by simp
qed

lemma checker_begin_some:
  assumes "checker_begin K clk s = (Some sc, s1)"
  shows "\<exists>kvl kv2. view kv2 = view (kvs s) \<and> distinct (map fst kvl) \<and>
    (\<forall>(k, v) \<in> set kvl. view (kvs s) k = Some v \<and> HB_KEYRANGE_START \<le> k \<and> k \<le> HB_KEYRANGE_END) \<and>
    (\<forall>k v. view (kvs s) k = Some v \<longrightarrow> in_range k \<longrightarrow> (k, v) \<in> set kvl) \<and>
    check_all clk kvl (init_scan, s\<lparr>kvs := kv2\<rparr>) = (sc, s1)"
proof -
  obtain kvl s0 where op: "checker_open K s = (Some kvl, s0)"
    and ca: "check_all clk kvl (init_scan, s0) = (sc, s1)"
    using assms by (auto simp: checker_begin_def split: prod.splits option.splits)
  have "s0 = s\<lparr>kvs := kvs s0\<rparr>" using checker_open_some [OF op] by blast
  with ca have "check_all clk kvl (init_scan, s\<lparr>kvs := kvs s0\<rparr>) = (sc, s1)" by metis
  with checker_open_some [OF op] show ?thesis by (intro exI [of _ kvl] exI [of _ "kvs s0"]) blast
qed

lemma checker_end_view:
  "checker_end K sc s = (s', b) \<Longrightarrow>
   view (kvs s') = view (store_keys K (sc_update sc) (delete_keys K (sc_delete sc) (kvs s)))"
  by (auto simp: checker_end_def Let_def split: if_splits)

end

text \<open>What the scan collects from a well-formed store.\<close>

context kvi_store
begin

lemma checker_begin_scan:
  assumes wf: "wf_store (view (kvs s))" and beg: "checker_begin K clk s = (Some sc, s1)"
  obtains ks t kv2 where "distinct ks" "view kv2 = view (kvs s)" "\<And>k. tick s \<le> t k"
    and "\<And>k. k \<in> set ks \<Longrightarrow> \<exists>v. view (kvs s) k = Some v \<and> HB_KEYRANGE_START \<le> k \<and>
        k \<le> HB_KEYRANGE_END \<and> good_rec k v (rec_of (view (kvs s)) k)"
    and "\<And>k v. view (kvs s) k = Some v \<Longrightarrow> in_range k \<Longrightarrow> k \<in> set ks"
    and "scan_result ks (rec_of (view (kvs s)))
        (\<lambda>k. verdict_at clk s (t k) (rec_of (view (kvs s)) k)) init_scan (s\<lparr>kvs := kv2\<rparr>) sc s1"
proof -
  let ?m = "view (kvs s)"
  obtain kvl kv2 where v2: "view kv2 = ?m" and dist: "distinct (map fst kvl)"
    and sound: "\<And>k v. (k, v) \<in> set kvl \<Longrightarrow> ?m k = Some v \<and> HB_KEYRANGE_START \<le> k \<and> k \<le> HB_KEYRANGE_END"
    and compl: "\<And>k v. ?m k = Some v \<Longrightarrow> in_range k \<Longrightarrow> (k, v) \<in> set kvl"
    and ca: "check_all clk kvl (init_scan, s\<lparr>kvs := kv2\<rparr>) = (sc, s1)"
    using checker_begin_some [OF beg] by blast
  have good: "good_rec k v (rec_of ?m k)" if kv: "(k, v) \<in> set kvl" for k v
  proof -
    obtain h where "good_rec k v h" using sound [OF kv] wf unfolding wf_store_def by blast
    with good_rec_of [of ?m k v h] sound [OF kv] show ?thesis by simp
  qed
  have np: "k \<noteq> KV_PARAM_KEY" if "(k, v) \<in> set kvl" for k v
    using sound [OF that] params_key_not_in_range by auto
  obtain t where t: "\<forall>k. tick s \<le> t k"
    and sr: "scan_result (map fst kvl) (rec_of ?m)
      (\<lambda>k. verdict_at clk (s\<lparr>kvs := kv2\<rparr>) (t k) (rec_of ?m k)) init_scan (s\<lparr>kvs := kv2\<rparr>) sc s1"
    using check_all_good [OF _ dist ca, of "rec_of ?m"] good np by auto
  have vd: "(\<lambda>k. verdict_at clk (s\<lparr>kvs := kv2\<rparr>) (t k) (rec_of ?m k)) =
      (\<lambda>k. verdict_at clk s (t k) (rec_of ?m k))"
    by (simp add: verdict_at_def fun_eq_iff)
  show ?thesis
  proof (rule that)
    show "distinct (map fst kvl)" by (rule dist)
    show "view kv2 = ?m" by (rule v2)
    show "tick s \<le> t k" for k using t by simp
    show "\<exists>v. ?m k = Some v \<and> HB_KEYRANGE_START \<le> k \<and> k \<le> HB_KEYRANGE_END \<and>
        good_rec k v (rec_of ?m k)" if "k \<in> set (map fst kvl)" for k
      using that sound good by auto
    show "k \<in> set (map fst kvl)" if "?m k = Some v" "in_range k" for k v
      using compl [OF that] by force
    show "scan_result (map fst kvl) (rec_of ?m) (\<lambda>k. verdict_at clk s (t k) (rec_of ?m k))
        init_scan (s\<lparr>kvs := kv2\<rparr>) sc s1"
      using sr unfolding vd .
  qed
qed

end

context kvi_reliable
begin

lemma delete_keys_view: "view (delete_keys K ks kv) k = (if k \<in> set ks then None else view kv k)"
proof (induction ks arbitrary: kv)
  case (Cons d ks)
  then show ?case by (simp add: delete_keys_def view_delete)
qed (simp add: delete_keys_def)

lemma store_keys_view:
  "distinct (map fst us) \<Longrightarrow>
   view (store_keys K us kv) k = (case map_of us k of None \<Rightarrow> view kv k | Some v \<Rightarrow> Some v)"
proof (induction us arbitrary: kv)
  case (Cons u us)
  then have "view (store_keys K (u # us) kv) k = (case map_of us k of
      None \<Rightarrow> view (snd (kv_store K (fst u) (snd u) kv)) k | Some v \<Rightarrow> Some v)"
    by (simp add: store_keys_def)
  moreover have "map_of us (fst u) = None" using Cons.prems by (simp add: map_of_eq_None_iff)
  ultimately show ?case by (cases u) (auto simp: view_store split: option.splits)
qed (simp add: store_keys_def)

end

section \<open>One pass of the checker\<close>

lemma sane_iff:
  "sane h = h \<longleftrightarrow> sanitize (Component h) = Component h \<and>
     sanitize (Last_hb_rcv_time h) = Last_hb_rcv_time h \<and>
     sanitize (Last_hb_timestamp h) = Last_hb_timestamp h \<and>
     sanitize (Last_hb_status h) = Last_hb_status h \<and> sanitize (Had_warning h) = Had_warning h"
  by (cases h) (auto simp: sane_def)

lemma sane_verdict:
  "sane h = h \<Longrightarrow> fst (verdict p stale a b h) = Some h' \<Longrightarrow> sane h' = h'"
  by (auto simp: verdict_def Let_def sane_iff split: if_splits)

lemma verdict_unchanged:
  "fst (verdict p stale a b h) = Some h' \<Longrightarrow> snd (verdict p stale a b h) = None \<Longrightarrow> h' = h"
  by (auto simp: verdict_def Let_def split: if_splits)

lemma verdict_dead_notes: "fst (verdict p stale a b h) = None \<Longrightarrow> snd (verdict p stale a b h) \<noteq> None"
  by (auto simp: verdict_def Let_def split: if_splits)

text \<open>What is left of a record, and what is pending for its component.\<close>

definition kept :: "string \<Rightarrow> hbinfo option \<Rightarrow> string option \<Rightarrow> bool" where
  "kept k ho vo = (case ho of None \<Rightarrow> vo = None | Some h' \<Rightarrow> \<exists>v'. vo = Some v' \<and> good_rec k v' h')"

definition pending_in :: "'s hbtd \<Rightarrow> string \<rightharpoonup> hb_change" where
  "pending_in s = pending (sm_local s) (nt_maps (notif s))"

definition change_or :: "hb_change option \<Rightarrow> int option \<Rightarrow> hb_change option" where
  "change_or old st = (case st of None \<Rightarrow> old | Some st' \<Rightarrow> change_of st')"

text \<open>The sequence counter does not wrap around while every record is notified once.\<close>

definition seq_room :: "(string \<rightharpoonup> string) \<Rightarrow> 's hbtd \<Rightarrow> bool" where
  "seq_room m s \<longleftrightarrow> finite (dom m) \<and> unat (nt_seq (notif s)) + card (dom m) < 2 ^ 64 \<and>
     sender_ok (sm_local s) (nt_maps (notif s)) (nt_seq (notif s))"

text \<open>
  Notifications of the components \<open>ks\<close>: known changes, at most one per component, \<open>st\<close> if any.
\<close>

definition notes_ok :: "string list \<Rightarrow> (string \<Rightarrow> int option) \<Rightarrow> (hbinfo \<times> int) list \<Rightarrow> bool" where
  "notes_ok ks st ns \<longleftrightarrow> (\<forall>(h, c) \<in> set ns. change_of c \<noteq> None) \<and>
     distinct (map (\<lambda>(h, c). Component h) ns) \<and> length ns \<le> length ks \<and>
     (\<forall>x. map_of (map (\<lambda>(h, c). (Component h, c)) ns) x = (if x \<in> set ks then st x else None))"

lemma notes_ok_skip: "notes_ok ks st ns \<Longrightarrow> st k = None \<Longrightarrow> notes_ok (k # ks) st ns"
  by (auto simp: notes_ok_def)

lemma notes_ok_add:
  assumes "notes_ok ks st ns" "k \<notin> set ks" "st k = Some c" "Component h = k" "change_of c \<noteq> None"
  shows "notes_ok (k # ks) st ((h, c) # ns)"
proof -
  have "map_of (map (\<lambda>(h, c). (Component h, c)) ns) k = None" using assms(1,2) by (simp add: notes_ok_def)
  then have "k \<notin> (\<lambda>(h, c). Component h) ` set ns" by (force simp: map_of_eq_None_iff)
  with assms show ?thesis by (auto simp: notes_ok_def)
qed

lemma noted_list:
  assumes "\<And>k. k \<in> set ks \<Longrightarrow> Component (h k) = k" "distinct ks"
    and "\<And>k. k \<in> set ks \<Longrightarrow> \<exists>p b x y. vd k = verdict p b x y (h k)"
  shows "notes_ok ks (\<lambda>k. snd (vd k)) (concat (map (\<lambda>k. noted (h k) (vd k)) ks))"
  using assms
proof (induction ks)
  case (Cons k ks)
  obtain p b a c where vk: "vd k = verdict p b a c (h k)" using Cons.prems(3) [of k] by auto
  have ck: "Component (h k) = k" using Cons.prems(1) by simp
  let ?ns = "concat (map (\<lambda>k. noted (h k) (vd k)) ks)"
  have IH: "notes_ok ks (\<lambda>k. snd (vd k)) ?ns" using Cons.prems by (intro Cons.IH) auto
  show ?case
  proof (cases "snd (vd k)")
    case None
    then have "noted (h k) (vd k) = []" by (simp add: noted_def)
    then show ?thesis using notes_ok_skip [of ks "\<lambda>k. snd (vd k)" _ k, OF IH None] by simp
  next
    case (Some st)
    then obtain h' where n: "noted (h k) (vd k) = [(h', st)]" by (simp add: noted_def)
    then have "Component h' = k \<and> change_of st \<noteq> None"
      using noted_changes [of h' st "h k" p b a c] vk ck by simp
    then show ?thesis
      using notes_ok_add [of ks "\<lambda>k. snd (vd k)" _ k st h', OF IH _ Some] Cons.prems(2) n by simp
  qed
qed (simp add: notes_ok_def)

context kvi_store
begin

text \<open>The first half of a check: what it will delete and update, and what it has notified.\<close>

lemma checker_begin_result:
  assumes wf: "wf_store (view (kvs s))" and beg: "checker_begin K clk s = (Some sc, s1)"
  obtains ks vd ns where "distinct ks"
    and "\<And>k. \<exists>n \<ge> tick s. vd k = verdict_at clk s n (rec_of (view (kvs s)) k)"
    and "\<And>k. k \<in> set ks \<Longrightarrow> \<exists>v. view (kvs s) k = Some v \<and> HB_KEYRANGE_START \<le> k \<and>
        k \<le> HB_KEYRANGE_END \<and> good_rec k v (rec_of (view (kvs s)) k)"
    and "\<And>k v. view (kvs s) k = Some v \<Longrightarrow> in_range k \<Longrightarrow> k \<in> set ks"
    and "sc_delete sc = filter (\<lambda>k. fst (vd k) = None) ks"
    and "sc_update sc = map (\<lambda>k. (k, the (hbinfo_marshal (the (fst (vd k))))))
       (filter (\<lambda>k. fst (vd k) \<noteq> None \<and> snd (vd k) \<noteq> None) ks)"
    and "notes_ok ks (\<lambda>k. snd (vd k)) ns" "notif s1 = notify_all ns (notif s)"
    and "view (kvs s1) = view (kvs s)" "sm_local s1 = sm_local s"
    and "finite (dom (view (kvs s))) \<Longrightarrow> length ns \<le> card (dom (view (kvs s)))"
proof -
  let ?m = "view (kvs s)" and ?h = "rec_of (view (kvs s))"
  obtain ks t kv2 where dist: "distinct ks" and v2: "view kv2 = ?m" and t: "\<And>k. tick s \<le> t k"
    and sound: "\<And>k. k \<in> set ks \<Longrightarrow> \<exists>v. ?m k = Some v \<and> HB_KEYRANGE_START \<le> k \<and>
        k \<le> HB_KEYRANGE_END \<and> good_rec k v (?h k)"
    and compl: "\<And>k v. ?m k = Some v \<Longrightarrow> in_range k \<Longrightarrow> k \<in> set ks"
    and sr0: "scan_result ks ?h (\<lambda>k. verdict_at clk s (t k) (?h k)) init_scan (s\<lparr>kvs := kv2\<rparr>) sc s1"
    by (rule checker_begin_scan [OF wf beg]) blast
  define vd where "vd k = verdict_at clk s (t k) (?h k)" for k
  define ns where "ns = concat (map (\<lambda>k. noted (?h k) (vd k)) ks)"
  have sr: "scan_result ks ?h vd init_scan (s\<lparr>kvs := kv2\<rparr>) sc s1"
    using sr0 by (simp add: vd_def [abs_def])
  obtain n where s1: "s1 = (s\<lparr>kvs := kv2\<rparr>)\<lparr>tick := n, notif := notify_all ns (notif s)\<rparr>"
    using sr unfolding scan_result_def ns_def by auto
  have comps: "Component (?h k) = k" if "k \<in> set ks" for k
    using sound [OF that] by (auto simp: good_rec_def)
  have vds: "\<exists>p b x y. vd k = verdict p b x y (?h k)" for k by (auto simp: vd_def verdict_at_def)
  have nl: "notes_ok ks (\<lambda>k. snd (vd k)) ns"
    unfolding ns_def by (rule noted_list [OF comps dist vds])
  have "set ks \<subseteq> dom ?m" using sound by blast
  then have "length ks \<le> card (dom ?m)" if "finite (dom ?m)"
    using that dist by (metis card_mono distinct_card)
  then have len: "length ns \<le> card (dom ?m)" if "finite (dom ?m)"
    using nl that unfolding notes_ok_def by (meson le_trans)
  show ?thesis
  proof (rule that [of ks vd ns, OF dist _ sound compl _ _ nl _ _ _ len])
    show "\<exists>n \<ge> tick s. vd k = verdict_at clk s n (?h k)" for k using t [of k] by (auto simp: vd_def)
    show "sc_delete sc = filter (\<lambda>k. fst (vd k) = None) ks"
      "sc_update sc = map (\<lambda>k. (k, the (hbinfo_marshal (the (fst (vd k))))))
         (filter (\<lambda>k. fst (vd k) \<noteq> None \<and> snd (vd k) \<noteq> None) ks)"
      using sr by (simp_all add: scan_result_def init_scan_def)
  qed (simp_all add: s1 v2)
qed

end

text \<open>What a verdict keeps is a good record under the same key.\<close>

lemma verdict_kept:
  assumes "good_rec k v h" "vd = verdict p b x y h" "fst vd = Some h'"
  shows "if snd vd = None then h' = h else good_rec k (the (hbinfo_marshal h')) h'"
proof -
  have h: "Component h = k" "sane h = h" using assms(1) by (simp_all add: good_rec_def)
  have f: "fst (verdict p b x y h) = Some h'" using assms(2,3) by simp
  have "good_rec k (the (hbinfo_marshal h')) h'"
    using verdict_component [OF f] sane_verdict [OF h(2) f] complete_marshal [of h'] h(1)
    by (simp add: good_rec_def)
  moreover have "snd vd = None \<Longrightarrow> h' = h" using verdict_unchanged [OF f] assms(2) by simp
  ultimately show ?thesis by simp
qed

context kvi_reliable
begin

text \<open>What the second half does to the store, for the scan of a good store.\<close>

lemma checker_end_store:
  assumes fin: "checker_end K sc s1 = (s', b)" and dist: "distinct ks"
    and dels: "sc_delete sc = filter (\<lambda>k. fst (vd k) = None) ks"
    and upds: "sc_update sc = map (\<lambda>k. (k, the (hbinfo_marshal (the (fst (vd k))))))
       (filter (\<lambda>k. fst (vd k) \<noteq> None \<and> snd (vd k) \<noteq> None) ks)"
  shows "view (kvs s') k =
    (if k \<notin> set ks then view (kvs s1) k
     else case vd k of (None, _) \<Rightarrow> None | (Some h, None) \<Rightarrow> view (kvs s1) k
       | (Some h, Some st) \<Rightarrow> Some (the (hbinfo_marshal h)))"
proof -
  have us_dist: "distinct (map fst (sc_update sc))" using dist by (simp add: upds comp_def)
  have us_of: "map_of (sc_update sc) k = (if k \<in> set ks \<and> fst (vd k) \<noteq> None \<and> snd (vd k) \<noteq> None
      then Some (the (hbinfo_marshal (the (fst (vd k))))) else None)"
    unfolding upds by (subst map_of_map_restrict) (auto simp: restrict_map_def)
  have "view (kvs s') k = (case map_of (sc_update sc) k of
      None \<Rightarrow> if k \<in> set (sc_delete sc) then None else view (kvs s1) k | Some v \<Rightarrow> Some v)"
    using checker_end_view [OF fin]
    by (simp add: store_keys_view [OF us_dist] delete_keys_view split: option.splits)
  then show ?thesis by (auto simp: us_of dels split: prod.splits option.splits)
qed

lemma pass_effect:
  assumes wf: "wf_store (view (kvs s))" and room: "seq_room (view (kvs s)) s"
    and beg: "checker_begin K clk s = (Some sc, s1)" and fin: "checker_end K sc s1 = (s', True)"
  shows "in_range k \<Longrightarrow> view (kvs s) k = Some v \<Longrightarrow> good_rec k v h \<Longrightarrow>
      \<exists>n \<ge> tick s. kept k (fst (verdict_at clk s n h)) (view (kvs s') k) \<and>
        pending_in s' k = change_or (pending_in s k) (snd (verdict_at clk s n h))"
    and "view (kvs s) k = None \<or> \<not> (HB_KEYRANGE_START \<le> k \<and> k \<le> HB_KEYRANGE_END) \<Longrightarrow>
      view (kvs s') k = view (kvs s) k \<and> pending_in s' k = pending_in s k"
proof -
  let ?m = "view (kvs s)"
  obtain ks vd ns where dist: "distinct ks"
    and vd: "\<And>k. \<exists>n \<ge> tick s. vd k = verdict_at clk s n (rec_of ?m k)"
    and sound: "\<And>k. k \<in> set ks \<Longrightarrow> \<exists>v. ?m k = Some v \<and> HB_KEYRANGE_START \<le> k \<and>
        k \<le> HB_KEYRANGE_END \<and> good_rec k v (rec_of ?m k)"
    and compl: "\<And>k v. ?m k = Some v \<Longrightarrow> in_range k \<Longrightarrow> k \<in> set ks"
    and lists: "sc_delete sc = filter (\<lambda>k. fst (vd k) = None) ks"
      "sc_update sc = map (\<lambda>k. (k, the (hbinfo_marshal (the (fst (vd k))))))
         (filter (\<lambda>k. fst (vd k) \<noteq> None \<and> snd (vd k) \<noteq> None) ks)"
    and nl: "notes_ok ks (\<lambda>k. snd (vd k)) ns" and nf: "notif s1 = notify_all ns (notif s)"
    and s1: "view (kvs s1) = ?m" "sm_local s1 = sm_local s"
    and len: "finite (dom ?m) \<Longrightarrow> length ns \<le> card (dom ?m)"
    by (rule checker_begin_result [OF wf beg]) blast
  note final = checker_end_store [OF fin dist lists, unfolded s1]
  have "unat (nt_seq (notif s)) + length ns < 2 ^ 64"
    using room len unfolding seq_room_def by linarith
  then have pend: "pending_in s' k = change_or (pending_in s k) (if k \<in> set ks then snd (vd k) else None)" for k
    using notify_all_pending [of "sm_local s" "notif s" ns] room nl checker_end_simps(1,4) [OF fin] nf s1
    by (auto simp: seq_room_def notes_ok_def pending_in_def change_or_def split: option.splits)
  {
    assume k: "in_range k" "?m k = Some v" "good_rec k v h"
    have h: "rec_of ?m k = h" by (rule good_rec_of [of ?m k v h, OF k(2,3)])
    obtain n where n: "tick s \<le> n" "vd k = verdict_at clk s n h" using vd [of k] h by auto
    have ks: "k \<in> set ks" by (rule compl [OF k(2,1)])
    note vk = verdict_kept [OF k(3) n(2) [unfolded verdict_at_def]]
    have "kept k (fst (vd k)) (view (kvs s') k)"
    proof (cases "vd k")
      case (Pair a b)
      then show ?thesis
        using final [of k] ks k(2,3) vk [of "the a"] by (cases a; cases b) (simp_all add: kept_def)
    qed
    then show "\<exists>n \<ge> tick s. kept k (fst (verdict_at clk s n h)) (view (kvs s') k) \<and>
        pending_in s' k = change_or (pending_in s k) (snd (verdict_at clk s n h))"
      using pend [of k] ks n by auto
  }
  assume "?m k = None \<or> \<not> (HB_KEYRANGE_START \<le> k \<and> k \<le> HB_KEYRANGE_END)"
  then have "k \<notin> set ks" using sound by force
  then show "view (kvs s') k = ?m k \<and> pending_in s' k = pending_in s k"
    using pend [of k] final [of k] by (simp add: change_or_def)
qed

end

section \<open>What is stored stays well-formed\<close>

lemma stored_ok_upd:
  assumes "stored_ok m" "m' = m \<or> m' = m(k := None) \<or> (\<exists>v h. m' = m(k \<mapsto> v) \<and> stored_rec k v h)"
  shows "stored_ok m'"
  using assms(2)
proof (elim disjE exE conjE)
  assume "m' = m(k := None)"
  with assms(1) show ?thesis by (auto simp: stored_ok_def)
next
  fix v h assume "m' = m(k \<mapsto> v)" "stored_rec k v h"
  with assms(1) show ?thesis by (auto simp: stored_ok_def)
qed (use assms(1) in simp)

context kvi_store
begin

lemma delete_keys_stored: "stored_ok (view kv) \<Longrightarrow> stored_ok (view (delete_keys K ks kv))"
proof (induction ks arbitrary: kv)
  case (Cons k ks)
  have "stored_ok (view (snd (kv_delete K k kv)))"
    by (rule stored_ok_upd [OF Cons.prems, of _ k])
      (use delete_view [of k kv] in \<open>cases "kv_delete K k kv"; auto\<close>)
  then show ?case using Cons.IH by (simp add: delete_keys_def)
qed (simp add: delete_keys_def)

lemma store_keys_stored:
  "stored_ok (view kv) \<Longrightarrow> \<forall>(k, v) \<in> set us. \<exists>h. good_rec k v h \<Longrightarrow>
   stored_ok (view (store_keys K us kv))"
proof (induction us arbitrary: kv)
  case (Cons u us)
  obtain k v where u: "u = (k, v)" by (cases u)
  obtain h where h: "stored_rec k v h" using Cons.prems(2) good_rec_stored by (auto simp: u)
  obtain e kv' where st: "kv_store K k v kv = (e, kv')" by (metis prod.exhaust)
  have "stored_ok (view kv')"
    by (rule stored_ok_upd [OF Cons.prems(1), of _ k]) (use store_view [OF st] h in auto)
  then show ?case using Cons.IH [of kv'] Cons.prems(2) st by (simp add: store_keys_def u)
qed (simp add: store_keys_def)

lemma checker_begin_none_view:
  "checker_begin K clk s = (None, s1) \<Longrightarrow> view (kvs s1) = view (kvs s)"
  using range_view
  by (auto simp: checker_begin_def checker_open_def Let_def split: if_splits prod.splits)
    (metis snd_conv lock_view range_view unlock_view)+

lemma checker_end_stored:
  assumes "stored_ok (view (kvs s))" "\<forall>(k, v) \<in> set (sc_update sc). \<exists>h. good_rec k v h"
    and "checker_end K sc s = (s', b)"
  shows "stored_ok (view (kvs s'))"
  unfolding checker_end_view [OF assms(3)] by (intro store_keys_stored delete_keys_stored assms(1,2))

lemma updateHB_stored:
  assumes "stored_ok (view (kvs s))" "updateHB K clk errinst x ts st w s = (w', s')"
  shows "stored_ok (view (kvs s'))"
proof (cases "HB_KEYRANGE_START \<le> x \<and> x \<le> HB_KEYRANGE_END")
  case True
  have "\<exists>h. stored_rec x v h"
    if "complete v (sane (beat (clk (tick s)) ts st hbb))"
      "hbb = no_hbinfo\<lparr>Component := x\<rparr> \<or>
        (\<exists>v0. view (kvs s) x = Some v0 \<and> hbinfo_unmarshal v0 no_hbinfo = (hbb, True))" for v hbb
  proof -
    have "sanitize (Component hbb) = sanitize x"
      using that(2)
    proof (elim disjE exE conjE)
      fix v0 assume v0: "view (kvs s) x = Some v0" "hbinfo_unmarshal v0 no_hbinfo = (hbb, True)"
      then obtain h where "stored_rec x v0 h" using assms(1) True by (auto simp: stored_ok_def)
      with v0(2) show ?thesis by (simp add: stored_rec_def complete_def)
    qed simp
    with that(1) show ?thesis
      by (intro exI [of _ "sane (beat (clk (tick s)) ts st hbb)"]) (simp add: stored_rec_def)
  qed
  then show ?thesis
    using updateHB_written [OF assms(2)] by (intro stored_ok_upd [OF assms(1), of _ x]) blast
next
  case False
  then show ?thesis
    using updateHB_written [OF assms(2)] assms(1) by (auto simp: stored_ok_def split: if_splits)
qed

end

section \<open>One delete or update at a time\<close>

text \<open>One iteration of the loops over \<open>deleteKeys\<close> and \<open>updateKeys\<close>; \<open>None\<close> when both are done.\<close>

definition check_apply :: "'s kvi \<Rightarrow> scan \<Rightarrow> 's hbtd \<Rightarrow> (scan \<times> 's hbtd) option" where
  "check_apply K sc s =
     (case sc_delete sc of
        k # ks \<Rightarrow> Some (sc\<lparr>sc_delete := ks\<rparr>, s\<lparr>kvs := snd (kv_delete K k (kvs s))\<rparr>)
      | [] \<Rightarrow> (case sc_update sc of
                 u # us \<Rightarrow> Some (sc\<lparr>sc_update := us\<rparr>, s\<lparr>kvs := snd (kv_store K (fst u) (snd u) (kvs s))\<rparr>)
               | [] \<Rightarrow> None))"

lemma check_apply_cases:
  assumes "check_apply K sc s = Some (sc', s')"
  obtains (delete) k ks where "sc_delete sc = k # ks" "sc' = sc\<lparr>sc_delete := ks\<rparr>"
      "s' = s\<lparr>kvs := snd (kv_delete K k (kvs s))\<rparr>"
    | (update) u us where "sc_delete sc = []" "sc_update sc = u # us" "sc' = sc\<lparr>sc_update := us\<rparr>"
      "s' = s\<lparr>kvs := snd (kv_store K (fst u) (snd u) (kvs s))\<rparr>"
  using assms by (cases "sc_delete sc"; cases "sc_update sc") (simp_all add: check_apply_def)

lemma checker_end_apply:
  assumes "check_apply K sc s = Some (sc', s')"
  shows "checker_end K sc' s' = checker_end K sc s"
  using assms
  by (cases rule: check_apply_cases)
    (simp_all add: checker_end_def delete_keys_def store_keys_def Let_def)

section \<open>What a check leaves alone\<close>

lemma check_one_frame [simp]:
  "app_params (snd (check_one clk kv st)) = app_params (snd st)"
  "timers (snd (check_one clk kv st)) = timers (snd st)"
  "hsm_q (snd (check_one clk kv st)) = hsm_q (snd st)"
  "kvs (snd (check_one clk kv st)) = kvs (snd st)"
  "sm_local (snd (check_one clk kv st)) = sm_local (snd st)"
  by (simp_all add: check_one_def Let_def read_clock_def split: prod.splits)

lemma check_all_frame:
  "app_params (snd (check_all clk kvl st)) = app_params (snd st) \<and>
   timers (snd (check_all clk kvl st)) = timers (snd st) \<and>
   hsm_q (snd (check_all clk kvl st)) = hsm_q (snd st)"
  by (induction kvl arbitrary: st) (simp_all add: check_all_def)

lemma checker_begin_frame:
  "checker_begin K clk s = (sco, s1) \<Longrightarrow> app_params s1 = app_params s \<and> hsm_q s1 = hsm_q s \<and>
     timers s1 = timers s @ (if sco = None \<and> 0 < int_param (check_interval (app_params s))
       then [int64 (int_param (check_interval (app_params s)) * 1000000000)] else [])"
  by (auto simp: checker_begin_def checker_open_def Let_def split_beta check_all_frame split: if_splits)

lemma checker_open_frame:
  "checker_open K s = (kvlo, s1) \<Longrightarrow> app_params s1 = app_params s \<and> hsm_q s1 = hsm_q s \<and>
     notif s1 = notif s \<and> sm_local s1 = sm_local s \<and>
     timers s1 = timers s @ (if kvlo = None \<and> 0 < int_param (check_interval (app_params s))
       then [int64 (int_param (check_interval (app_params s)) * 1000000000)] else [])"
  by (auto simp: checker_open_def Let_def split_beta split: if_splits)

lemma checker_begin_open:
  "checker_begin K clk s = (None, s1) \<longleftrightarrow> checker_open K s = (None, s1)"
  "checker_begin K clk s = (Some sc, s2) \<longleftrightarrow>
     (\<exists>kvl s1. checker_open K s = (Some kvl, s1) \<and> check_all clk kvl (init_scan, s1) = (sc, s2))"
  by (auto simp: checker_begin_def split: prod.splits option.splits)

end
