(* ===== verification/Checker_Passes.thy ===== *)
theory Checker_Passes
  imports Checker
begin

text \<open>
  What a check that runs to its end does to each component: \<open>hb_checker\<close> on a store that does not
  fail, against the verdict on the component's own record.
\<close>

section \<open>Clean passes\<close>

text \<open>
  A check that this instance runs to its end, on a store that does not fail and whose tracked
  records are good, with room in the sequence counter.
\<close>

definition clean_pass ::
  "'s kvi \<Rightarrow> ('s \<Rightarrow> string \<rightharpoonup> string) \<Rightarrow> clock \<Rightarrow> 's hbtd \<Rightarrow> 's hbtd \<Rightarrow> bool" where
  "clean_pass K view clk s s' \<longleftrightarrow>
     kvi_reliable K view \<and> wf_store (view (kvs s)) \<and> seq_room (view (kvs s)) s \<and>
     fst (checker_begin K clk s) \<noteq> None \<and> hb_checker K clk s = (s', True)"

lemma clean_pass_effect:
  assumes "clean_pass K view clk s s'"
  shows "in_range k \<Longrightarrow> view (kvs s) k = Some v \<Longrightarrow> good_rec k v h \<Longrightarrow>
      \<exists>n \<ge> tick s. kept k (fst (verdict_at clk s n h)) (view (kvs s') k) \<and>
        pending_in s' k = change_or (pending_in s k) (snd (verdict_at clk s n h))"
    and "view (kvs s) k = None \<or> \<not> (HB_KEYRANGE_START \<le> k \<and> k \<le> HB_KEYRANGE_END) \<Longrightarrow>
      view (kvs s') k = view (kvs s) k \<and> pending_in s' k = pending_in s k"
proof -
  obtain sc s1 where beg: "checker_begin K clk s = (Some sc, s1)"
    using assms by (cases "checker_begin K clk s") (auto simp: clean_pass_def)
  then have fin: "checker_end K sc s1 = (s', True)"
    using assms by (simp add: clean_pass_def hb_checker_def)
  have c: "kvi_reliable K view" "wf_store (view (kvs s))" "seq_room (view (kvs s)) s"
    using assms by (simp_all add: clean_pass_def)
  note pass = kvi_reliable.pass_effect [OF c beg fin]
  show "in_range k \<Longrightarrow> view (kvs s) k = Some v \<Longrightarrow> good_rec k v h \<Longrightarrow>
      \<exists>n \<ge> tick s. kept k (fst (verdict_at clk s n h)) (view (kvs s') k) \<and>
        pending_in s' k = change_or (pending_in s k) (snd (verdict_at clk s n h))"
    by (rule pass(1))
  show "view (kvs s) k = None \<or> \<not> (HB_KEYRANGE_START \<le> k \<and> k \<le> HB_KEYRANGE_END) \<Longrightarrow>
      view (kvs s') k = view (kvs s) k \<and> pending_in s' k = pending_in s k"
    by (rule pass(2))
qed

text \<open>How late a component is at a reading of the clock.\<close>

definition overdue :: "clock \<Rightarrow> nat \<Rightarrow> hbinfo \<Rightarrow> int" where
  "overdue clk n h = int64 (clk n - parse_time (Last_hb_rcv_time h))"

lemma verdict_dead:
  "int_param (errtime (app_params s)) \<le> overdue clk n h \<Longrightarrow> \<not> staleKeys s \<Longrightarrow>
   verdict_at clk s n h = (None, Some HB_stopped_error)"
  by (simp add: verdict_at_def verdict_def overdue_def)

lemma verdict_gap:
  "int_param (errtime (app_params s)) \<le> overdue clk n h \<Longrightarrow> staleKeys s \<Longrightarrow>
   verdict_at clk s n h = (Some (h\<lparr>Last_hb_rcv_time := format_time (clk (n + 1)),
     Had_warning := HB_WARN_GAP\<rparr>), Some HB_stopped_warn)"
  by (simp add: verdict_at_def verdict_def overdue_def)

lemma verdict_warn:
  "overdue clk n h < int_param (errtime (app_params s)) \<Longrightarrow>
   int_param (warntime (app_params s)) \<le> overdue clk n h \<Longrightarrow>
   verdict_at clk s n h =
     (if Had_warning h = HB_WARN_NONE
      then (Some (h\<lparr>Had_warning := HB_WARN_NORMAL\<rparr>), Some HB_stopped_warn) else (Some h, None))"
  by (simp add: verdict_at_def verdict_def overdue_def Let_def not_le)

lemma verdict_timely:
  "overdue clk n h < int_param (errtime (app_params s)) \<Longrightarrow>
   overdue clk n h < int_param (warntime (app_params s)) \<Longrightarrow>
   verdict_at clk s n h =
     (if Had_warning h = HB_WARN_NORMAL
      then (Some (h\<lparr>Had_warning := HB_WARN_NONE\<rparr>), Some HB_restarted_warn) else (Some h, None))"
  by (simp add: verdict_at_def verdict_def overdue_def Let_def not_le)

text \<open>A store with one record.\<close>

definition sample_rec :: "string \<Rightarrow> hbinfo" where
  "sample_rec had = \<lparr>Component = ''x0'', Last_hb_rcv_time = format_time 100,
     Last_hb_timestamp = ''now'', Last_hb_status = ''OK'', Had_warning = had\<rparr>"

definition sample_store :: "string \<Rightarrow> mem hbtd" where
  "sample_store had = sample_state (gm_set ''x0'' (the (hbinfo_marshal (sample_rec had))) gm_empty)"

lemma sample_good: "ascii had \<Longrightarrow> good_rec ''x0'' (the (hbinfo_marshal (sample_rec had))) (sample_rec had)"
proof -
  assume "ascii had"
  then have "hbinfo_ascii (sample_rec had)"
    by (simp add: hbinfo_ascii_def sample_rec_def) (simp add: ascii_def)
  with complete_marshal [of "sample_rec had"] sane_id [of "sample_rec had"] show ?thesis
    by (simp add: good_rec_def) (simp add: sample_rec_def)
qed

lemma sample_view:
  "mem_view (kvs (sample_store had)) = [''x0'' \<mapsto> the (hbinfo_marshal (sample_rec had))]"
  by (auto simp: sample_store_def sample_state_def mem_view_def gm_empty_def fun_eq_iff)

lemma sample_in_range: "in_range ''x0''"
  by (simp add: in_range_def HB_KEYRANGE_START_def HB_KEYRANGE_END_def)

lemma mem_checker_begin: "\<exists>sc s1. checker_begin mem_kvi clk s = (Some sc, s1)"
  by (simp add: checker_begin_def checker_open_def mem_kvi_def mem_get_range_def Let_def split: prod.splits)

lemma sample_pass:
  assumes "ascii had"
  shows "\<exists>s'. clean_pass mem_kvi mem_view clk (sample_store had) s'"
proof -
  let ?s = "sample_store had"
  obtain sc s1 where beg: "checker_begin mem_kvi clk ?s = (Some sc, s1)" using mem_checker_begin by blast
  have "hsm_q s1 = []" using checker_begin_frame [OF beg] by (simp add: sample_store_def sample_state_def)
  then obtain s' where "hb_checker mem_kvi clk ?s = (s', True)"
    using beg by (simp add: hb_checker_def checker_end_def Let_def hsmUpdateQ_cap_def)
  moreover have "wf_store (mem_view (kvs ?s))"
    using sample_good [OF assms] by (auto simp: wf_store_def sample_view split: if_splits)
  moreover have "seq_room (mem_view (kvs ?s)) ?s"
    by (simp add: seq_room_def sample_view) (simp add: sample_store_def sample_state_def init_notify_def)
  ultimately show ?thesis using beg mem.kvi_reliable_axioms by (auto simp: clean_pass_def)
qed

lemma sample_overdue: "clock_ok t \<Longrightarrow> overdue (\<lambda>n. t) n (sample_rec had) = int64 (t - 100)"
proof -
  have "parse_time (format_time 100) = 100" by (rule parse_format_time) (simp add: clock_ok_def)
  then show ?thesis by (simp add: overdue_def sample_rec_def)
qed

lemma sample_int64: "- 1000 < (x::int) \<Longrightarrow> x < 1000 \<Longrightarrow> int64 x = x"
  by (rule int64_id) (simp add: fits_int64_def)

lemma sample_params [simp]:
  "int_param (errtime (app_params (sample_store had))) = 30"
  "int_param (warntime (app_params (sample_store had))) = 10"
  "int_param (check_interval (app_params (sample_store had))) = 5"
  "staleKeys (sample_store had) = False" "pending_in (sample_store had) = (\<lambda>x. None)"
  by (simp_all add: sample_store_def sample_state_def initAppParams_def int_app_def pending_in_def
      init_notify_def)

section \<open>Properties\<close>

text \<open>
  C1: The refinement of the check. A clean pass, with its loop variable shared between
  records, its collected deletes and updates and its sequence of notifications, does to every
  tracked component what the verdict on its own record says, at some reading of the clock
  during the pass: the record is deleted or kept with the new warning flag, and the change to
  be told to the State Manager is the verdict's, or the one pending before.
\<close>

theorem checker_refines_verdict:
  assumes "clean_pass K view clk s s'" "in_range k" "view (kvs s) k = Some v" "good_rec k v h"
  shows "\<exists>n \<ge> tick s. \<exists>vd. vd = verdict (app_params s) (staleKeys s) (clk n) (clk (n + 1)) h \<and>
    kept k (fst vd) (view (kvs s') k) \<and> pending_in s' k = change_or (pending_in s k) (snd vd)"
  using clean_pass_effect(1) [OF assms] by (simp add: verdict_at_def)

theorem checker_refines_verdict_witness:
  "\<exists>s'. clean_pass mem_kvi mem_view (\<lambda>n. 115) (sample_store HB_WARN_NONE) s' \<and>
    pending_in s' ''x0'' = Some StopWarn"
proof -
  obtain s' where p: "clean_pass mem_kvi mem_view (\<lambda>n. 115) (sample_store HB_WARN_NONE) s'"
    using sample_pass by (metis ascii_warnings(1))
  have "int64 (115 - parse_time (Last_hb_rcv_time (sample_rec HB_WARN_NONE))) = 15"
    using sample_overdue [of 115] by (simp add: overdue_def clock_ok_def sample_int64)
  then have vd: "snd (verdict (app_params (sample_store HB_WARN_NONE)) (staleKeys (sample_store HB_WARN_NONE))
      115 115 (sample_rec HB_WARN_NONE)) = Some HB_stopped_warn"
    by (simp add: verdict_def) (simp add: sample_rec_def)
  from checker_refines_verdict [OF p sample_in_range _ sample_good [OF ascii_warnings(1)]] vd
  have "pending_in s' ''x0'' = change_or None (Some HB_stopped_warn)"
    by (auto simp: sample_view)
  then show ?thesis using p by (auto simp: change_or_def)
qed

text \<open>What a pass in time does, for the properties below and for records that were written late.\<close>

lemma timely_kept:
  assumes "clean_pass K view clk s s'" "in_range k" "view (kvs s) k = Some v" "good_rec k v h"
    and "\<forall>n \<ge> tick s. overdue clk n h < int_param (warntime (app_params s)) \<and>
      overdue clk n h < int_param (errtime (app_params s))"
  shows "(\<exists>v'. view (kvs s') k = Some v' \<and> good_rec k v'
      (if Had_warning h = HB_WARN_NORMAL then h\<lparr>Had_warning := HB_WARN_NONE\<rparr> else h)) \<and>
    pending_in s' k = (if Had_warning h = HB_WARN_NORMAL then Some Restarted else pending_in s k)"
proof -
  obtain n where "tick s \<le> n" "kept k (fst (verdict_at clk s n h)) (view (kvs s') k)"
    "pending_in s' k = change_or (pending_in s k) (snd (verdict_at clk s n h))"
    using clean_pass_effect(1) [OF assms(1-4)] by blast
  moreover from this assms(5) have "verdict_at clk s n h =
      (if Had_warning h = HB_WARN_NORMAL
       then (Some (h\<lparr>Had_warning := HB_WARN_NONE\<rparr>), Some HB_restarted_warn) else (Some h, None))"
    by (simp add: verdict_timely)
  ultimately show ?thesis by (simp add: kept_def change_or_def split: if_splits)
qed

lemma dead_removed:
  assumes "clean_pass K view clk s s'" "in_range k" "view (kvs s) k = Some v" "good_rec k v h"
    and "\<not> staleKeys s" "\<forall>n \<ge> tick s. int_param (errtime (app_params s)) \<le> overdue clk n h"
  shows "view (kvs s') k = None \<and> pending_in s' k = Some StopError"
proof -
  obtain n where "tick s \<le> n" "kept k (fst (verdict_at clk s n h)) (view (kvs s') k)"
    "pending_in s' k = change_or (pending_in s k) (snd (verdict_at clk s n h))"
    using clean_pass_effect(1) [OF assms(1-4)] by blast
  moreover from this assms(5,6) have "verdict_at clk s n h = (None, Some HB_stopped_error)"
    by (simp add: verdict_dead)
  ultimately show ?thesis by (simp add: kept_def change_or_def)
qed

text \<open>
  A component that has been silent for the error time is declared dead: a clean pass,
  outside a monitoring gap, deletes its record and leaves the stop error to be told.
\<close>

theorem dead_component_removed:
  assumes "clean_pass K view clk s s'" "in_range k" "view (kvs s) k = Some v" "good_rec k v h"
    and "\<not> staleKeys s" "\<forall>n \<ge> tick s. int_param (errtime (app_params s)) \<le> overdue clk n h"
  shows "view (kvs s') k = None \<and> pending_in s' k = Some StopError"
  by (rule dead_removed [OF assms])

theorem dead_component_removed_witness:
  "\<exists>s'. hb_checker mem_kvi (\<lambda>n. 200) (sample_store HB_WARN_NORMAL) = (s', True) \<and>
    mem_view (kvs s') ''x0'' = None \<and> pending_in s' ''x0'' = Some StopError"
proof -
  obtain s' where p: "clean_pass mem_kvi mem_view (\<lambda>n. 200) (sample_store HB_WARN_NORMAL) s'"
    using sample_pass by (metis ascii_warnings(2))
  have "\<forall>n \<ge> tick (sample_store HB_WARN_NORMAL). int_param (errtime (app_params (sample_store HB_WARN_NORMAL)))
      \<le> overdue (\<lambda>n. 200) n (sample_rec HB_WARN_NORMAL)"
    by (simp add: sample_overdue clock_ok_def sample_int64)
  with dead_component_removed [OF p sample_in_range _ sample_good [OF ascii_warnings(2)]]
  have "mem_view (kvs s') ''x0'' = None \<and> pending_in s' ''x0'' = Some StopError"
    by (simp add: sample_view)
  with p show ?thesis by (auto simp: clean_pass_def)
qed

text \<open>
  C8: A component whose last heartbeat is younger than the warning time and younger than the error
  time, at every reading of the clock by the pass, is not reported stopped by it: a clean pass keeps
  its record, and the only thing it may announce is the restart of a component that had been
  warned about, whose warning it clears. Both times matter: a PATCH may set the error time to no
  more than the warning time, and the error time is looked at first.
\<close>

theorem timely_component_kept:
  assumes "clean_pass K view clk s s'" "in_range k" "view (kvs s) k = Some v" "good_rec k v h"
    and "\<forall>n \<ge> tick s. overdue clk n h < int_param (warntime (app_params s)) \<and>
      overdue clk n h < int_param (errtime (app_params s))"
  shows "(\<exists>v'. view (kvs s') k = Some v' \<and> good_rec k v'
      (if Had_warning h = HB_WARN_NORMAL then h\<lparr>Had_warning := HB_WARN_NONE\<rparr> else h)) \<and>
    pending_in s' k = (if Had_warning h = HB_WARN_NORMAL then Some Restarted else pending_in s k)"
  by (rule timely_kept [OF assms])

theorem timely_component_kept_witness:
  "\<exists>s'. hb_checker mem_kvi (\<lambda>n. 105) (sample_store HB_WARN_NORMAL) = (s', True) \<and>
    mem_view (kvs s') ''x0'' \<noteq> None \<and> pending_in s' ''x0'' = Some Restarted"
proof -
  obtain s' where p: "clean_pass mem_kvi mem_view (\<lambda>n. 105) (sample_store HB_WARN_NORMAL) s'"
    using sample_pass by (metis ascii_warnings(2))
  have "\<forall>n \<ge> tick (sample_store HB_WARN_NORMAL).
      overdue (\<lambda>n. 105) n (sample_rec HB_WARN_NORMAL) < int_param (warntime (app_params (sample_store HB_WARN_NORMAL))) \<and>
      overdue (\<lambda>n. 105) n (sample_rec HB_WARN_NORMAL) < int_param (errtime (app_params (sample_store HB_WARN_NORMAL)))"
    by (simp add: sample_overdue clock_ok_def sample_int64)
  with timely_component_kept [OF p sample_in_range _ sample_good [OF ascii_warnings(2)]]
  have "mem_view (kvs s') ''x0'' \<noteq> None \<and> pending_in s' ''x0'' = Some Restarted"
    by (auto simp: sample_view) (simp_all add: sample_rec_def)
  with p show ?thesis by (auto simp: clean_pass_def)
qed

text \<open>
  A component is warned about once: between the warning and the error time, a clean pass
  changes the record and what is pending only if there was no warning yet.
\<close>

theorem warned_once:
  assumes "clean_pass K view clk s s'" "in_range k" "view (kvs s) k = Some v" "good_rec k v h"
    and "\<forall>n \<ge> tick s. int_param (warntime (app_params s)) \<le> overdue clk n h \<and>
      overdue clk n h < int_param (errtime (app_params s))"
  shows "(\<exists>v'. view (kvs s') k = Some v' \<and> good_rec k v'
      (if Had_warning h = HB_WARN_NONE then h\<lparr>Had_warning := HB_WARN_NORMAL\<rparr> else h)) \<and>
    pending_in s' k = (if Had_warning h = HB_WARN_NONE then Some StopWarn else pending_in s k)"
proof -
  obtain n where "tick s \<le> n" "kept k (fst (verdict_at clk s n h)) (view (kvs s') k)"
    "pending_in s' k = change_or (pending_in s k) (snd (verdict_at clk s n h))"
    using clean_pass_effect(1) [OF assms(1-4)] by blast
  moreover from this assms(5) have "verdict_at clk s n h =
      (if Had_warning h = HB_WARN_NONE
       then (Some (h\<lparr>Had_warning := HB_WARN_NORMAL\<rparr>), Some HB_stopped_warn) else (Some h, None))"
    by (simp add: verdict_warn)
  ultimately show ?thesis by (simp add: kept_def change_or_def split: if_splits)
qed

theorem warned_once_witness:
  "\<exists>s'. hb_checker mem_kvi (\<lambda>n. 115) (sample_store HB_WARN_NORMAL) = (s', True) \<and>
    mem_view (kvs s') ''x0'' \<noteq> None \<and> pending_in s' ''x0'' = None"
proof -
  obtain s' where p: "clean_pass mem_kvi mem_view (\<lambda>n. 115) (sample_store HB_WARN_NORMAL) s'"
    using sample_pass by (metis ascii_warnings(2))
  have "\<forall>n \<ge> tick (sample_store HB_WARN_NORMAL).
      int_param (warntime (app_params (sample_store HB_WARN_NORMAL))) \<le> overdue (\<lambda>n. 115) n (sample_rec HB_WARN_NORMAL) \<and>
      overdue (\<lambda>n. 115) n (sample_rec HB_WARN_NORMAL) < int_param (errtime (app_params (sample_store HB_WARN_NORMAL)))"
    by (simp add: sample_overdue clock_ok_def sample_int64)
  with warned_once [OF p sample_in_range _ sample_good [OF ascii_warnings(2)]]
  have "mem_view (kvs s') ''x0'' \<noteq> None \<and> pending_in s' ''x0'' = None"
    by (auto simp: sample_view) (simp_all add: sample_rec_def)
  with p show ?thesis by (auto simp: clean_pass_def)
qed

text \<open>
  After a time with no instance running, nobody is declared dead by the first check: a
  clean pass with \<open>staleKeys\<close> set keeps an overdue component, restarts its time, marks it with
  the gap warning and tells a stop warning; the flag is cleared, so the next check judges
  normally.
\<close>

theorem gap_spares_components:
  assumes "clean_pass K view clk s s'" "in_range k" "view (kvs s) k = Some v" "good_rec k v h"
    and "staleKeys s" "\<forall>n \<ge> tick s. int_param (errtime (app_params s)) \<le> overdue clk n h"
  shows "(\<exists>n > tick s. \<exists>v'. view (kvs s') k = Some v' \<and> good_rec k v'
      (h\<lparr>Last_hb_rcv_time := format_time (clk n), Had_warning := HB_WARN_GAP\<rparr>)) \<and>
    pending_in s' k = Some StopWarn \<and> \<not> staleKeys s'"
proof -
  obtain n where n: "tick s \<le> n" "kept k (fst (verdict_at clk s n h)) (view (kvs s') k)"
    "pending_in s' k = change_or (pending_in s k) (snd (verdict_at clk s n h))"
    using clean_pass_effect(1) [OF assms(1-4)] by blast
  note vd = verdict_gap [of s clk n h, OF assms(6) [rule_format, OF n(1)] assms(5)]
  have "\<not> staleKeys s'"
    using assms(1) checker_end_simps(2)
    by (auto simp: clean_pass_def hb_checker_def split: prod.splits option.splits)
  moreover have "\<exists>m > tick s. \<exists>v'. view (kvs s') k = Some v' \<and> good_rec k v'
      (h\<lparr>Last_hb_rcv_time := format_time (clk m), Had_warning := HB_WARN_GAP\<rparr>)"
    using n(1,2) vd by (intro exI [of _ "n + 1"]) (simp add: kept_def)
  ultimately show ?thesis using n(3) vd by (simp add: change_or_def)
qed

lemma mem_clean_pass:
  assumes "wf_store (mem_view (kvs s))" "seq_room (mem_view (kvs s)) s" "length (hsm_q s) < hsmUpdateQ_cap"
  shows "\<exists>s'. clean_pass mem_kvi mem_view clk s s'"
proof -
  obtain sc s1 where beg: "checker_begin mem_kvi clk s = (Some sc, s1)" using mem_checker_begin by blast
  have "length (hsm_q s1) < hsmUpdateQ_cap" using checker_begin_frame [OF beg] assms(3) by simp
  then obtain s' where "hb_checker mem_kvi clk s = (s', True)"
    using beg by (simp add: hb_checker_def checker_end_def Let_def)
  then show ?thesis using beg mem.kvi_reliable_axioms assms(1,2) by (auto simp: clean_pass_def)
qed

theorem gap_spares_components_witness:
  "\<exists>s'. hb_checker mem_kvi (\<lambda>n. 200) ((sample_store HB_WARN_NONE)\<lparr>staleKeys := True\<rparr>) = (s', True) \<and>
    mem_view (kvs s') ''x0'' \<noteq> None \<and> pending_in s' ''x0'' = Some StopWarn"
proof -
  let ?s = "(sample_store HB_WARN_NONE)\<lparr>staleKeys := True\<rparr>"
  have v: "mem_view (kvs ?s) = mem_view (kvs (sample_store HB_WARN_NONE))" by simp
  have wf: "wf_store (mem_view (kvs ?s))"
    using sample_good [OF ascii_warnings(1)] by (auto simp: wf_store_def sample_view split: if_splits)
  have room: "seq_room (mem_view (kvs ?s)) ?s"
    unfolding v by (simp add: seq_room_def sample_view)
      (simp add: sample_store_def sample_state_def init_notify_def)
  have q: "length (hsm_q ?s) < hsmUpdateQ_cap"
    by (simp add: sample_store_def sample_state_def hsmUpdateQ_cap_def)
  from mem_clean_pass [OF wf room q] obtain s' where
    p: "clean_pass mem_kvi mem_view (\<lambda>n. 200) ?s s'" by blast
  have "\<forall>n \<ge> tick ?s. int_param (errtime (app_params ?s)) \<le> overdue (\<lambda>n. 200) n (sample_rec HB_WARN_NONE)"
    by (simp add: sample_overdue clock_ok_def sample_int64)
  moreover have "mem_view (kvs ?s) ''x0'' = Some (the (hbinfo_marshal (sample_rec HB_WARN_NONE)))" "staleKeys ?s"
    by (simp_all add: sample_view)
  ultimately have "mem_view (kvs s') ''x0'' \<noteq> None \<and> pending_in s' ''x0'' = Some StopWarn"
    using gap_spares_components [OF p sample_in_range _ sample_good [OF ascii_warnings(1)]] by auto
  with p show ?thesis by (auto simp: clean_pass_def)
qed

text \<open>
  The check goes on exactly while the interval is positive. \<open>hb_checker\<close> arms one timer,
  for the interval, on every way out of it, whatever the store answers, and none when the
  interval is 0 or less: a PATCH of the interval to 0 ends the monitoring for good. The only
  other way to stop is the send to the full queue, where the function waits.
\<close>

theorem checker_rearms:
  "timers (fst (hb_checker K clk s)) = timers s @
     (if snd (hb_checker K clk s) \<and> 0 < int_param (check_interval (app_params s))
      then [int64 (int_param (check_interval (app_params s)) * 1000000000)] else []) \<and>
   (snd (hb_checker K clk s) \<or> hsmUpdateQ_cap \<le> length (hsm_q s))"
proof (cases "checker_begin K clk s")
  case (Pair sco s1)
  note fr = checker_begin_frame [OF Pair]
  show ?thesis
  proof (cases sco)
    case (Some sc)
    then show ?thesis using Pair fr by (auto simp: hb_checker_def checker_end_def Let_def not_less)
  qed (use Pair fr in \<open>simp add: hb_checker_def\<close>)
qed

text \<open>
  A component outside the key range of the check is never judged. \<open>hbRcvXName\<close> accepts any
  name, for instance an xname in upper case: its heartbeat is recorded and announced, and no
  later check looks at it, however long it is silent.
\<close>

theorem untracked_component:
  assumes "kvi_reliable K view" "hb_parse_xname norm_xname r = Some (c, ts, st)"
    and "prior (view (kvs s)) c h0" "\<not> (HB_KEYRANGE_START \<le> c \<and> c \<le> HB_KEYRANGE_END)"
    and "hbRcvXName K clk norm_xname r new_response s = (w, s1)" "clean_pass K view clk s1 s'"
  shows "view (kvs s') c = view (kvs s1) c \<and> view (kvs s') c \<noteq> None \<and>
    pending_in s' c = pending_in s1 c"
proof -
  from kvi_reliable.updateHB_prior [OF assms(1,3), of clk URL_HEARTBEAT ts st new_response]
  have rec: "recorded view c (beat (clk (tick s)) ts st h0) s s1"
    using assms(5) hbRcvXName_parsed [OF assms(2), of K clk new_response s] by auto
  have "view (kvs s1) c \<noteq> None" using recordedD(1) [OF rec] by auto
  with clean_pass_effect(2) [OF assms(6), of c] assms(4) show ?thesis by simp
qed

theorem untracked_component_witness:
  "\<exists>w s1 s'. hbRcvXName mem_kvi (\<lambda>n. 200) (\<lambda>x. x) (sample_xname_request ''X0'') new_response
      (sample_store HB_WARN_NONE) = (w, s1) \<and>
    hb_checker mem_kvi (\<lambda>n. 200) s1 = (s', True) \<and> mem_view (kvs s') ''X0'' \<noteq> None"
proof -
  let ?s = "sample_store HB_WARN_NONE"
  have none: "mem_view (kvs ?s) ''X0'' = None" by (simp add: sample_view)
  then have pr: "prior (mem_view (kvs ?s)) ''X0'' (no_hbinfo\<lparr>Component := ''X0''\<rparr>)"
    by (simp add: prior_def)
  have pa: "hb_parse_xname (\<lambda>x. x) (sample_xname_request ''X0'') = Some (''X0'', ''now'', ''OK'')"
    by (simp add: sample_xname_parse)
  have out: "\<not> (HB_KEYRANGE_START \<le> ''X0'' \<and> ''X0'' \<le> HB_KEYRANGE_END)"
    by (simp add: HB_KEYRANGE_START_def)
  obtain s1 where s1: "hbRcvXName mem_kvi (\<lambda>n. 200) (\<lambda>x. x) (sample_xname_request ''X0'')
      new_response ?s = (new_response, s1)"
    and rec: "recorded mem_view ''X0'' (beat 200 ''now'' ''OK'' (no_hbinfo\<lparr>Component := ''X0''\<rparr>)) ?s s1"
    using mem.updateHB_prior [OF pr, of "\<lambda>n. 200" URL_HEARTBEAT "''now''" "''OK''" new_response]
      hbRcvXName_parsed [OF pa, of mem_kvi "\<lambda>n. 200" new_response ?s] by auto
  obtain v where v: "mem_view (kvs s1) = (mem_view (kvs ?s))(''X0'' \<mapsto> v)"
    using recordedD(1) [OF rec] by blast
  have "wf_store (mem_view (kvs s1))"
    using sample_good [OF ascii_warnings(1)] out by (auto simp: wf_store_def v sample_view split: if_splits)
  moreover have "seq_room (mem_view (kvs s1)) s1"
  proof -
    have n: "notif s1 = hb_update_notify (beat 200 ''now'' ''OK'' (no_hbinfo\<lparr>Component := ''X0''\<rparr>))
        HB_started init_notify"
      using recordedD(2) [OF rec] none by (simp add: sample_store_def sample_state_def)
    have l: "sm_local s1 = no_changes"
      using recordedD(6) [OF rec] by (simp add: sample_store_def sample_state_def)
    have ok0: "sender_ok no_changes (nt_maps init_notify) (nt_seq init_notify)"
      by (simp add: init_notify_def)
    have nz: "nt_seq init_notify + 1 \<noteq> 0" by (simp add: init_notify_def)
    have "sender_ok (sm_local s1) (nt_maps (notif s1)) (nt_seq (notif s1))"
      unfolding n l notify_seq by (rule sender_ok_notify [OF ok0 nz]) simp
    moreover have "nt_seq (notif s1) = 1" unfolding n notify_seq by (simp add: init_notify_def)
    moreover have "dom (mem_view (kvs s1)) = {''X0'', ''x0''}" by (auto simp: v sample_view)
    ultimately show ?thesis by (simp add: seq_room_def)
  qed
  moreover have "length (hsm_q s1) < hsmUpdateQ_cap"
    using recordedD(7) [OF rec] by (simp add: sample_store_def sample_state_def hsmUpdateQ_cap_def)
  ultimately obtain s' where p: "clean_pass mem_kvi mem_view (\<lambda>n. 200) s1 s'"
    using mem_clean_pass by blast
  have "mem_view (kvs s') ''X0'' \<noteq> None"
    using untracked_component [OF mem.kvi_reliable_axioms pa pr out s1 p] by blast
  moreover have "hb_checker mem_kvi (\<lambda>n. 200) s1 = (s', True)" using p by (simp add: clean_pass_def)
  ultimately show ?thesis using s1 by blast
qed

end
