(* ===== verification/Startup.thy ===== *)
theory Startup
  imports Health Checker_Passes
begin

text \<open>
  How an instance comes up (\<open>hbtd.go\<close>): \<open>openKV\<close>, \<open>createInstanceKey\<close>, \<open>checkLifeKeys\<close> and the
  part of \<open>main\<close> up to the server loop. Loops that try forever are \<open>retry\<close>, whose value \<open>None\<close>
  is "never returns". The environment, the command line, the outcome of each attempt to open
  the store and the random number are arguments.
\<close>

section \<open>Trying until it works\<close>

text \<open>\<open>attempt\<close> is one round: whether it worked, and the state after it.\<close>

partial_function (option) retry :: "('a \<Rightarrow> bool \<times> 'a) \<Rightarrow> 'a \<Rightarrow> 'a option" where
  "retry attempt s =
     (if fst (attempt s) then Some (snd (attempt s)) else retry attempt (snd (attempt s)))"

text \<open>The state after \<open>n\<close> rounds.\<close>

fun rounds :: "('a \<Rightarrow> bool \<times> 'a) \<Rightarrow> nat \<Rightarrow> 'a \<Rightarrow> 'a" where
  "rounds attempt 0 s = s"
| "rounds attempt (Suc n) s = rounds attempt n (snd (attempt s))"

lemma retry_complete: "fst (attempt (rounds attempt n s)) \<Longrightarrow> retry attempt s \<noteq> None"
proof (induction n arbitrary: s)
  case 0
  then show ?case by (subst retry.simps) simp
next
  case (Suc n)
  then show ?case by (subst retry.simps) simp
qed

lemma retry_sound:
  assumes ret: "retry attempt s = Some s'"
  shows "\<exists>n. fst (attempt (rounds attempt n s)) \<and> s' = snd (attempt (rounds attempt n s))"
proof (rule retry.raw_induct [where P = "\<lambda>attempt s s'. \<exists>n. fst (attempt (rounds attempt n s)) \<and>
      s' = snd (attempt (rounds attempt n s))", OF _ ret])
  fix f :: "('a \<Rightarrow> bool \<times> 'a) \<Rightarrow> 'a \<Rightarrow> 'a option" and g s s'
  assume IH: "\<And>g s s'. f g s = Some s' \<Longrightarrow>
      \<exists>n. fst (g (rounds g n s)) \<and> s' = snd (g (rounds g n s))"
    and eq: "(if fst (g s) then Some (snd (g s)) else f g (snd (g s))) = Some s'"
  show "\<exists>n. fst (g (rounds g n s)) \<and> s' = snd (g (rounds g n s))"
  proof (cases "fst (g s)")
    case True
    with eq show ?thesis by (intro exI [of _ 0]) simp
  next
    case False
    with eq obtain n where "fst (g (rounds g n (snd (g s))))" "s' = snd (g (rounds g n (snd (g s))))"
      using IH by fastforce
    then show ?thesis by (intro exI [of _ "Suc n"]) simp
  qed
qed

lemma retry_returns_iff:
  "retry attempt s \<noteq> None \<longleftrightarrow> (\<exists>n. fst (attempt (rounds attempt n s)))"
  using retry_complete retry_sound by fastforce

text \<open>An invariant of the rounds holds when the loop returns.\<close>

lemma retry_invariant:
  assumes "retry attempt s = Some s'" "P s" "\<And>s. P s \<Longrightarrow> P (snd (attempt s))"
  shows "P s'"
proof -
  obtain n where n: "s' = snd (attempt (rounds attempt n s))" using retry_sound [OF assms(1)] by blast
  have "P (rounds attempt n s)" using assms(2)
    by (induction n arbitrary: s) (simp_all add: assms(3))
  with n assms(3) show ?thesis by simp
qed

section \<open>Opening the store\<close>

definition HBTD_LIFE_KEY_PRE :: string where "HBTD_LIFE_KEY_PRE = ''hbtd_lifekey-''"
definition HBTD_LIFE_KEY_START :: nat where "HBTD_LIFE_KEY_START = 0"
definition HBTD_LIFE_KEY_END :: nat where "HBTD_LIFE_KEY_END = 2 ^ 31 - 1"

definition store_try :: "'s kvi \<Rightarrow> 's \<Rightarrow> bool \<times> 's" where
  "store_try K kv = (let (e, kv') = kv_store K HBTD_HEALTH_KEY HBTD_HEALTH_OK kv in (e = None, kv'))"

text \<open>\<open>opens ix\<close> is whether attempt \<open>ix\<close> of \<open>hmetcd.Open\<close> succeeds.\<close>

definition openKV ::
  "'s kvi \<Rightarrow> (string \<Rightarrow> string) \<Rightarrow> (nat \<Rightarrow> bool) \<Rightarrow> 's hbtd \<Rightarrow> 's hbtd option" where
  "openKV K getenv opens s =
     (let eh = getenv ''ETCD_HOST''; ep = getenv ''ETCD_PORT'';
          unset = (string_param (kv_url (app_params s)) = [])
      in if unset \<and> \<not> (eh \<noteq> [] \<and> ep \<noteq> []) then None
         else
           let s1 = (if unset then s\<lparr>app_params :=
                       set_kv_url (''http://'' @ eh @ '':'' @ ep) (app_params s)\<rparr> else s)
           in case retry (\<lambda>ix. (opens ix, ix + 1)) 1 of
                None \<Rightarrow> None
              | Some _ \<Rightarrow> map_option (\<lambda>kv. s1\<lparr>kvs := kv\<rparr>) (retry (store_try K) (kvs s1)))"

section \<open>Life keys\<close>

text \<open>\<open>n\<close> is \<open>rand.Int31()\<close>.\<close>

definition createInstanceKey :: "nat \<Rightarrow> string" where
  "createInstanceKey n = HBTD_LIFE_KEY_PRE @ itoa (int n)"

definition life_start :: string where
  "life_start = HBTD_LIFE_KEY_PRE @ itoa (int HBTD_LIFE_KEY_START)"
definition life_end :: string where
  "life_end = HBTD_LIFE_KEY_PRE @ itoa (int HBTD_LIFE_KEY_END)"

definition checkLifeKeys :: "'s kvi \<Rightarrow> 's hbtd \<Rightarrow> 's hbtd" where
  "checkLifeKeys K s =
     (let ((kvlist, kverr), kv1) = kv_get_range K life_start life_end (kvs s);
          s1 = s\<lparr>kvs := kv1,
                 staleKeys := (if kverr \<noteq> None \<or> kvlist = [] then True else staleKeys s)\<rparr>
      in if staleKeys s1 \<and> int_param (clear_on_gap (app_params s1)) \<noteq> 0 then
           let ((hbkeys, hbkerr), kv2) = kv_get_range K HB_KEYRANGE_START HB_KEYRANGE_END (kvs s1)
           in if hbkerr \<noteq> None then s1\<lparr>kvs := kv2\<rparr>
              else s1\<lparr>kvs := delete_keys K (map fst hbkeys) kv2\<rparr>
         else s1)"

definition life_try :: "'s kvi \<Rightarrow> string \<Rightarrow> 's \<Rightarrow> bool \<times> 's" where
  "life_try K key kv = (let (e, kv') = kv_temp_key K key kv in (e = None, kv'))"

text \<open>The goroutine that writes this instance's key, and ends when it has.\<close>

definition write_life_key :: "'s kvi \<Rightarrow> string \<Rightarrow> 's \<Rightarrow> 's option" where
  "write_life_key K key kv = retry (life_try K key) kv"

section \<open>Up to the server loop\<close>

text \<open>
  The variables as the process starts with them, after the parameters have been read;
  \<open>hsmReady\<close> is what the wait has seen.
\<close>

definition process_start :: "op_params \<Rightarrow> string \<Rightarrow> 's \<Rightarrow> 's hbtd" where
  "process_start p url_port kv =
     \<lparr>app_params = p, server_url_port = url_port, notif = init_notify, sm_local = no_changes,
      hsm_q = [], hsm_ready = (int_param (nosm p) = 0), staleKeys = False, sg_ncomp = 0,
      timers = [], kvs = kv, tick = 0\<rparr>"

text \<open>
  \<open>Helped\<close>: the help text was asked for and the process has exited. \<open>Stuck\<close>: it waits forever
  for the State Manager or the store. \<open>Serving\<close>: the state in which the server loop starts,
  with the key of this instance, which a goroutine is writing.
\<close>

datatype 'a startup = Helped | Stuck | Serving 'a string

definition main_start ::
  "'s kvi \<Rightarrow> (string \<Rightarrow> string) \<Rightarrow> flags \<Rightarrow> (nat \<Rightarrow> bool) \<Rightarrow> (nat \<Rightarrow> bool) \<Rightarrow> nat \<Rightarrow> 's \<Rightarrow> 's hbtd startup" where
  "main_start K getenv fl hsmReady opens rnd kv =
     (case parse_cmd_line fl (parse_env_vars getenv initAppParams, URL_PORT) of
        None \<Rightarrow> Helped
      | Some (p, url_port) \<Rightarrow>
          (case waitForHSM p hsmReady of
             None \<Rightarrow> Stuck
           | Some _ \<Rightarrow>
               (case openKV K getenv opens (process_start p url_port kv) of
                  None \<Rightarrow> Stuck
                | Some s \<Rightarrow>
                    Serving (rearm_hbcheck_timer (checkLifeKeys K s)) (createInstanceKey rnd))))"

section \<open>The range of life keys\<close>

lemma append_le_iff [simp]: "p @ x \<le> p @ y \<longleftrightarrow> x \<le> (y :: 'a::order list)"
  by (induction p) simp_all

lemma append_less_iff [simp]: "p @ x < p @ y \<longleftrightarrow> x < (y :: 'a::order list)"
  by (induction p) simp_all

text \<open>What lies between two strings with a common prefix has that prefix.\<close>

lemma between_prefix: "p @ x \<le> k \<Longrightarrow> k \<le> p @ y \<Longrightarrow> take (length p) k = (p :: 'a::order list)"
proof (induction p arbitrary: k)
  case (Cons a p)
  then show ?case by (cases k) auto
qed simp

lemma life_start_le: "life_start \<le> createInstanceKey n"
proof -
  obtain c cs where c: "itoa (int n) = c # cs" using itoa_nonempty by (cases "itoa (int n)") auto
  have "c \<in> set (fmt_base 10 n)" using c by (simp add: itoa_def)
  then obtain d where "d < 10" "c = digit_char d" using fmt_base_digits [of 10 c n] by auto
  then have "CHR ''0'' \<le> c" by (auto simp: digit_char_def less_eq_char_def)
  then have "[CHR ''0''] \<le> itoa (int n)" by (auto simp: c)
  moreover have "itoa 0 = [CHR ''0'']" by (rule itoa_01)
  ultimately show ?thesis by (simp add: life_start_def createInstanceKey_def HBTD_LIFE_KEY_START_def)
qed

text \<open>A store key that is somebody's life key, in the range or not.\<close>

definition life_key :: "string \<Rightarrow> bool" where
  "life_key k \<longleftrightarrow> take (length HBTD_LIFE_KEY_PRE) k = HBTD_LIFE_KEY_PRE"

lemma range_is_life: "life_start \<le> k \<Longrightarrow> k \<le> life_end \<Longrightarrow> life_key k"
  unfolding life_start_def life_end_def life_key_def by (rule between_prefix)

lemma life_end_value: "life_end = HBTD_LIFE_KEY_PRE @ ''2147483647''"
  by (simp add: life_end_def HBTD_LIFE_KEY_END_def itoa_def fmt_base.simps digit_char_def)
    (intro conjI byte_eqI; simp)

lemma life_range_ok: "range_ok life_start life_end"
  by (simp add: range_ok_def life_start_def life_end_value HBTD_LIFE_KEY_PRE_def HBTD_LIFE_KEY_START_def itoa_def
      fmt_base_small)

lemma life_key_not_component: "life_key k \<Longrightarrow> \<not> HB_KEYRANGE_START \<le> k"
  by (cases k) (auto simp: life_key_def HBTD_LIFE_KEY_PRE_def HB_KEYRANGE_START_def)

text \<open>What \<open>checkLifeKeys\<close> does once it is known whether it has seen a key.\<close>

lemma checkLifeKeys_eq:
  assumes "kv_get_range K life_start life_end (kvs s) = ((kvl, e), kv1)"
    and "kv_get_range K HB_KEYRANGE_START HB_KEYRANGE_END kv1 = ((hbs, e2), kv2)"
  shows "checkLifeKeys K s =
    (let stale = (if e \<noteq> None \<or> kvl = [] then True else staleKeys s);
         clear = stale \<and> int_param (clear_on_gap (app_params s)) \<noteq> 0
     in s\<lparr>kvs := (if clear then if e2 \<noteq> None then kv2 else delete_keys K (map fst hbs) kv2 else kv1),
          staleKeys := stale\<rparr>)"
  using assms by (simp add: checkLifeKeys_def Let_def)

text \<open>A store with fewer tracked components.\<close>

definition sub_range :: "(string \<rightharpoonup> string) \<Rightarrow> (string \<rightharpoonup> string) \<Rightarrow> bool" where
  "sub_range m m' \<longleftrightarrow>
     (\<forall>k. HB_KEYRANGE_START \<le> k \<and> k \<le> HB_KEYRANGE_END \<longrightarrow> m' k = None \<or> m' k = m k)"

lemma sub_range_refl: "sub_range m m"
  by (simp add: sub_range_def)

lemma sub_range_wf: "wf_store m \<Longrightarrow> sub_range m m' \<Longrightarrow> wf_store m'"
  unfolding wf_store_def sub_range_def by (metis option.distinct(1))

lemma sub_range_stored: "stored_ok m \<Longrightarrow> sub_range m m' \<Longrightarrow> stored_ok m'"
  unfolding stored_ok_def sub_range_def by (metis option.distinct(1))

context kvi_store
begin

lemma range_empty_iff:
  assumes "kv_get_range K a b s = ((kvl, None), s')" "range_ok a b"
  shows "\<forall>k. view s k \<noteq> None \<longrightarrow> \<not> (a \<le> k \<and> k \<le> b) \<Longrightarrow> kvl = []"
    and "view s k = Some v \<Longrightarrow> a \<le> k \<Longrightarrow> k < b \<Longrightarrow> kvl \<noteq> []"
proof -
  show "kvl = []" if "\<forall>k. view s k \<noteq> None \<longrightarrow> \<not> (a \<le> k \<and> k \<le> b)"
  proof (cases kvl)
    case (Cons p ps)
    then have "(fst p, snd p) \<in> set kvl" by simp
    from range_sound [OF assms this] that show ?thesis by blast
  qed
  show "kvl \<noteq> []" if "view s k = Some v" "a \<le> k" "k < b"
    using range_complete [OF assms that] by auto
qed

lemma store_try_view: "view (snd (store_try K kv)) = view kv \<or>
    view (snd (store_try K kv)) = (view kv)(HBTD_HEALTH_KEY \<mapsto> HBTD_HEALTH_OK)"
  using store_view [of HBTD_HEALTH_KEY HBTD_HEALTH_OK kv]
  by (cases "kv_store K HBTD_HEALTH_KEY HBTD_HEALTH_OK kv") (simp add: store_try_def)

lemma store_try_result:
  assumes "retry (store_try K) kv = Some kv'"
  shows "view kv' = (view kv)(HBTD_HEALTH_KEY \<mapsto> HBTD_HEALTH_OK)"
proof -
  obtain n where n: "fst (store_try K (rounds (store_try K) n kv))"
      "kv' = snd (store_try K (rounds (store_try K) n kv))"
    using retry_sound [OF assms] by blast
  have inv: "view (rounds (store_try K) n kv) = view kv \<or>
      view (rounds (store_try K) n kv) = (view kv)(HBTD_HEALTH_KEY \<mapsto> HBTD_HEALTH_OK)" for n
  proof (induction n arbitrary: kv)
    case (Suc n)
    then show ?case using store_try_view [of kv] by (metis fun_upd_upd rounds.simps(2))
  qed simp
  obtain e kv1 where st: "kv_store K HBTD_HEALTH_KEY HBTD_HEALTH_OK (rounds (store_try K) n kv) = (e, kv1)"
    by (metis prod.exhaust)
  then have "e = None" "kv1 = kv'" using n by (simp_all add: store_try_def)
  then have "view kv' = (view (rounds (store_try K) n kv))(HBTD_HEALTH_KEY \<mapsto> HBTD_HEALTH_OK)"
    using store_ok st by blast
  then show ?thesis using inv [of n] by auto
qed

end

lemma openKV_result:
  assumes "openKV K getenv opens s = Some s'"
  shows "\<exists>kv p. s' = s\<lparr>app_params := p, kvs := kv\<rparr> \<and> retry (store_try K) (kvs s) = Some kv \<and>
    (if string_param (kv_url (app_params s)) = []
     then p = set_kv_url (''http://'' @ getenv ''ETCD_HOST'' @ '':'' @ getenv ''ETCD_PORT'') (app_params s)
     else p = app_params s)"
  using assms by (auto simp: openKV_def Let_def split: if_splits option.splits)

lemma checkLifeKeys_frame:
  "app_params (checkLifeKeys K s) = app_params s" "notif (checkLifeKeys K s) = notif s"
  "sm_local (checkLifeKeys K s) = sm_local s" "hsm_q (checkLifeKeys K s) = hsm_q s"
  "hsm_ready (checkLifeKeys K s) = hsm_ready s" "timers (checkLifeKeys K s) = timers s"
  by (simp_all add: checkLifeKeys_def Let_def split: prod.splits)

context kvi_store
begin

lemma checkLifeKeys_view:
  shows "view (kvs (checkLifeKeys K s)) = view (kvs s) \<or>
    (\<exists>ks kv. view (kvs (checkLifeKeys K s)) = view (delete_keys K ks kv) \<and> view kv = view (kvs s) \<and>
       (\<forall>k \<in> set ks. HB_KEYRANGE_START \<le> k \<and> k \<le> HB_KEYRANGE_END))"
proof -
  obtain kvl e kv1 where r: "kv_get_range K life_start life_end (kvs s) = ((kvl, e), kv1)"
    by (metis prod.exhaust)
  obtain hbs e2 kv2 where r2: "kv_get_range K HB_KEYRANGE_START HB_KEYRANGE_END kv1 = ((hbs, e2), kv2)"
    by (metis prod.exhaust)
  have v1: "view kv1 = view (kvs s)" using range_view [of life_start life_end "kvs s"] r by simp
  have v2: "view kv2 = view (kvs s)"
    using range_view [of HB_KEYRANGE_START HB_KEYRANGE_END kv1] r2 v1 by simp
  have ks: "\<forall>k \<in> set (map fst hbs). HB_KEYRANGE_START \<le> k \<and> k \<le> HB_KEYRANGE_END" if "e2 = None"
    using range_sound [OF r2 [unfolded that] hb_range_ok] by auto
  have "kvs (checkLifeKeys K s) \<in> {kv1, kv2} \<or>
      e2 = None \<and> kvs (checkLifeKeys K s) = delete_keys K (map fst hbs) kv2"
    by (simp add: checkLifeKeys_eq [OF r r2] Let_def)
  then show ?thesis
  proof
    assume "kvs (checkLifeKeys K s) \<in> {kv1, kv2}"
    then show ?thesis using v1 v2 by auto
  next
    assume "e2 = None \<and> kvs (checkLifeKeys K s) = delete_keys K (map fst hbs) kv2"
    then show ?thesis using v2 ks by metis
  qed
qed

lemma delete_keys_sub: "sub_range (view kv) (view (delete_keys K ks kv))"
proof (induction ks arbitrary: kv)
  case (Cons k ks)
  have "sub_range (view kv) (view (snd (kv_delete K k kv)))"
    using delete_view [of k kv] by (cases "kv_delete K k kv") (auto simp: sub_range_def)
  then show ?case
    using Cons.IH [of "snd (kv_delete K k kv)"] by (auto simp: delete_keys_def sub_range_def) metis
qed (simp add: delete_keys_def sub_range_def)

lemma checkLifeKeys_sub: "sub_range (view (kvs s)) (view (kvs (checkLifeKeys K s)))"
  using checkLifeKeys_view [of s] delete_keys_sub by (metis sub_range_refl)

lemma checkLifeKeys_outside:
  assumes "\<not> HB_KEYRANGE_START \<le> k"
  shows "view (kvs (checkLifeKeys K s)) k = view (kvs s) k"
  using checkLifeKeys_view [of s] delete_keys_frame assms by metis

end

lemma health_key_outside: "\<not> HB_KEYRANGE_START \<le> HBTD_HEALTH_KEY"
  by (simp add: HB_KEYRANGE_START_def HBTD_HEALTH_KEY_def)

lemma health_key_sub: "sub_range m (m(HBTD_HEALTH_KEY \<mapsto> v))"
  using health_key_outside by (auto simp: sub_range_def)

lemma openKV_iff:
  "openKV K getenv opens s \<noteq> None \<longleftrightarrow>
     (string_param (kv_url (app_params s)) \<noteq> [] \<or>
      getenv ''ETCD_HOST'' \<noteq> [] \<and> getenv ''ETCD_PORT'' \<noteq> []) \<and>
     (\<exists>ix \<ge> 1. opens ix) \<and>
     (\<exists>n. fst (store_try K (rounds (store_try K) n (kvs s))))"
proof -
  have r: "rounds (\<lambda>ix. (opens ix, ix + 1)) n i = i + n" for n i
    by (induction n arbitrary: i) simp_all
  have "retry (\<lambda>ix. (opens ix, ix + 1)) 1 \<noteq> None \<longleftrightarrow> (\<exists>n. opens (1 + n))"
    unfolding retry_returns_iff r by simp
  also have "\<dots> \<longleftrightarrow> (\<exists>ix \<ge> 1. opens ix)" by (metis le_add1 le_add_diff_inverse)
  finally have o: "retry (\<lambda>ix. (opens ix, ix + 1)) 1 \<noteq> None \<longleftrightarrow> (\<exists>ix \<ge> 1. opens ix)" .
  note st = retry_returns_iff [of "store_try K" "kvs s"]
  show ?thesis unfolding o [symmetric] st [symmetric]
    by (auto simp: openKV_def Let_def split: option.splits)
qed

section \<open>Properties\<close>

text \<open>
  C29: When the store comes up. \<open>openKV\<close> returns if and only if a URL is known, from the
  parameters or from \<open>ETCD_HOST\<close> and \<open>ETCD_PORT\<close>, some attempt to open it succeeds, and some
  attempt to write the health key succeeds; otherwise it waits forever.
\<close>

theorem open_kv_returns:
  "openKV K getenv opens s \<noteq> None \<longleftrightarrow>
     (string_param (kv_url (app_params s)) \<noteq> [] \<or>
      getenv ''ETCD_HOST'' \<noteq> [] \<and> getenv ''ETCD_PORT'' \<noteq> []) \<and>
     (\<exists>ix \<ge> 1. opens ix) \<and>
     (\<exists>n. fst (store_try K (rounds (store_try K) n (kvs s))))"
  by (rule openKV_iff)

theorem open_kv_returns_witness:
  "openKV mem_kvi (\<lambda>x. []) (\<lambda>ix. ix = 3) (sample_state gm_empty) \<noteq> None \<and>
   openKV mem_kvi (\<lambda>x. []) (\<lambda>ix. False) (sample_state gm_empty) = None"
proof -
  have url: "string_param (kv_url (app_params (sample_state gm_empty :: mem hbtd))) \<noteq> []"
    by (simp add: sample_state_def initAppParams_def str_app_def KV_URL_BASE_def)
  have "\<exists>ix \<ge> 1. ix = (3::nat)" by simp
  moreover have "\<exists>n. fst (store_try mem_kvi (rounds (store_try mem_kvi) n (kvs (sample_state gm_empty))))"
    by (intro exI [of _ 0]) (simp add: store_try_def mem_defs)
  ultimately have "openKV mem_kvi (\<lambda>x. []) (\<lambda>ix. ix = 3) (sample_state gm_empty) \<noteq> None"
    unfolding open_kv_returns using url by blast
  moreover have "\<not> openKV mem_kvi (\<lambda>x. []) (\<lambda>ix. False) (sample_state gm_empty) \<noteq> None"
    unfolding open_kv_returns by blast
  ultimately show ?thesis by simp
qed

text \<open>
  A running instance whose life key is in the range is seen: then, if the keys can be read,
  \<open>checkLifeKeys\<close> neither announces a monitoring gap nor touches a key.
\<close>

theorem life_key_seen:
  assumes "kvi_store K view" "view (kvs s) (createInstanceKey n) \<noteq> None" "createInstanceKey n < life_end"
    and "snd (fst (kv_get_range K life_start life_end (kvs s))) = None" "\<not> staleKeys s"
  shows "\<not> staleKeys (checkLifeKeys K s) \<and> view (kvs (checkLifeKeys K s)) = view (kvs s)"
proof -
  obtain kvl kv1 where r: "kv_get_range K life_start life_end (kvs s) = ((kvl, None), kv1)"
    using assms(4) by (metis prod.collapse)
  obtain hbs e2 kv2 where r2: "kv_get_range K HB_KEYRANGE_START HB_KEYRANGE_END kv1 = ((hbs, e2), kv2)"
    by (metis prod.exhaust)
  have "kvl \<noteq> []"
    using kvi_store.range_empty_iff(2) [OF assms(1) r life_range_ok _ life_start_le assms(3)] assms(2) by blast
  moreover have "view kv1 = view (kvs s)"
    using kvi_store.range_view [OF assms(1), of life_start life_end "kvs s"] r by simp
  ultimately show ?thesis by (simp add: checkLifeKeys_eq [OF r r2] assms(5) Let_def)
qed

lemma life_missed_result:
  assumes "kvi_reliable K view"
    and "\<forall>k. view (kvs s) k \<noteq> None \<and> life_key k \<longrightarrow> life_end < k"
  shows "staleKeys (checkLifeKeys K s) \<and>
    (if int_param (clear_on_gap (app_params s)) \<noteq> 0
     then \<forall>k. in_range k \<longrightarrow> view (kvs (checkLifeKeys K s)) k = None
     else view (kvs (checkLifeKeys K s)) = view (kvs s))"
proof -
  note store = kvi_reliable.axioms(1) [OF assms(1)]
  obtain kvl kv1 where r: "kv_get_range K life_start life_end (kvs s) = ((kvl, None), kv1)"
    using kvi_reliable.range_never [OF assms(1), of life_start life_end "kvs s"]
    by (metis prod.collapse)
  obtain hbs kv2 where r2: "kv_get_range K HB_KEYRANGE_START HB_KEYRANGE_END kv1 = ((hbs, None), kv2)"
    using kvi_reliable.range_never [OF assms(1), of HB_KEYRANGE_START HB_KEYRANGE_END kv1]
    by (metis prod.collapse)
  have v1: "view kv1 = view (kvs s)"
    using kvi_store.range_view [OF store, of life_start life_end "kvs s"] r by simp
  have v2: "view kv2 = view (kvs s)"
    using kvi_store.range_view [OF store, of HB_KEYRANGE_START HB_KEYRANGE_END kv1] r2 v1 by simp
  have "\<forall>k. view (kvs s) k \<noteq> None \<longrightarrow> \<not> (life_start \<le> k \<and> k \<le> life_end)"
    using assms(2) range_is_life leD by blast
  then have nil: "kvl = []" by (rule kvi_store.range_empty_iff(1) [OF store r life_range_ok])
  have "view (delete_keys K (map fst hbs) kv2) k = None" if "in_range k" for k
  proof (cases "view (kvs s) k")
    case (Some v)
    then have "(k, v) \<in> set hbs"
      using kvi_store.range_complete [OF store r2 hb_range_ok, of k v] v1 that by (simp add: in_range_def)
    then have "k \<in> set (map fst hbs)" by force
    then show ?thesis by (simp add: kvi_reliable.delete_keys_view [OF assms(1)])
  qed (simp add: kvi_reliable.delete_keys_view [OF assms(1)] v2)
  then show ?thesis by (simp add: checkLifeKeys_eq [OF r r2] nil v1 Let_def)
qed

text \<open>
  C32: A running instance can be missed. The range of life keys is compared as text, so the key
  of an instance whose number is above \<open>2147483647\<close> as text, such as 3 or 999, is outside of it.
  When all the instances that are running have such keys, the next one to start takes itself for
  the first: it announces a monitoring gap, and with \<open>clear_on_gap\<close> set it deletes the record of
  every tracked component; otherwise it leaves the store alone.
\<close>

theorem life_key_missed:
  assumes "kvi_reliable K view"
    and "\<forall>k. view (kvs s) k \<noteq> None \<and> life_key k \<longrightarrow> life_end < k"
  shows "staleKeys (checkLifeKeys K s) \<and>
    (if int_param (clear_on_gap (app_params s)) \<noteq> 0
     then \<forall>k. in_range k \<longrightarrow> view (kvs (checkLifeKeys K s)) k = None
     else view (kvs (checkLifeKeys K s)) = view (kvs s))"
  by (rule life_missed_result [OF assms])

lemma digit_keys:
  "createInstanceKey 3 = HBTD_LIFE_KEY_PRE @ ''3''"
  "createInstanceKey 1000000000 = HBTD_LIFE_KEY_PRE @ ''1000000000''"
  by (simp_all add: createInstanceKey_def itoa_def fmt_base.simps digit_char_def)
    (intro conjI byte_eqI; simp)+

definition life_sample :: "int \<Rightarrow> nat \<Rightarrow> mem hbtd" where
  "life_sample clear n =
     (sample_state (gm_set (createInstanceKey n) ''1'' (gm_set ''x0'' ''{}'' gm_empty)))
       \<lparr>app_params := initAppParams\<lparr>clear_on_gap := int_app [] clear\<rparr>\<rparr>"

lemma life_sample_view:
  "mem_view (kvs (life_sample c n)) = [''x0'' \<mapsto> ''{}'', createInstanceKey n \<mapsto> ''1'']"
  by (auto simp: life_sample_def sample_state_def mem_view_def gm_empty_def fun_eq_iff)

theorem life_key_seen_witness:
  "\<not> staleKeys (checkLifeKeys mem_kvi (life_sample 1 1000000000))"
proof -
  have "mem_view (kvs (life_sample 1 1000000000)) (createInstanceKey 1000000000) \<noteq> None"
    by (simp add: life_sample_view)
  moreover have "createInstanceKey 1000000000 < life_end"
    by (simp add: digit_keys life_end_value)
  moreover have "snd (fst (kv_get_range mem_kvi life_start life_end (kvs (life_sample 1 1000000000)))) = None"
    by (rule mem.range_never)
  moreover have "\<not> staleKeys (life_sample 1 1000000000)"
    by (simp add: life_sample_def sample_state_def)
  ultimately show ?thesis using life_key_seen [OF mem.kvi_store_axioms] by blast
qed

theorem life_key_missed_witness:
  "mem_view (kvs (life_sample 1 3)) (createInstanceKey 3) = Some ''1'' \<and>
   mem_view (kvs (checkLifeKeys mem_kvi (life_sample 1 3))) ''x0'' = None"
proof -
  have "\<not> life_key ''x0''" by (simp add: life_key_def HBTD_LIFE_KEY_PRE_def)
  moreover have "life_end < createInstanceKey 3" by (simp add: digit_keys life_end_value)
  ultimately have "\<forall>k. mem_view (kvs (life_sample 1 3)) k \<noteq> None \<and> life_key k \<longrightarrow> life_end < k"
    by (auto simp: life_sample_view split: if_splits)
  from life_key_missed [OF mem.kvi_reliable_axioms this]
  have "mem_view (kvs (checkLifeKeys mem_kvi (life_sample 1 3))) ''x0'' = None"
    using sample_in_range by (simp add: life_sample_def int_app_def)
  moreover have "mem_view (kvs (life_sample 1 3)) (createInstanceKey 3) = Some ''1''"
    by (simp add: life_sample_view)
  ultimately show ?thesis by blast
qed

lemma main_start_result:
  assumes "kvi_store K view"
    and "main_start K getenv fl hsmReady opens rnd kv = Serving s key"
  shows "view (kvs s) HBTD_HEALTH_KEY = Some HBTD_HEALTH_OK \<and> sub_range (view kv) (view (kvs s)) \<and>
    (hsm_ready s \<longleftrightarrow> int_param (nosm (app_params s)) = 0) \<and>
    (int_param (nosm (app_params s)) = 0 \<longrightarrow> (\<exists>n. hsmReady n)) \<and>
    notif s = init_notify \<and> sm_local s = no_changes \<and> hsm_q s = [] \<and>
    length (timers s) = (if 0 < int_param (check_interval (app_params s)) then 1 else 0) \<and>
    key = createInstanceKey rnd"
proof -
  obtain p up s1 n where s: "s = rearm_hbcheck_timer (checkLifeKeys K s1)" "key = createInstanceKey rnd"
    and op: "openKV K getenv opens (process_start p up kv) = Some s1" and w: "waitForHSM p hsmReady = Some n"
    using assms(2) by (auto simp: main_start_def split: option.splits)
  obtain kv' q where s1: "s1 = (process_start p up kv)\<lparr>app_params := q, kvs := kv'\<rparr>"
    and rt: "retry (store_try K) kv = Some kv'" and nq: "nosm q = nosm p"
    using openKV_result [OF op]
    by (auto simp: process_start_def set_kv_url_def split: if_splits)
  have v: "view kv' = (view kv)(HBTD_HEALTH_KEY \<mapsto> HBTD_HEALTH_OK)"
    by (rule kvi_store.store_try_result [OF assms(1) rt])
  have h: "view (kvs s) HBTD_HEALTH_KEY = Some HBTD_HEALTH_OK"
    using kvi_store.checkLifeKeys_outside [OF assms(1) health_key_outside, of s1] v
    by (simp add: s s1)
  have wf: "sub_range (view kv) (view (kvs s))"
    using kvi_store.checkLifeKeys_sub [OF assms(1), of s1] health_key_sub [of "view kv" HBTD_HEALTH_OK] v
    by (auto simp: s s1 sub_range_def) metis
  have hr: "hsm_ready (rearm_hbcheck_timer s) = hsm_ready s" for s :: "'s hbtd"
    by (simp add: rearm_hbcheck_timer_def)
  have "int_param (nosm p) = 0 \<longrightarrow> (\<exists>n. hsmReady n)"
    using w wait_loop_sound [of hsmReady 0] by (auto simp: waitForHSM_def split: if_splits)
  then show ?thesis
    using h wf nq by (simp add: s hr checkLifeKeys_frame) (simp add: s1 process_start_def)
qed

text \<open>A start adds the health key to the store, and no other key.\<close>

lemma main_start_dom:
  assumes "kvi_store K view" "main_start K getenv fl hsmReady opens rnd kv = Serving s key"
  shows "dom (view (kvs s)) \<subseteq> insert HBTD_HEALTH_KEY (dom (view kv))"
proof -
  obtain p up s1 where s: "s = rearm_hbcheck_timer (checkLifeKeys K s1)"
    and op: "openKV K getenv opens (process_start p up kv) = Some s1"
    using assms(2) by (auto simp: main_start_def split: option.splits)
  obtain kv' q where s1: "s1 = (process_start p up kv)\<lparr>app_params := q, kvs := kv'\<rparr>"
    and rt: "retry (store_try K) kv = Some kv'"
    using openKV_result [OF op] by (auto simp: process_start_def)
  have d: "dom (view (delete_keys K ks kv0)) \<subseteq> dom (view kv0)" for ks kv0
  proof (induction ks arbitrary: kv0)
    case (Cons k ks)
    have "dom (view (snd (kv_delete K k kv0))) \<subseteq> dom (view kv0)"
      using kvi_store.delete_view [OF assms(1), of k kv0] by (cases "kv_delete K k kv0") (auto split: if_splits)
    with Cons.IH show ?case by (fastforce simp: delete_keys_def)
  qed (simp add: delete_keys_def)
  have "dom (view (kvs (checkLifeKeys K s1))) \<subseteq> dom (view (kvs s1))"
    using kvi_store.checkLifeKeys_view [OF assms(1), of s1]
  proof (elim disjE exE conjE)
    fix ks kv0
    assume "view (kvs (checkLifeKeys K s1)) = view (delete_keys K ks kv0)" "view kv0 = view (kvs s1)"
    then show ?thesis using d [of ks kv0] by simp
  qed simp
  then show ?thesis
    using kvi_store.store_try_result [OF assms(1) rt] by (auto simp: s s1)
qed

text \<open>
  C19: The state in which an instance starts to serve. When \<open>main\<close> reaches the server loop, the
  health key is in the store and the records of tracked components are still well-formed, the
  State Manager has been seen ready unless it is not used, nothing has been notified or queued,
  and one check is armed exactly when the check interval is positive.
\<close>

theorem start_serves:
  assumes "kvi_store K view" "wf_store (view kv)"
    and "main_start K getenv fl hsmReady opens rnd kv = Serving s key"
  shows "view (kvs s) HBTD_HEALTH_KEY = Some HBTD_HEALTH_OK \<and> wf_store (view (kvs s)) \<and>
    (hsm_ready s \<longleftrightarrow> int_param (nosm (app_params s)) = 0) \<and>
    (int_param (nosm (app_params s)) = 0 \<longrightarrow> (\<exists>n. hsmReady n)) \<and>
    notif s = init_notify \<and> sm_local s = no_changes \<and> hsm_q s = [] \<and>
    length (timers s) = (if 0 < int_param (check_interval (app_params s)) then 1 else 0) \<and>
    key = createInstanceKey rnd"
  using main_start_result [OF assms(1,3)] sub_range_wf [OF assms(2)] by blast

definition sample_flags :: flags where
  "sample_flags = default_flags\<lparr>fl_interval := 7, fl_nosm := True\<rparr>"

lemma store_try_once:
  assumes "kvi_reliable K view"
  shows "\<exists>n. fst (store_try K (rounds (store_try K) n kv))"
  using kvi_reliable.store_never [OF assms, of HBTD_HEALTH_KEY HBTD_HEALTH_OK kv]
  by (intro exI [of _ 0]) (simp add: store_try_def split_beta)

lemma start_sample:
  assumes "kvi_reliable K view"
  shows "\<exists>s. main_start K getenv sample_flags (\<lambda>n. True) (\<lambda>ix. True) rnd kv =
     Serving s (createInstanceKey rnd) \<and> int_param (check_interval (app_params s)) = 7 \<and>
     clear_on_gap (app_params s) = clear_on_gap (parse_env_vars getenv initAppParams)"
proof -
  obtain p up where p: "parse_cmd_line sample_flags (parse_env_vars getenv initAppParams, URL_PORT) = Some (p, up)"
    by (cases "parse_cmdline_params (flag_params sample_flags) (parse_env_vars getenv initAppParams, URL_PORT)")
      (simp add: parse_cmd_line_def sample_flags_def default_flags_def)
  then have p': "p = fst (parse_cmdline_params (flag_params sample_flags) (parse_env_vars getenv initAppParams, URL_PORT))"
    by (simp add: parse_cmd_line_def split: if_splits)
  then have url: "string_param (kv_url p) \<noteq> []"
    by (simp add: parse_cmdline_params_def Let_def flag_params_def flag_str_def str_app_def
        sample_flags_def default_flags_def KV_URL_BASE_def UNSTR_def)
  have ci: "int_param (check_interval p) = 7"
    unfolding p' by (simp add: parse_cmdline_params_def Let_def flag_params_def flag_int_def int_app_def
        sample_flags_def default_flags_def UNINT_def)
  have gap: "clear_on_gap p = clear_on_gap (parse_env_vars getenv initAppParams)"
    unfolding p' by (simp add: parse_cmdline_params_def Let_def)
  have "\<exists>n. fst (store_try K (rounds (store_try K) n kv))" by (rule store_try_once [OF assms])
  then have "openKV K getenv (\<lambda>ix. True) (process_start p up kv) \<noteq> None"
    using url unfolding openKV_iff by (auto simp: process_start_def)
  then obtain s1 where op: "openKV K getenv (\<lambda>ix. True) (process_start p up kv) = Some s1" by blast
  then have "app_params s1 = p" using openKV_result [OF op] url by (auto simp: process_start_def)
  moreover have "waitForHSM p (\<lambda>n. True) \<noteq> None" by (simp add: waitForHSM_eq)
  ultimately show ?thesis using p op ci gap by (auto simp: main_start_def checkLifeKeys_frame)
qed

lemmas sample_main_start = start_sample [OF mem.kvi_reliable_axioms]

theorem start_serves_witness:
  "\<exists>s. main_start mem_kvi (\<lambda>x. []) sample_flags (\<lambda>n. True) (\<lambda>ix. True) 7 gm_empty =
      Serving s (createInstanceKey 7) \<and> mem_view (kvs s) HBTD_HEALTH_KEY = Some HBTD_HEALTH_OK"
proof -
  obtain s where s: "main_start mem_kvi (\<lambda>x. []) sample_flags (\<lambda>n. True) (\<lambda>ix. True) 7 gm_empty =
      Serving s (createInstanceKey 7)" using sample_main_start by blast
  have "wf_store (mem_view gm_empty)" by (simp add: wf_store_def mem_view_def gm_empty_def)
  from start_serves [OF mem.kvi_store_axioms this s] s show ?thesis by blast
qed

text \<open>
  C20: An instance gets to serve. If no help is asked for, the State Manager is found ready at
  some poll, the \<open>kv_url\<close> flag is a URL and some attempt to open it succeeds, then on a store that
  does not fail \<open>main\<close> reaches the server loop, and the store it uses is the one of the flag.
\<close>

theorem start_reaches_serving:
  assumes "kvi_reliable K view" "\<not> fl_help fl" "\<exists>n. hsmReady n" "\<exists>ix \<ge> 1. opens ix"
    and "fl_kv_url fl \<noteq> []" "fl_kv_url fl \<noteq> UNSTR"
  shows "\<exists>s. main_start K getenv fl hsmReady opens rnd kv = Serving s (createInstanceKey rnd) \<and>
    string_param (kv_url (app_params s)) = fl_kv_url fl"
proof -
  obtain p up where p: "parse_cmd_line fl (parse_env_vars getenv initAppParams, URL_PORT) = Some (p, up)"
    using assms(2) by (cases "parse_cmdline_params (flag_params fl) (parse_env_vars getenv initAppParams, URL_PORT)")
      (simp add: parse_cmd_line_def)
  then have p': "p = fst (parse_cmdline_params (flag_params fl) (parse_env_vars getenv initAppParams, URL_PORT))"
    using assms(2) by (simp add: parse_cmd_line_def)
  have url: "string_param (kv_url p) = fl_kv_url fl"
    unfolding p' using assms(6)
    by (simp add: parse_cmdline_params_def Let_def flag_params_def flag_str_def str_app_def)
  have w: "waitForHSM p hsmReady \<noteq> None" using assms(3) by (simp add: waitForHSM_eq)
  have "\<exists>n. fst (store_try K (rounds (store_try K) n kv))" by (rule store_try_once [OF assms(1)])
  then have "openKV K getenv opens (process_start p up kv) \<noteq> None"
    unfolding openKV_iff using assms(4,5) url by (auto simp: process_start_def)
  then obtain s1 where op: "openKV K getenv opens (process_start p up kv) = Some s1" by blast
  have "string_param (kv_url (app_params s1)) = fl_kv_url fl"
    using openKV_result [OF op] url assms(5) by (auto simp: process_start_def)
  then show ?thesis
    using p w op by (auto simp: main_start_def checkLifeKeys_frame)
qed

theorem start_reaches_serving_witness:
  "\<exists>s. main_start mem_kvi (\<lambda>x. []) default_flags (\<lambda>n. n = 3) (\<lambda>ix. ix = 2) 7 gm_empty =
      Serving s (createInstanceKey 7) \<and> string_param (kv_url (app_params s)) = KV_URL_BASE"
proof -
  have f: "\<not> fl_help default_flags" "fl_kv_url default_flags \<noteq> []" "fl_kv_url default_flags \<noteq> UNSTR"
    by (simp_all add: default_flags_def KV_URL_BASE_def UNSTR_def)
  have r: "\<exists>n. n = (3::nat)" "\<exists>ix \<ge> 1. ix = (2::nat)" by simp_all
  show ?thesis
    using start_reaches_serving [where getenv = "\<lambda>x. []" and rnd = 7 and kv = gm_empty,
        OF mem.kvi_reliable_axioms f(1) r f(2,3)]
    by (simp add: default_flags_def)
qed

end
