(* ===== verification/Telebus.thy ===== *)
theory Telebus
  imports Notify Params
begin

text \<open>
  The telemetry bus: \<open>telebusConnect\<close> (\<open>hbtd.go\<close>), which opens and closes the connection, and
  \<open>telemetry_handler\<close> (\<open>track.go\<close>), which hands the queued messages to it. Both are loops of one
  round after the other; a round takes the parameters as they are when it starts. Whether
  \<open>msgbus.Connect\<close> succeeds is an argument; what is modelled of the bus is the list of texts
  that were given to \<open>MessageWrite\<close>, whose errors are only logged.
\<close>

section \<open>The connection\<close>

text \<open>Host, port and topic an open handle was connected with; \<open>None\<close> is a nil handle.\<close>

type_synonym msgbus = "(string \<times> int \<times> string) option"

definition telebus_round :: "(string \<times> int \<times> string \<Rightarrow> bool) \<Rightarrow> op_params \<Rightarrow> msgbus \<Rightarrow> msgbus" where
  "telebus_round connects p msgbusHandle =
     (if int_param (use_telemetry p) = 0 then None
      else
        case msgbusHandle of
          Some h \<Rightarrow> Some h
        | None \<Rightarrow>
            (case get_telemetry_host (string_param (telemetry_host p)) of
               None \<Rightarrow> None
             | Some cfg \<Rightarrow> if connects cfg then Some cfg else None))"

text \<open>One round per entry: the parameters it sees, and which connections would succeed.\<close>

definition telebusConnect ::
  "(op_params \<times> (string \<times> int \<times> string \<Rightarrow> bool)) list \<Rightarrow> msgbus \<Rightarrow> msgbus" where
  "telebusConnect rounds h = fold (\<lambda>(p, connects). telebus_round connects p) rounds h"

section \<open>The handler\<close>

definition telemetry_fields :: "telemetry_json \<Rightarrow> fields" where
  "telemetry_fields m =
     [(''MessageID'', tm_MessageID m), (''ID'', tm_ID m), (''NewState'', tm_NewState m),
      (''NewFlag'', tm_NewFlag m), (''LastHBTimeStamp'', tm_LastHBTimeStamp m), (''Info'', tm_Info m)]"

definition telemetry_marshal :: "telemetry_json \<Rightarrow> string option" where
  "telemetry_marshal m = json_marshal (fields_json (telemetry_fields m))"

text \<open>One round: the queue and what was written. \<open>None\<close>: it waits for a message.\<close>

definition telemetry_round ::
  "op_params \<Rightarrow> msgbus \<Rightarrow> telemetry_json list \<times> string list
    \<Rightarrow> (telemetry_json list \<times> string list) option" where
  "telemetry_round p msgbusHandle st =
     (if int_param (use_telemetry p) = 0 then Some st
      else
        case fst st of
          [] \<Rightarrow> None
        | tmsg # q \<Rightarrow>
            Some (q, if msgbusHandle \<noteq> None
                     then (case telemetry_marshal tmsg of
                             Some jdata \<Rightarrow> snd st @ [jdata] | None \<Rightarrow> snd st)
                     else snd st))"

section \<open>The messages of notifications\<close>

definition telemetry_of :: "hbinfo \<Rightarrow> int \<Rightarrow> telemetry_json" where
  "telemetry_of hb to_state =
     (let (st, fl, inf) = telemetry_text (change_of to_state) in
      \<lparr>tm_MessageID = TELEMETRY_MESSAGE_ID, tm_ID = Component hb, tm_NewState = st, tm_NewFlag = fl,
       tm_LastHBTimeStamp = Last_hb_timestamp hb, tm_Info = inf\<rparr>)"

lemma notify_telemetry:
  "nt_telemetry (hb_update_notify hb st n) = telemetry_send (telemetry_of hb st) (nt_telemetry n)"
  by (simp add: notify_defs telemetry_of_def Let_def split: prod.splits)

definition written_text :: "telemetry_json \<Rightarrow> string" where
  "written_text m = render (fields_json (telemetry_fields m))"

lemma telemetry_marshal_eq: "telemetry_marshal m = Some (written_text m)"
  by (simp add: telemetry_marshal_def json_marshal_def written_text_def)

text \<open>
  A history of notifications and rounds of the handler, each with the handle it sees; a round
  that has to wait does nothing.
\<close>

datatype bus_event = Noted hbinfo int | Handled op_params msgbus

fun bus_step :: "bus_event \<Rightarrow> notify \<times> string list \<Rightarrow> notify \<times> string list" where
  "bus_step (Noted hb st) (n, out) = (hb_update_notify hb st n, out)"
| "bus_step (Handled p h) (n, out) =
     (case telemetry_round p h (nt_telemetry n, out) of
        None \<Rightarrow> (n, out)
      | Some (q, out') \<Rightarrow> (n\<lparr>nt_telemetry := q\<rparr>, out'))"

definition bus_run :: "bus_event list \<Rightarrow> notify \<times> string list \<Rightarrow> notify \<times> string list" where
  "bus_run es st = fold bus_step es st"

text \<open>The messages of the notifications of a history, in order.\<close>

fun bus_messages :: "bus_event list \<Rightarrow> telemetry_json list" where
  "bus_messages [] = []"
| "bus_messages (Noted hb st # es) = telemetry_of hb st # bus_messages es"
| "bus_messages (Handled p h # es) = bus_messages es"

fun bus_open :: "bus_event \<Rightarrow> bool" where
  "bus_open (Noted hb st) = True"
| "bus_open (Handled p h) = (int_param (use_telemetry p) \<noteq> 0 \<longrightarrow> h \<noteq> None)"

text \<open>No notification of the history finds the queue full.\<close>

fun bus_fits :: "bus_event list \<Rightarrow> notify \<times> string list \<Rightarrow> bool" where
  "bus_fits [] st = True"
| "bus_fits (Noted hb to_state # es) st =
     (length (nt_telemetry (fst st)) < telemetryQ_cap \<and> bus_fits es (bus_step (Noted hb to_state) st))"
| "bus_fits (Handled p h # es) st = bus_fits es (bus_step (Handled p h) st)"

lemma bus_run_kept:
  assumes "list_all bus_open es" "bus_fits es st" "bus_run es st = st'"
  shows "snd st' @ map written_text (nt_telemetry (fst st')) =
    snd st @ map written_text (nt_telemetry (fst st)) @ map written_text (bus_messages es)"
  using assms
proof (induction es arbitrary: st)
  case Nil
  then show ?case by (simp add: bus_run_def)
next
  case (Cons e es)
  obtain n out where st: "st = (n, out)" by (cases st)
  have run: "bus_run es (bus_step e st) = st'" using Cons.prems(3) by (simp add: bus_run_def)
  show ?case
  proof (cases e)
    case (Noted hb to_state)
    then have room: "length (nt_telemetry n) < telemetryQ_cap" using Cons.prems(2) by (simp add: st)
    with Cons.IH [OF _ _ run] Cons.prems show ?thesis
      by (simp add: st Noted notify_telemetry telemetry_send_def)
  next
    case (Handled p h)
    show ?thesis
    proof (cases "int_param (use_telemetry p) = 0 \<or> nt_telemetry n = []")
      case True
      then have "bus_step e st = st" by (auto simp: Handled st telemetry_round_def)
      with Cons.IH [of st] run Cons.prems show ?thesis by (simp add: Handled)
    next
      case False
      then obtain m q where q: "nt_telemetry n = m # q" by (cases "nt_telemetry n") auto
      have "h \<noteq> None" using Cons.prems(1) False by (simp add: Handled)
      then have "bus_step e st = (n\<lparr>nt_telemetry := q\<rparr>, out @ [written_text m])"
        using False q by (auto simp: Handled st telemetry_round_def telemetry_marshal_eq)
      with Cons.IH [of "bus_step e st"] run Cons.prems show ?thesis by (simp add: Handled st q)
    qed
  qed
qed

section \<open>Properties\<close>

text \<open>
  C25: Telemetry is neither lost, nor repeated, nor reordered while the bus is up and the queue has
  room: over any history of notifications and rounds of the handler, of any length, in which the
  handle was open whenever telemetry was in use and no notification found the queue full, what has
  been written followed by what is queued is exactly the messages of the notifications, in their
  order. A notification that finds the queue full drops its message.
\<close>

theorem telemetry_in_order:
  assumes "list_all bus_open es" "bus_fits es (init_notify, [])"
    and "bus_run es (init_notify, []) = (n, out)"
  shows "out @ map written_text (nt_telemetry n) = map written_text (bus_messages es)"
  using bus_run_kept [OF assms] by (simp add: init_notify_def)

definition sample_bus :: msgbus where "sample_bus = Some (''kafka'', 9092, ''hb'')"

theorem telemetry_in_order_witness:
  "\<exists>n out. bus_run [Noted no_hbinfo HB_started, Noted no_hbinfo HB_stopped_error,
        Handled (set_use_telemetry 1 initAppParams) sample_bus] (init_notify, []) = (n, out) \<and>
     out @ map written_text (nt_telemetry n) =
       [written_text (telemetry_of no_hbinfo HB_started), written_text (telemetry_of no_hbinfo HB_stopped_error)]"
proof -
  let ?es = "[Noted no_hbinfo HB_started, Noted no_hbinfo HB_stopped_error,
      Handled (set_use_telemetry 1 initAppParams) sample_bus]"
  obtain n out where r: "bus_run ?es (init_notify, []) = (n, out)" by (metis prod.exhaust)
  have "list_all bus_open ?es" "bus_fits ?es (init_notify, [])"
    by (simp_all add: sample_bus_def telemetryQ_cap_def init_notify_def notify_telemetry telemetry_send_def)
  from telemetry_in_order [OF this r] r show ?thesis by auto
qed

text \<open>
  While the bus is down but telemetry is in use, the handler keeps taking messages from the
  queue and throws them away: a round with a nil handle drops the oldest message unwritten.
\<close>

theorem telemetry_lost_while_down:
  assumes "int_param (use_telemetry p) \<noteq> 0" "nt_telemetry n = m # q"
  shows "bus_step (Handled p None) (n, out) = (n\<lparr>nt_telemetry := q\<rparr>, out)"
  using assms by (simp add: telemetry_round_def)

theorem telemetry_lost_while_down_witness:
  "bus_step (Handled (set_use_telemetry 1 initAppParams) None)
     (hb_update_notify no_hbinfo HB_stopped_error init_notify, []) =
   ((hb_update_notify no_hbinfo HB_stopped_error init_notify)\<lparr>nt_telemetry := []\<rparr>, [])"
proof (rule telemetry_lost_while_down)
  show "int_param (use_telemetry (set_use_telemetry 1 initAppParams)) \<noteq> 0"
    by (simp add: set_use_telemetry_def)
  show "nt_telemetry (hb_update_notify no_hbinfo HB_stopped_error init_notify) =
      telemetry_of no_hbinfo HB_stopped_error # []"
    by (simp add: notify_telemetry telemetry_send_def init_notify_def telemetryQ_cap_def)
qed

text \<open>
  The bus a handle is connected to. After any rounds of \<open>telebusConnect\<close> that all had telemetry
  in use, an open handle stays on the host it was connected with, whatever the telemetry host has
  been patched to; and one round with telemetry off closes it.
\<close>

theorem telebus_keeps_host:
  assumes "\<forall>(p, c) \<in> set rounds. int_param (use_telemetry p) \<noteq> 0"
  shows "telebusConnect rounds (Some cfg) = Some cfg \<and>
    (int_param (use_telemetry q) = 0 \<longrightarrow> telebusConnect (rounds @ [(q, c)]) (Some cfg) = None)"
proof -
  have "telebusConnect rounds (Some cfg) = Some cfg"
    using assms by (induction rounds) (auto simp: telebusConnect_def telebus_round_def)
  then show ?thesis by (simp add: telebusConnect_def telebus_round_def)
qed

theorem telebus_keeps_host_witness:
  "telebusConnect [((set_use_telemetry 1 initAppParams)\<lparr>telemetry_host := str_app [] ''other:1:hb''\<rparr>,
     \<lambda>cfg. True)] sample_bus = sample_bus"
proof -
  let ?r = "[((set_use_telemetry 1 initAppParams)\<lparr>telemetry_host := str_app [] ''other:1:hb''\<rparr>,
     \<lambda>cfg::string \<times> int \<times> string. True)]"
  have "\<forall>(p, c) \<in> set ?r. int_param (use_telemetry p) \<noteq> 0" by (simp add: set_use_telemetry_def)
  from telebus_keeps_host [OF this] show ?thesis by (simp only: sample_bus_def)
qed

end
