(* ===== verification/Query.thy ===== *)
theory Query
  imports Checker_Passes
begin

text \<open>
  The handlers that read and set what the service knows (\<open>track.go\<close>): \<open>paramsIO\<close> (GET and PATCH
  of the parameters), \<open>isHeartbeating\<close> and the two handlers over it, \<open>hbStates\<close> (a list of
  components in the body) and \<open>hbStateSingle\<close> (one component in the URL).
\<close>

section \<open>Parameters\<close>

definition internal_marshal_rsp :: "string \<Rightarrow> response \<Rightarrow> response" where
  "internal_marshal_rsp errinst w =
     problem_rsp ''Internal Server Error'' ''Failed JSON marshall'' errinst 500 w"

text \<open>
  A PATCH in the three parts between which other threads can run: the new values from the body and
  a copy of the parameters, or the answer to a request that is refused; the assignment of the
  parameters; the store of the values then in force, and the answer.
\<close>

definition params_read :: "request \<Rightarrow> response \<Rightarrow> op_params \<Rightarrow> response + op_params" where
  "params_read r w p =
     (if rq_read_error r then
        Inl (problem_rsp ''Invalid Request'' ''Error reading inbound request'' URL_PARAMS 400 w)
      else
        let (rc, q, errstrs) = parm_values p (rq_body r) PARAM_PATCH []
        in if rc \<noteq> 0 then Inl (problem_rsp ''Invalid Request'' errstrs URL_PARAMS 400 w) else Inr q)"

definition params_set :: "op_params \<Rightarrow> 's hbtd \<Rightarrow> 's hbtd" where
  "params_set q s =
     (let (p, url_port) = parm_commit 0 q (app_params s, server_url_port s)
      in s\<lparr>app_params := p, server_url_port := url_port\<rparr>)"

definition params_store :: "'s kvi \<Rightarrow> response \<Rightarrow> 's hbtd \<Rightarrow> response \<times> 's hbtd" where
  "params_store K w s =
     (case gen_cur_param_json (app_params s) of
        None \<Rightarrow> (internal_marshal_rsp URL_PARAMS w, s)
      | Some rparams \<Rightarrow>
          let (merr, kv) = kv_store K KV_PARAM_KEY rparams (kvs s);
              s1 = s\<lparr>kvs := kv\<rparr>
          in if merr \<noteq> None then
               (problem_rsp ''Internal Server Error'' ''Failed KV service STORE operation''
                  URL_PARAMS 500 w, s1)
             else (write_body rparams (write_header 200 w), s1))"

definition paramsIO :: "'s kvi \<Rightarrow> request \<Rightarrow> response \<Rightarrow> 's hbtd \<Rightarrow> response \<times> 's hbtd" where
  "paramsIO K r w s =
     (if rq_method r = ''PATCH'' then
        (case params_read r w (app_params s) of
           Inl w' \<Rightarrow> (w', s)
         | Inr q \<Rightarrow> params_store K w (params_set q s))
      else if rq_method r = ''GET'' then
        case gen_cur_param_json (app_params s) of
          None \<Rightarrow> (internal_marshal_rsp URL_PARAMS w, s)
        | Some rparams \<Rightarrow>
            (write_body rparams (write_header 200
               (header_set ''Content-Type'' ''application/json'' w)), s)
      else (method_rsp ''GET,PATCH'' ''Only PATCH and GET operations supported'' URL_PARAMS w, s))"

text \<open>With nothing in between, a PATCH is \<open>parse_parm_json\<close> on the parameters and the store.\<close>

lemma paramsIO_parse:
  "paramsIO K r w s =
     (if rq_method r = ''PATCH'' then
        if rq_read_error r then
          (problem_rsp ''Invalid Request'' ''Error reading inbound request'' URL_PARAMS 400 w, s)
        else
          let (rc, p, url_port, errstrs) =
                parse_parm_json (app_params s) (server_url_port s) (rq_body r) PARAM_PATCH [];
              s1 = s\<lparr>app_params := p, server_url_port := url_port\<rparr>
          in if rc \<noteq> 0 then (problem_rsp ''Invalid Request'' errstrs URL_PARAMS 400 w, s1)
             else params_store K w s1
      else if rq_method r = ''GET'' then
        case gen_cur_param_json (app_params s) of
          None \<Rightarrow> (internal_marshal_rsp URL_PARAMS w, s)
        | Some rparams \<Rightarrow>
            (write_body rparams (write_header 200
               (header_set ''Content-Type'' ''application/json'' w)), s)
      else (method_rsp ''GET,PATCH'' ''Only PATCH and GET operations supported'' URL_PARAMS w, s))"
proof -
  obtain rc q es where "parm_values (app_params s) (rq_body r) PARAM_PATCH [] = (rc, q, es)"
    by (metis prod_cases3)
  then show ?thesis
    by (simp add: paramsIO_def params_read_def params_set_def parse_parm_json_def parm_commit_def)
qed

lemmas paramsIO_eq = paramsIO_parse params_store_def

section \<open>Is a component heartbeating\<close>

text \<open>The result is the answer and the problem to report, with the store after the read.\<close>

definition isHeartbeating ::
  "'s kvi \<Rightarrow> string \<Rightarrow> int \<Rightarrow> string \<Rightarrow> 's hbtd \<Rightarrow> (bool \<times> problem option) \<times> 's hbtd" where
  "isHeartbeating K xname now errinst s =
     (let ((kval, kok, kerr), kv) = kv_get K xname (kvs s);
          s1 = s\<lparr>kvs := kv\<rparr>
      in if kerr \<noteq> None then
           ((False, Some (new_problem_details ''about:blank'' ''Invalid Request''
              (''Error retrieving key '' @ [CHR 0x27] @ xname @ [CHR 0x27]) errinst 500)), s1)
         else if \<not> kok then ((False, None), s1)
         else
           let (hbb, ok) = hbinfo_unmarshal kval no_hbinfo
           in if \<not> ok then
                ((False, Some (new_problem_details ''about:blank'' ''Internal Server Error''
                   (''Error unmarshalling JSON for key '' @ [CHR 0x27] @ xname @ [CHR 0x27])
                   errinst 500)), s1)
              else
                let tdiff = int64 (now - parse_time (Last_hb_rcv_time hbb))
                in ((\<not> int_param (errtime (app_params s1)) \<le> tdiff, None), s1))"

section \<open>The request of hbStates\<close>

text \<open>
  Decoding into a slice of strings reuses the slice: its backing array (here a list, zero
  beyond its end) is kept when the key occurs again, \<open>null\<close> elements leave what is there, an
  empty array or \<open>null\<close> starts afresh. The state is the backing array, the length, and whether
  no type error has been recorded.
\<close>

fun decode_elems :: "string list \<Rightarrow> json list \<Rightarrow> string list \<times> bool" where
  "decode_elems old [] = (old, True)"
| "decode_elems old (v # vs) =
     (let (rest, ok) = decode_elems (tl old) vs;
          prior_elem = (if old = [] then [] else hd old)
      in case v of
           JStr s \<Rightarrow> (s # rest, ok)
         | JNull \<Rightarrow> (prior_elem # rest, ok)
         | _ \<Rightarrow> (prior_elem # rest, False))"

definition decode_slice :: "json \<Rightarrow> string list \<times> nat \<times> bool \<Rightarrow> string list \<times> nat \<times> bool" where
  "decode_slice v st =
     (let (b, n, ok) = st in
      case v of
        JNull \<Rightarrow> ([], 0, ok)
      | JArr vs \<Rightarrow>
          (if vs = [] then ([], 0, ok)
           else let (b', ok') = decode_elems b vs in (b', length vs, ok \<and> ok'))
      | _ \<Rightarrow> (b, n, False))"

definition hbStatesReq_unmarshal :: "string \<Rightarrow> string list \<times> bool" where
  "hbStatesReq_unmarshal body =
     (case parse_json body of
        None \<Rightarrow> ([], False)
      | Some JNull \<Rightarrow> ([], True)
      | Some (JObj kvl) \<Rightarrow>
          (let (b, n, ok) = fold (\<lambda>(k, v) st. if find_field [''XNames''] k = None then st
                                     else decode_slice v st) kvl ([], 0, True)
           in (take n b, ok))
      | Some _ \<Rightarrow> ([], False))"

section \<open>The handlers of states\<close>

record hbSingleStateRsp =
  hs_XName :: string
  hs_Heartbeating :: bool

definition single_json :: "hbSingleStateRsp \<Rightarrow> json" where
  "single_json h = JObj [(''XName'', JStr (hs_XName h)), (''Heartbeating'', JBool (hs_Heartbeating h))]"

text \<open>A slice that was never appended to is \<open>nil\<close>, and prints as \<open>null\<close>.\<close>

definition states_json :: "hbSingleStateRsp list \<Rightarrow> json" where
  "states_json hs = JObj [(''HBStates'', if hs = [] then JNull else JArr (map single_json hs))]"

text \<open>The loop of \<open>hbStates\<close>; it stops at the first problem.\<close>

fun states_loop ::
  "'s kvi \<Rightarrow> int \<Rightarrow> string \<Rightarrow> string list \<Rightarrow> hbSingleStateRsp list \<Rightarrow> 's hbtd
    \<Rightarrow> (problem + hbSingleStateRsp list) \<times> 's hbtd" where
  "states_loop K now errinst [] acc s = (Inr acc, s)"
| "states_loop K now errinst (c # cs) acc s =
     (case isHeartbeating K c now errinst s of
        ((_, Some pdet), s1) \<Rightarrow> (Inl pdet, s1)
      | ((isHB, None), s1) \<Rightarrow>
          states_loop K now errinst cs
            (acc @ [\<lparr>hs_XName = c, hs_Heartbeating = isHB\<rparr>]) s1)"

definition json_rsp :: "string \<Rightarrow> json \<Rightarrow> response \<Rightarrow> response" where
  "json_rsp errinst j w =
     (case json_marshal j of
        None \<Rightarrow> problem_rsp ''Internal Server Error'' ''Error marshalling JSON return data'' errinst 500 w
      | Some ba \<Rightarrow>
          write_body ba (write_header 200 (header_set ''Content-Type'' ''application/json'' w)))"

definition hbStates ::
  "'s kvi \<Rightarrow> clock \<Rightarrow> request \<Rightarrow> response \<Rightarrow> 's hbtd \<Rightarrow> response \<times> 's hbtd" where
  "hbStates K clk r w s =
     (if rq_read_error r then
        (problem_rsp ''Invalid Request'' ''Error reading inbound request'' URL_HB_STATES 400 w, s)
      else
        let (xnames, ok) = hbStatesReq_unmarshal (rq_body r)
        in if \<not> ok then
             (problem_rsp ''Invalid Request'' ''Error unmarshalling inbound request''
                URL_HB_STATES 400 w, s)
           else
             let (now, s1) = read_clock clk s
             in case states_loop K now URL_HB_STATES xnames [] s1 of
                  (Inl pdet, s2) \<Rightarrow> (send_problem_details pdet 0 w, s2)
                | (Inr rsp, s2) \<Rightarrow> (json_rsp URL_HB_STATES (states_json rsp) w, s2))"

definition hbStateSingle ::
  "'s kvi \<Rightarrow> clock \<Rightarrow> (string \<Rightarrow> string) \<Rightarrow> request \<Rightarrow> response \<Rightarrow> 's hbtd \<Rightarrow> response \<times> 's hbtd" where
  "hbStateSingle K clk norm_xname r w s =
     (let targ = norm_xname (rq_xname r);
          errinst = URL_HB_STATE @ ''/'' @ targ;
          (now, s1) = read_clock clk s
      in case isHeartbeating K targ now errinst s1 of
           ((_, Some pdet), s2) \<Rightarrow> (send_problem_details pdet 0 w, s2)
         | ((isHB, None), s2) \<Rightarrow>
             (json_rsp errinst (single_json \<lparr>hs_XName = targ, hs_Heartbeating = isHB\<rparr>) w, s2))"

section \<open>The answer to a query\<close>

definition alive :: "op_params \<Rightarrow> int \<Rightarrow> string option \<Rightarrow> bool" where
  "alive p now vo =
     (case vo of None \<Rightarrow> False
      | Some v \<Rightarrow> int64 (now - parse_time (Last_hb_rcv_time (fst (hbinfo_unmarshal v no_hbinfo))))
          < int_param (errtime p))"

definition readable :: "string option \<Rightarrow> bool" where
  "readable vo = (case vo of None \<Rightarrow> True | Some v \<Rightarrow> snd (hbinfo_unmarshal v no_hbinfo))"

definition answer :: "op_params \<Rightarrow> int \<Rightarrow> (string \<rightharpoonup> string) \<Rightarrow> string \<Rightarrow> hbSingleStateRsp" where
  "answer p now m x = \<lparr>hs_XName = x, hs_Heartbeating = alive p now (m x)\<rparr>"

lemma kvs_frame_tick: "s' = s\<lparr>kvs := kv\<rparr> \<Longrightarrow> tick s' = tick s"
  by simp

context kvi_store
begin

lemma isHeartbeating_frame:
  assumes "isHeartbeating K x now errinst s = (res, s')"
  shows "s' = s\<lparr>kvs := kvs s'\<rparr>" "view (kvs s') = view (kvs s)"
proof -
  obtain kval kok kerr kv where get: "kv_get K x (kvs s) = ((kval, kok, kerr), kv)"
    by (metis prod.exhaust)
  have "view kv = view (kvs s)" using get_view [of x "kvs s"] get by simp
  moreover have "s' = s\<lparr>kvs := kv\<rparr>"
    using assms get by (auto simp: isHeartbeating_def Let_def split: if_splits prod.splits)
  ultimately show "s' = s\<lparr>kvs := kvs s'\<rparr>" "view (kvs s') = view (kvs s)" by simp_all
qed

lemma states_loop_frame:
  "states_loop K now errinst xs acc s = (res, s') \<Longrightarrow>
   s' = s\<lparr>kvs := kvs s'\<rparr> \<and> view (kvs s') = view (kvs s)"
proof (induction xs arbitrary: acc s)
  case (Cons x xs)
  obtain b pd s1 where h: "isHeartbeating K x now errinst s = ((b, pd), s1)"
    by (metis prod.exhaust)
  note fr = isHeartbeating_frame [OF h]
  show ?case
  proof (cases pd)
    case None
    then have "states_loop K now errinst xs (acc @ [\<lparr>hs_XName = x, hs_Heartbeating = b\<rparr>]) s1 = (res, s')"
      using Cons.prems h by simp
    note IH = Cons.IH [OF this]
    have "s\<lparr>kvs := kvs s'\<rparr> = s1\<lparr>kvs := kvs s'\<rparr>" by (subst fr(1)) simp
    with IH fr(2) show ?thesis by simp
  qed (use Cons.prems h fr in simp)
qed simp

end

context kvi_reliable
begin

lemma isHeartbeating_result:
  "\<exists>s'. isHeartbeating K x now errinst s =
     (if readable (view (kvs s) x) then (alive (app_params s) now (view (kvs s) x), None)
      else (False, Some (new_problem_details ''about:blank'' ''Internal Server Error''
        (''Error unmarshalling JSON for key '' @ [CHR 0x27] @ x @ [CHR 0x27]) errinst 500)), s')"
proof -
  obtain kval kok kerr kv where get: "kv_get K x (kvs s) = ((kval, kok, kerr), kv)"
    by (metis prod.exhaust)
  have "kerr = None" "view (kvs s) x = (if kok then Some kval else None)"
    using get_result [of x "kvs s" kval kok kerr] get by simp_all
  with get show ?thesis
    by (auto simp: isHeartbeating_def alive_def readable_def Let_def not_le split: prod.splits)
qed

lemma states_loop_result:
  "\<forall>x \<in> set xs. readable (view (kvs s) x) \<Longrightarrow>
   \<exists>s'. states_loop K now errinst xs acc s =
     (Inr (acc @ map (answer (app_params s) now (view (kvs s))) xs), s')"
proof (induction xs arbitrary: acc s)
  case (Cons x xs)
  obtain s1 where h: "isHeartbeating K x now errinst s = ((alive (app_params s) now (view (kvs s) x), None), s1)"
    using isHeartbeating_result [of x now errinst s] Cons.prems by auto
  note fr = isHeartbeating_frame [OF h]
  have "app_params s1 = app_params s" by (subst fr(1)) simp
  with Cons.IH [of s1 "acc @ [answer (app_params s) now (view (kvs s)) x]"] Cons.prems fr(2) h
  show ?case by (simp add: answer_def)
qed simp

lemma states_loop_error:
  "\<exists>x \<in> set xs. \<not> readable (view (kvs s) x) \<Longrightarrow>
   \<exists>pd s'. states_loop K now errinst xs acc s = (Inl pd, s') \<and> pd_status pd = 500"
proof (induction xs arbitrary: acc s)
  case (Cons x xs)
  show ?case
  proof (cases "readable (view (kvs s) x)")
    case True
    then obtain s1 where h: "isHeartbeating K x now errinst s = ((alive (app_params s) now (view (kvs s) x), None), s1)"
      using isHeartbeating_result [of x now errinst s] by auto
    with Cons.IH [of s1] Cons.prems isHeartbeating_frame(2) [OF h] True show ?thesis by simp
  next
    case False
    then show ?thesis
      using isHeartbeating_result [of x now errinst s] by (auto simp: new_problem_details_def)
  qed
qed simp

end

lemma problem_status [simp]:
  "pd_status pd \<noteq> 0 \<Longrightarrow> rw_status w = None \<Longrightarrow>
   rw_status (send_problem_details pd 0 w) = Some (pd_status pd)"
  by (simp add: send_problem_details_def Let_def)

lemma json_rsp_result [simp]:
  "rw_status w = None \<Longrightarrow> rw_status (json_rsp e j w) = Some 200"
  "rw_status w = None \<Longrightarrow> rw_body (json_rsp e j w) = rw_body w @ render j"
  by (simp_all add: json_rsp_def json_marshal_def write_body_def write_header_def header_set_def Let_def)

text \<open>A list of names sent by a client is read back, invalid UTF-8 replaced.\<close>

definition states_request :: "string list \<Rightarrow> json" where
  "states_request xs = JObj [(''XNames'', JArr (map JStr xs))]"

lemma decode_elems_strings: "decode_elems [] (map JStr xs) = (xs, True)"
  by (induction xs) simp_all

lemma states_request_read:
  "hbStatesReq_unmarshal (render (states_request xs)) = (map sanitize xs, True)"
proof -
  have "numbers_ok (states_request xs)" by (auto simp: states_request_def list_all_iff)
  moreover have "foldr max (map depth (map JStr xs)) 0 \<le> 0" unfolding foldr_max_le by auto
  then have "depth (states_request xs) \<le> max_depth"
    by (simp add: states_request_def max_depth_def)
  moreover have "clean (states_request xs) = JObj [(''XNames'', JArr (map JStr (map sanitize xs)))]"
    by (simp add: states_request_def ascii_def comp_def)
  ultimately have "parse_json (render (states_request xs)) =
      Some (JObj [(''XNames'', JArr (map JStr (map sanitize xs)))])"
    using parse_render by metis
  then show ?thesis
    by (simp add: hbStatesReq_unmarshal_def find_field_def decode_slice_def decode_elems_strings
        del: map_map split: prod.splits)
qed

section \<open>Properties\<close>

text \<open>
  C24: \<open>POST /hbstates\<close> answers for exactly the components asked for, in their order. On a store
  that does not fail, when the records asked for are readable, the answer is 200 and says of
  each name whether it has a record younger than the error time, all ages taken from one
  reading of the clock; nothing changes but that reading.
\<close>

theorem hb_states_answers:
  assumes "kvi_reliable K view" "\<not> rq_read_error r" "hbStatesReq_unmarshal (rq_body r) = (xs, True)"
    and "\<forall>x \<in> set xs. readable (view (kvs s) x)"
  shows "\<exists>w' s'. hbStates K clk r new_response s = (w', s') \<and> rw_status w' = Some 200 \<and>
    rw_body w' = render (states_json
      (map (answer (app_params s) (clk (tick s)) (view (kvs s))) xs)) \<and>
    view (kvs s') = view (kvs s) \<and> s' = s\<lparr>tick := tick s + 1, kvs := kvs s'\<rparr>"
proof -
  let ?s1 = "s\<lparr>tick := tick s + 1\<rparr>"
  have "\<forall>x \<in> set xs. readable (view (kvs ?s1) x)" using assms(4) by simp
  from kvi_reliable.states_loop_result [OF assms(1) this, of "clk (tick s)" URL_HB_STATES "[]"]
  obtain s' where l: "states_loop K (clk (tick s)) URL_HB_STATES xs [] ?s1 =
      (Inr (map (answer (app_params s) (clk (tick s)) (view (kvs s))) xs), s')" by auto
  have fr: "s' = s\<lparr>tick := tick s + 1, kvs := kvs s'\<rparr>" "view (kvs s') = view (kvs s)"
    using kvi_store.states_loop_frame [OF kvi_reliable.axioms(1) [OF assms(1)] l] by simp_all
  have eq: "hbStates K clk r new_response s = (json_rsp URL_HB_STATES (states_json
      (map (answer (app_params s) (clk (tick s)) (view (kvs s))) xs)) new_response, s')"
    using assms(2,3) l by (simp add: hbStates_def read_clock_def)
  show ?thesis
    by (intro exI conjI, rule eq) (use fr in simp_all)
qed

definition states_sample :: "string list \<Rightarrow> request" where
  "states_sample xs =
     \<lparr>rq_method = ''POST'', rq_body = render (states_request xs), rq_read_error = False,
      rq_xname = [], rq_path = URL_HB_STATES\<rparr>"

lemma states_sample_read:
  "\<not> rq_read_error (states_sample xs)"
  "list_all ascii xs \<Longrightarrow> hbStatesReq_unmarshal (rq_body (states_sample xs)) = (xs, True)"
  by (simp_all add: states_sample_def states_request_read list_all_iff map_idI)

lemma sample_readable: "readable (mem_view (kvs (sample_store HB_WARN_NONE)) x)"
  using sample_good [OF ascii_warnings(1)]
  by (simp add: readable_def sample_view good_rec_def complete_def)

lemma sample_answer:
  "clock_ok t \<Longrightarrow> answer (app_params (sample_store HB_WARN_NONE)) t
     (mem_view (kvs (sample_store HB_WARN_NONE))) x =
   \<lparr>hs_XName = x, hs_Heartbeating = (x = ''x0'' \<and> int64 (t - 100) < 30)\<rparr>"
  using sample_good [OF ascii_warnings(1)] sample_overdue [of t _ HB_WARN_NONE]
  by (simp add: answer_def alive_def sample_view good_rec_def complete_def overdue_def)

theorem hb_states_answers_witness:
  "\<exists>w' s'. hbStates mem_kvi (\<lambda>n. 115) (states_sample [''x9'', ''x0'']) new_response
      (sample_store HB_WARN_NONE) = (w', s') \<and>
    rw_body w' = render (states_json [\<lparr>hs_XName = ''x9'', hs_Heartbeating = False\<rparr>,
      \<lparr>hs_XName = ''x0'', hs_Heartbeating = True\<rparr>])"
proof -
  have rd: "hbStatesReq_unmarshal (rq_body (states_sample [''x9'', ''x0''])) = ([''x9'', ''x0''], True)"
    by (rule states_sample_read(2)) (simp add: ascii_def)
  have "\<forall>x \<in> set [''x9'', ''x0'']. readable (mem_view (kvs (sample_store HB_WARN_NONE)) x)"
    by (simp only: sample_readable) simp
  from hb_states_answers [OF mem.kvi_reliable_axioms states_sample_read(1) rd this, of "\<lambda>n. 115"]
  obtain w' s' where "hbStates mem_kvi (\<lambda>n. 115) (states_sample [''x9'', ''x0'']) new_response
      (sample_store HB_WARN_NONE) = (w', s')"
    and b: "rw_body w' = render (states_json (map (answer (app_params (sample_store HB_WARN_NONE)) 115
      (mem_view (kvs (sample_store HB_WARN_NONE)))) [''x9'', ''x0'']))" by blast
  moreover have "map (answer (app_params (sample_store HB_WARN_NONE)) 115
      (mem_view (kvs (sample_store HB_WARN_NONE)))) [''x9'', ''x0''] =
      [\<lparr>hs_XName = ''x9'', hs_Heartbeating = False\<rparr>, \<lparr>hs_XName = ''x0'', hs_Heartbeating = True\<rparr>]"
    by (simp add: sample_answer clock_ok_def sample_int64)
  ultimately show ?thesis by (metis (no_types))
qed

text \<open>
  One unreadable record spoils the whole answer of \<open>POST /hbstates\<close>: if the record of any
  of the components asked for does not decode, the answer is 500 and says nothing of the others.
\<close>

theorem hb_states_one_bad:
  assumes "kvi_reliable K view" "\<not> rq_read_error r" "hbStatesReq_unmarshal (rq_body r) = (xs, True)"
    and "x \<in> set xs" "\<not> readable (view (kvs s) x)"
  shows "rw_status (fst (hbStates K clk r new_response s)) = Some 500"
proof -
  let ?s1 = "s\<lparr>tick := tick s + 1\<rparr>"
  have "\<exists>x \<in> set xs. \<not> readable (view (kvs ?s1) x)" using assms(4,5) by auto
  from kvi_reliable.states_loop_error [OF assms(1) this, of "clk (tick s)" URL_HB_STATES "[]"]
  obtain pd s' where "states_loop K (clk (tick s)) URL_HB_STATES xs [] ?s1 = (Inl pd, s')"
    "pd_status pd = 500" by blast
  then show ?thesis using assms(2,3) by (simp add: hbStates_def read_clock_def)
qed

theorem hb_states_one_bad_witness:
  "rw_status (fst (hbStates mem_kvi (\<lambda>n. 115) (states_sample [''x0'', ''x9'']) new_response
     (sample_state (gm_set ''x9'' [] gm_empty)))) = Some 500"
proof (rule hb_states_one_bad [OF mem.kvi_reliable_axioms states_sample_read(1)])
  show "hbStatesReq_unmarshal (rq_body (states_sample [''x0'', ''x9''])) = ([''x0'', ''x9''], True)"
    by (rule states_sample_read(2)) (simp add: ascii_def)
  show "''x9'' \<in> set [''x0'', ''x9'']" by simp
  have "parse_json [] = None" by (simp add: parse_json_def lex_end_def)
  then show "\<not> readable (mem_view (kvs (sample_state (gm_set ''x9'' [] gm_empty))) ''x9'')"
    by (simp add: readable_def sample_state_def mem_view_def hbinfo_unmarshal_def
        unmarshal_strings_def)
qed

text \<open>
  C23: What \<open>GET /hbstate/{xname}\<close> says of a component agrees with the checker: when the two read
  the clock at the same time and there is no monitoring gap, the component is called heartbeating
  exactly when the check of its record does not collect it for deletion, whether or not it has been
  warned about, and the check collects no other key on its behalf.
\<close>

theorem hb_state_agrees_with_check:
  assumes "kvi_reliable K view" "view (kvs s) (norm_xname (rq_xname r)) = Some v"
    and "complete v h" "norm_xname (rq_xname r) \<noteq> KV_PARAM_KEY"
    and "app_params t = app_params s" "\<not> staleKeys t" "clk' (tick t) = clk (tick s)"
    and "check_one clk' (norm_xname (rq_xname r), v) (sc, t) = (sc', t')"
  shows "\<exists>hb w' s'. hbStateSingle K clk norm_xname r new_response s = (w', s') \<and>
    rw_status w' = Some 200 \<and> view (kvs s') = view (kvs s) \<and>
    rw_body w' = render (single_json \<lparr>hs_XName = norm_xname (rq_xname r), hs_Heartbeating = hb\<rparr>) \<and>
    sc_delete sc' = sc_delete sc @ (if hb then [] else [norm_xname (rq_xname r)])"
proof -
  let ?x = "norm_xname (rq_xname r)" and ?s1 = "s\<lparr>tick := tick s + 1\<rparr>"
  let ?b = "alive (app_params s) (clk (tick s)) (view (kvs s) ?x)"
  have um: "hbinfo_unmarshal v h0 = (h, True)" for h0
    using assms(3) by (simp add: complete_unmarshal)
  have "readable (view (kvs ?s1) ?x)" by (simp add: readable_def assms(2) um)
  with kvi_reliable.isHeartbeating_result [OF assms(1), of ?x "clk (tick s)"
      "URL_HB_STATE @ ''/'' @ ?x" ?s1]
  obtain s' where i: "isHeartbeating K ?x (clk (tick s)) (URL_HB_STATE @ ''/'' @ ?x) ?s1 =
      ((?b, None), s')" by auto
  have b: "?b = (fst (verdict (app_params t) (staleKeys t) (clk' (tick t)) (clk' (tick t + 1)) h) \<noteq> None)"
    using assms(5,6,7) by (auto simp: alive_def assms(2) um verdict_def Let_def)
  have del: "sc_delete sc' = sc_delete sc @ (if ?b then [] else [?x])"
    unfolding check_one_complete(1) [OF assms(3,4) refl assms(8)] b by simp
  have fr: "view (kvs s') = view (kvs s)"
    using kvi_store.isHeartbeating_frame(2) [OF kvi_reliable.axioms(1) [OF assms(1)] i] by simp
  have "hbStateSingle K clk norm_xname r new_response s =
      (json_rsp (URL_HB_STATE @ ''/'' @ ?x) (single_json \<lparr>hs_XName = ?x, hs_Heartbeating = ?b\<rparr>)
         new_response, s')"
    using i by (simp add: hbStateSingle_def read_clock_def Let_def)
  with fr del show ?thesis by (intro exI [of _ ?b]) simp
qed

text \<open>A component past the error time: the query says so and the check collects it.\<close>

theorem hb_state_agrees_with_check_witness:
  "\<exists>w' s' sc' t'. hbStateSingle mem_kvi (\<lambda>n. 200) (\<lambda>x. x) (sample_request\<lparr>rq_xname := ''x0''\<rparr>)
      new_response (sample_store HB_WARN_NONE) = (w', s') \<and>
    check_one (\<lambda>n. 200) (''x0'', the (hbinfo_marshal (sample_rec HB_WARN_NONE)))
      (init_scan, sample_store HB_WARN_NONE) = (sc', t') \<and> sc_delete sc' = [''x0''] \<and>
    rw_body w' = render (single_json \<lparr>hs_XName = ''x0'', hs_Heartbeating = False\<rparr>)"
proof -
  let ?r = "sample_request\<lparr>rq_xname := ''x0''\<rparr>" and ?s = "sample_store HB_WARN_NONE"
  let ?v = "the (hbinfo_marshal (sample_rec HB_WARN_NONE))"
  have v: "mem_view (kvs ?s) ''x0'' = Some ?v" by (simp add: sample_view)
  have g: "complete ?v (sample_rec HB_WARN_NONE)"
    using sample_good [OF ascii_warnings(1)] by (simp add: good_rec_def)
  obtain sc' t' where ck: "check_one (\<lambda>n. 200) (''x0'', ?v) (init_scan, ?s) = (sc', t')"
    by (metis prod.exhaust)
  have x: "''x0'' \<noteq> KV_PARAM_KEY" by (simp add: KV_PARAM_KEY_def)
  have "fst (verdict (app_params ?s) (staleKeys ?s) 200 200 (sample_rec HB_WARN_NONE)) = None"
    using sample_overdue [of 200 _ HB_WARN_NONE]
    by (simp add: verdict_def overdue_def clock_ok_def sample_int64)
  then have d: "sc_delete sc' = [''x0'']"
    using check_one_complete(1) [OF g x refl ck] by (simp add: init_scan_def)
  have "\<exists>hb w' s'. hbStateSingle mem_kvi (\<lambda>n. 200) (\<lambda>x. x) ?r new_response ?s = (w', s') \<and>
      rw_status w' = Some 200 \<and> mem_view (kvs s') = mem_view (kvs ?s) \<and>
      rw_body w' = render (single_json \<lparr>hs_XName = ''x0'', hs_Heartbeating = hb\<rparr>) \<and>
      sc_delete sc' = sc_delete init_scan @ (if hb then [] else [rq_xname ?r])"
    using hb_state_agrees_with_check [OF mem.kvi_reliable_axioms, where norm_xname = "\<lambda>x. x"
        and r = ?r and s = ?s and clk = "\<lambda>n. 200" and clk' = "\<lambda>n. 200" and t = ?s and sc = init_scan,
        simplified, OF v g x ck] .
  then obtain hb w' s' where h: "hbStateSingle mem_kvi (\<lambda>n. 200) (\<lambda>x. x) ?r new_response ?s = (w', s')"
      "rw_body w' = render (single_json \<lparr>hs_XName = ''x0'', hs_Heartbeating = hb\<rparr>)"
      "sc_delete sc' = sc_delete init_scan @ (if hb then [] else [rq_xname ?r])" by blast
  have none: "sc_delete init_scan = []" by (simp add: init_scan_def)
  have "\<not> hb" using h(3) unfolding d none by (cases hb) simp_all
  then have "rw_body w' = render (single_json \<lparr>hs_XName = ''x0'', hs_Heartbeating = False\<rparr>)"
    using h(2) by simp
  then show ?thesis by (intro exI [of _ w'] exI [of _ s'] exI [of _ sc'] exI [of _ t'] conjI h(1) ck d)
qed

lemma queries_frame:
  assumes "kvi_store K view"
    and "res = hbStates K clk r w s \<or> res = hbStateSingle K clk norm_xname r w s \<or>
      rq_method r \<noteq> ''PATCH'' \<and> res = paramsIO K r w s"
  shows "view (kvs (snd res)) = view (kvs s) \<and>
    snd res = s\<lparr>tick := tick (snd res), kvs := kvs (snd res)\<rparr>"
  using assms(2)
proof (elim disjE)
  let ?s1 = "s\<lparr>tick := tick s + 1\<rparr>"
  assume r: "res = hbStates K clk r w s"
  show ?thesis
  proof (cases "rq_read_error r \<or> \<not> snd (hbStatesReq_unmarshal (rq_body r))")
    case True
    then show ?thesis by (auto simp: r hbStates_def split: prod.splits)
  next
    case False
    then obtain xs where xs: "hbStatesReq_unmarshal (rq_body r) = (xs, True)"
      by (cases "hbStatesReq_unmarshal (rq_body r)") auto
    obtain x s' where l: "states_loop K (clk (tick s)) URL_HB_STATES xs [] ?s1 = (x, s')"
      by (metis prod.exhaust)
    have "snd res = s'" using False xs l by (cases x) (simp_all add: r hbStates_def read_clock_def)
    moreover have "s' = ?s1\<lparr>kvs := kvs s'\<rparr>" "view (kvs s') = view (kvs s)"
      using kvi_store.states_loop_frame [OF assms(1) l] by simp_all
    moreover have "tick s' = tick s + 1" using kvs_frame_tick [OF calculation(2)] by simp
    ultimately show ?thesis by simp
  qed
next
  let ?s1 = "s\<lparr>tick := tick s + 1\<rparr>" and ?x = "norm_xname (rq_xname r)"
  assume r: "res = hbStateSingle K clk norm_xname r w s"
  obtain b pd s' where i: "isHeartbeating K ?x (clk (tick s)) (URL_HB_STATE @ ''/'' @ ?x) ?s1 =
      ((b, pd), s')" by (metis prod.exhaust)
  have "snd res = s'" using i by (cases pd) (simp_all add: r hbStateSingle_def read_clock_def Let_def)
  moreover have "s' = ?s1\<lparr>kvs := kvs s'\<rparr>" "view (kvs s') = view (kvs s)"
    using kvi_store.isHeartbeating_frame [OF assms(1) i] by simp_all
  moreover have "tick s' = tick s + 1" using kvs_frame_tick [OF calculation(2)] by simp
  ultimately show ?thesis by simp
next
  assume "rq_method r \<noteq> ''PATCH'' \<and> res = paramsIO K r w s"
  then have "snd res = s" by (auto simp: paramsIO_eq split: option.splits)
  then show ?thesis by simp
qed

text \<open>
  Queries only read. Whatever the request and whichever operations of the store fail,
  \<open>POST /hbstates\<close>, \<open>GET /hbstate/{xname}\<close> and \<open>GET /params\<close> leave every key, the parameters,
  the notifications and the timers as they were.
\<close>

theorem queries_only_read:
  assumes "kvi_store K view" "rq_method r \<noteq> ''PATCH''"
    and "res = hbStates K clk r w s \<or> res = hbStateSingle K clk norm_xname r w s \<or>
      res = paramsIO K r w s"
  shows "view (kvs (snd res)) = view (kvs s) \<and>
    snd res = s\<lparr>tick := tick (snd res), kvs := kvs (snd res)\<rparr>"
  by (rule queries_frame [OF assms(1)]) (use assms(2,3) in blast)

theorem queries_only_read_witness:
  "faulty_view (kvs (snd (hbStates faulty_kvi (\<lambda>n. 115) (states_sample [''x0'']) new_response
     (sample_state \<lparr>fk_mem = gm_set ''x0'' ''{}'' gm_empty, fk_faults = [True]\<rparr>)))) ''x0'' = Some ''{}''"
proof -
  let ?s = "sample_state \<lparr>fk_mem = gm_set ''x0'' ''{}'' gm_empty, fk_faults = [True]\<rparr>"
  have "rq_method (states_sample [''x0'']) \<noteq> ''PATCH''" by (simp add: states_sample_def)
  from queries_only_read [OF faulty.kvi_store_axioms this disjI1 [OF refl], of "\<lambda>n. 115" new_response ?s]
  have "faulty_view (kvs (snd (hbStates faulty_kvi (\<lambda>n. 115) (states_sample [''x0'']) new_response ?s)))
      = faulty_view (kvs ?s)" by blast
  then show ?thesis by (simp add: sample_state_def faulty_view_def mem_view_def)
qed

lemma patch_params_result:
  assumes "kvi_reliable K view" "rq_method r = ''PATCH''" "\<not> rq_read_error r"
    and "unmarshal_strings (inidata_fields no_inidata) (rq_body r) = (fs, ok)"
    and "paramsIO K r new_response s = (w', s')"
  shows "if ok \<and> acceptable PARAM_PATCH (inidata_of fs)
    then rw_status w' = Some 200 \<and> gen_cur_param_json (app_params s') = Some (rw_body w') \<and>
      app_params s' = patched (inidata_of fs) (app_params s) \<and>
      view (kvs s') = (view (kvs s))(KV_PARAM_KEY \<mapsto> rw_body w') \<and>
      s' = s\<lparr>app_params := app_params s', server_url_port := string_param (port (app_params s)),
             kvs := kvs s'\<rparr>
    else rw_status w' = Some 400 \<and> s' = s"
proof -
  let ?jd = "inidata_of fs" and ?p = "app_params s" and ?up = "server_url_port s"
  obtain es' where contract: "parse_parm_json ?p ?up (rq_body r) PARAM_PATCH [] =
      (if ok \<and> acceptable PARAM_PATCH ?jd
       then (0, patched ?jd ?p, string_param (port ?p), []) else (- 1, ?p, ?up, es'))"
    using parse_parm_json_all [of ?p ?up "rq_body r" PARAM_PATCH "[]"] assms(4)
    by (auto simp: Let_def)
  show ?thesis
  proof (cases "ok \<and> acceptable PARAM_PATCH ?jd")
    case True
    define js where "js = render (fields_json (inidata_fields (cur_inidata (patched ?jd ?p))))"
    have g: "gen_cur_param_json (patched ?jd ?p) = Some js"
      by (simp add: js_def gen_cur_param_json_def json_marshal_def)
    obtain e kv where st: "kv_store K KV_PARAM_KEY js (kvs s) = (e, kv)" by (metis prod.exhaust)
    have "e = None" "view kv = (view (kvs s))(KV_PARAM_KEY \<mapsto> js)"
      using kvi_reliable.store_never [OF assms(1), of KV_PARAM_KEY js "kvs s"]
        kvi_reliable.view_store [OF assms(1), of KV_PARAM_KEY js "kvs s"] st by simp_all
    with assms(2,3,5) contract True g st show ?thesis
      by (auto simp: paramsIO_eq Let_def write_body_def write_header_def new_response_def)
  next
    case False
    with assms(2,3,5) contract show ?thesis by (auto simp: paramsIO_eq)
  qed
qed

text \<open>
  C15: What \<open>PATCH /params\<close> does. A body that decodes and whose fields are acceptable sets exactly
  the parameters it names; the answer is 200 with the new values, and the same text is stored
  under the key \<open>params\<close>; nothing else changes. Any other body is answered 400 and changes
  nothing, the store included.
\<close>

theorem patch_params_effect:
  assumes "kvi_reliable K view" "rq_method r = ''PATCH''" "\<not> rq_read_error r"
    and "unmarshal_strings (inidata_fields no_inidata) (rq_body r) = (fs, ok)"
    and "paramsIO K r new_response s = (w', s')"
  shows "if ok \<and> acceptable PARAM_PATCH (inidata_of fs)
    then rw_status w' = Some 200 \<and> gen_cur_param_json (app_params s') = Some (rw_body w') \<and>
      app_params s' = patched (inidata_of fs) (app_params s) \<and>
      view (kvs s') = (view (kvs s))(KV_PARAM_KEY \<mapsto> rw_body w') \<and>
      s' = s\<lparr>app_params := app_params s', server_url_port := string_param (port (app_params s)),
             kvs := kvs s'\<rparr>
    else rw_status w' = Some 400 \<and> s' = s"
  by (rule patch_params_result [OF assms])

definition patch_sample :: request where
  "patch_sample =
     \<lparr>rq_method = ''PATCH'', rq_body = render (fields_json [(''Errtime'', ''60'')]),
      rq_read_error = False, rq_xname = [], rq_path = URL_PARAMS\<rparr>"

lemma patch_sample_decoded:
  "unmarshal_strings (inidata_fields no_inidata) (rq_body patch_sample) =
     (inidata_fields (no_inidata\<lparr>Errtime := ''60''\<rparr>), True)"
  "inidata_of (inidata_fields (no_inidata\<lparr>Errtime := ''60''\<rparr>)) = no_inidata\<lparr>Errtime := ''60''\<rparr>"
  "acceptable PARAM_PATCH (no_inidata\<lparr>Errtime := ''60''\<rparr>)"
  "int_param (errtime (patched (no_inidata\<lparr>Errtime := ''60''\<rparr>) p)) = 60"
proof -
  have "parse_uint ''60'' 0 32 = (60, None)"
    by (simp add: parse_uint_def base_prefix_def Let_def digit_val_def)
  then have u: "uint32_ok ''60''" "uint32_val ''60'' = 60"
    by (simp_all add: uint32_ok_def uint32_val_def)
  show "unmarshal_strings (inidata_fields no_inidata) (rq_body patch_sample) =
     (inidata_fields (no_inidata\<lparr>Errtime := ''60''\<rparr>), True)"
    using unmarshal_members [of "[(''Errtime'', ''60'')]" "inidata_fields no_inidata"]
    by (simp add: patch_sample_def inidata_fields_def no_inidata_def ascii_def)
  show "inidata_of (inidata_fields (no_inidata\<lparr>Errtime := ''60''\<rparr>)) = no_inidata\<lparr>Errtime := ''60''\<rparr>"
    by (simp add: inidata_of_def inidata_fields_def no_inidata_def field_def)
  show "acceptable PARAM_PATCH (no_inidata\<lparr>Errtime := ''60''\<rparr>)"
    by (simp add: acceptable_def no_inidata_def u)
  show "int_param (errtime (patched (no_inidata\<lparr>Errtime := ''60''\<rparr>) p)) = 60"
    by (simp add: patched_def new_int_def u)
qed

lemma patch_sample_request: "rq_method patch_sample = ''PATCH''" "\<not> rq_read_error patch_sample"
  by (simp_all add: patch_sample_def)

theorem patch_params_effect_witness:
  "\<exists>w' s'. paramsIO mem_kvi patch_sample new_response (sample_state gm_empty) = (w', s') \<and>
    rw_status w' = Some 200 \<and> int_param (errtime (app_params s')) = 60 \<and>
    mem_view (kvs s') KV_PARAM_KEY = Some (rw_body w')"
proof -
  obtain w' s' where r: "paramsIO mem_kvi patch_sample new_response (sample_state gm_empty) = (w', s')"
    by (metis prod.exhaust)
  note e = patch_params_effect [OF mem.kvi_reliable_axioms patch_sample_request patch_sample_decoded(1) r,
      unfolded patch_sample_decoded(2)]
  have "rw_status w' = Some 200 \<and>
      app_params s' = patched (no_inidata\<lparr>Errtime := ''60''\<rparr>) (app_params (sample_state gm_empty :: mem hbtd)) \<and>
      mem_view (kvs s') = (mem_view (kvs (sample_state gm_empty)))(KV_PARAM_KEY \<mapsto> rw_body w')"
    using e patch_sample_decoded(3) by simp
  then show ?thesis using r patch_sample_decoded(4) by auto
qed

text \<open>
  A \<open>PATCH /params\<close> whose new values cannot be stored is answered 500 although they are in
  force: the parameters have been replaced before the store is tried, and stay replaced.
\<close>

theorem patch_applied_despite_500:
  assumes "rq_method r = ''PATCH''" "\<not> rq_read_error r"
    and "unmarshal_strings (inidata_fields no_inidata) (rq_body r) = (fs, True)"
    and "acceptable PARAM_PATCH (inidata_of fs)"
    and "\<And>v. fst (kv_store K KV_PARAM_KEY v (kvs s)) \<noteq> None"
  shows "\<exists>w' s'. paramsIO K r new_response s = (w', s') \<and> rw_status w' = Some 500 \<and>
    app_params s' = patched (inidata_of fs) (app_params s)"
proof -
  let ?p = "patched (inidata_of fs) (app_params s)"
  define js where "js = render (fields_json (inidata_fields (cur_inidata ?p)))"
  have g: "gen_cur_param_json ?p = Some js"
    by (simp add: js_def gen_cur_param_json_def json_marshal_def)
  obtain e kv where "kv_store K KV_PARAM_KEY js (kvs s) = (Some e, kv)"
    using assms(5) [of js] by (cases "kv_store K KV_PARAM_KEY js (kvs s)") auto
  with g assms(1,2) parse_parm_json_decoded(1) [OF assms(3,4), of "app_params s" "server_url_port s" "[]"]
  show ?thesis by (simp add: paramsIO_eq Let_def)
qed

theorem patch_applied_despite_500_witness:
  "\<exists>w' s'. paramsIO faulty_kvi patch_sample new_response
      (sample_state \<lparr>fk_mem = gm_empty, fk_faults = [True]\<rparr>) = (w', s') \<and>
    rw_status w' = Some 500 \<and> int_param (errtime (app_params s')) = 60"
proof -
  let ?s = "sample_state \<lparr>fk_mem = gm_empty, fk_faults = [True]\<rparr>"
  have acc: "acceptable PARAM_PATCH (inidata_of (inidata_fields (no_inidata\<lparr>Errtime := ''60''\<rparr>)))"
    using patch_sample_decoded(2,3) by simp
  have "fst (kv_store faulty_kvi KV_PARAM_KEY v (kvs ?s)) \<noteq> None" for v
    by (simp add: faulty_defs fails_def sample_state_def)
  from patch_applied_despite_500 [OF patch_sample_request patch_sample_decoded(1) acc this]
  show ?thesis using patch_sample_decoded(2,4) by auto
qed

end
