(* ===== verification/Routes.thy ===== *)
theory Routes
  imports Query Health
begin

text \<open>
  The API (\<open>api.go\<close>, \<open>pprof.go\<close>): the table of routes and the router that is built from it. The
  router is gorilla/mux, of which the part the service relies on is modelled from the vendored
  source: paths are cleaned first, routes are tried in order, a trailing slash is redirected
  away, and the error that is left when no route matches decides between 404 and 405.
\<close>

section \<open>The table\<close>

datatype handler =
    H_hbRcv | H_hbRcvXName | H_paramsIO | H_doHealth | H_doLiveness | H_doReadiness
  | H_hbStates | H_hbStateSingle
  | H_pprof string

record Route =
  rt_Name :: string
  rt_Method :: "string option"  \<comment> \<open>\<open>None\<close>: any method\<close>
  rt_Pattern :: string
  rt_HandlerFunc :: handler

definition Route_of :: "string \<Rightarrow> string \<Rightarrow> string \<Rightarrow> handler \<Rightarrow> Route" where
  "Route_of name method pattern h =
     \<lparr>rt_Name = name, rt_Method = Some method, rt_Pattern = pattern, rt_HandlerFunc = h\<rparr>"

definition generateRoutes :: "Route list" where
  "generateRoutes =
     [Route_of ''hbRcv'' ''POST'' URL_HEARTBEAT H_hbRcv,
      Route_of ''hbRcvXName'' ''POST'' (URL_HEARTBEAT @ ''/{xname}'') H_hbRcvXName,
      Route_of ''params_get'' ''GET'' URL_PARAMS H_paramsIO,
      Route_of ''params_patch'' ''PATCH'' URL_PARAMS H_paramsIO,
      Route_of ''doHealth'' ''GET'' URL_HEALTH H_doHealth,
      Route_of ''doLiveness'' ''GET'' URL_LIVENESS H_doLiveness,
      Route_of ''doReadiness'' ''GET'' URL_READINESS H_doReadiness,
      Route_of ''hbStates'' ''POST'' URL_HB_STATES H_hbStates,
      Route_of ''hbStateSingle'' ''GET'' (URL_HB_STATE @ ''/{xname}'') H_hbStateSingle]"

text \<open>
  The two files that define \<open>RegisterPProfHandlers\<close>: \<open>pprof.go\<close>, of a build with the tag \<open>pprof\<close>,
  and \<open>pprof_stub.go\<close>, of a build without it.
\<close>

definition pprof_routes :: "Route list" where
  "pprof_routes =
     map (\<lambda>name. \<lparr>rt_Name = [], rt_Method = None, rt_Pattern = ''/hmi/v1/debug/pprof/'' @ name,
            rt_HandlerFunc = H_pprof name\<rparr>)
       [[], ''cmdline'', ''profile'', ''symbol'', ''trace'', ''allocs'', ''block'', ''goroutine'',
        ''heap'', ''mutex'', ''threadcreate'']"

definition RegisterPProfHandlers :: "Route list \<Rightarrow> Route list" where
  "RegisterPProfHandlers router = router @ pprof_routes"

definition RegisterPProfHandlers_stub :: "Route list \<Rightarrow> Route list" where
  "RegisterPProfHandlers_stub router = router"

definition newRouter :: "bool \<Rightarrow> Route list \<Rightarrow> Route list" where
  "newRouter tag routes =
     (let router = fold (\<lambda>route router. router @ [route]) routes [] in
      if tag then RegisterPProfHandlers router else RegisterPProfHandlers_stub router)"

section \<open>The router\<close>

text \<open>\<open>path.Clean\<close> of a rooted path, and mux's \<open>cleanPath\<close>, which keeps a trailing slash.\<close>

definition clean_elems :: "string list \<Rightarrow> string list" where
  "clean_elems es =
     rev (fold (\<lambda>e acc. if e = [] \<or> e = ''.'' then acc
                       else if e = ''..'' then tl acc else e # acc) es [])"

definition cleanPath :: "string \<Rightarrow> string" where
  "cleanPath p =
     (if p = [] then ''/''
      else
        let p1 = (if hd p \<noteq> CHR ''/'' then CHR ''/'' # p else p);
            np = CHR ''/'' # sep_by ''/'' (clean_elems (split_on CHR ''/'' p1))
        in if last p1 = CHR ''/'' \<and> np \<noteq> ''/'' then np @ ''/'' else np)"

text \<open>
  A template as a regular expression, \<open>{name}\<close> for \<open>[^/]+\<close>, with an optional slash at the end;
  the result is the variables.
\<close>

definition end_slash :: "string \<Rightarrow> bool" where
  "end_slash p \<longleftrightarrow> p \<noteq> [] \<and> last p = CHR ''/''"

definition strip_slash :: "string \<Rightarrow> string" where
  "strip_slash p = (if end_slash p then butlast p else p)"

fun match_segs :: "string list \<Rightarrow> string list \<Rightarrow> (string \<times> string) list option" where
  "match_segs [] [] = Some []"
| "match_segs (t # ts) (s # ss) =
     (if t \<noteq> [] \<and> hd t = CHR ''{''
      then if s = [] then None else map_option ((#) (butlast (tl t), s)) (match_segs ts ss)
      else if t = s then match_segs ts ss else None)"
| "match_segs _ _ = None"

definition match_path :: "string \<Rightarrow> string \<Rightarrow> (string \<times> string) list option" where
  "match_path tpl path =
     match_segs (split_on CHR ''/'' (strip_slash tpl)) (split_on CHR ''/'' (strip_slash path))"

datatype match_err = NoErr | ErrMethodMismatch | ErrNotFound

text \<open>One route: its variables if it matches, and \<open>match.MatchErr\<close> after it has been tried.\<close>

definition route_Match ::
  "Route \<Rightarrow> string \<Rightarrow> string \<Rightarrow> match_err \<Rightarrow> (string \<times> string) list option \<times> match_err" where
  "route_Match rt method path err0 =
     (let ok_m = (case rt_Method rt of None \<Rightarrow> True | Some m \<Rightarrow> m = method);
          err1 = (if rt_Method rt \<noteq> None \<and> ok_m \<and> err0 = ErrMethodMismatch then NoErr else err0)
      in case match_path (rt_Pattern rt) path of
           None \<Rightarrow> (None, if err1 = ErrNotFound then NoErr else err1)
         | Some vars \<Rightarrow>
             let err2 = (if err1 = ErrMethodMismatch then NoErr else err1)
             in if \<not> ok_m then (None, ErrMethodMismatch) else (Some vars, err2))"

fun router_Match ::
  "Route list \<Rightarrow> string \<Rightarrow> string \<Rightarrow> match_err \<Rightarrow> (Route \<times> (string \<times> string) list) option \<times> match_err" where
  "router_Match [] method path err = (None, if err = ErrMethodMismatch then err else ErrNotFound)"
| "router_Match (rt # rts) method path err =
     (case route_Match rt method path err of
        (Some vars, err') \<Rightarrow> (Some (rt, vars), err')
      | (None, err') \<Rightarrow> router_Match rts method path err')"

datatype routing = Redirected string | Not_found | Method_not_allowed
  | Routed handler "(string \<times> string) list"

definition ServeHTTP :: "Route list \<Rightarrow> string \<Rightarrow> string \<Rightarrow> routing" where
  "ServeHTTP router method path =
     (if cleanPath path \<noteq> path then Redirected (cleanPath path)
      else
        case router_Match router method path NoErr of
          (Some (rt, vars), _) \<Rightarrow>
            if end_slash path \<noteq> end_slash (rt_Pattern rt)
            then Redirected (if end_slash path then butlast path else path @ ''/'')
            else Routed (rt_HandlerFunc rt) vars
        | (None, err) \<Rightarrow> if err = ErrMethodMismatch then Method_not_allowed else Not_found)"

section \<open>Serving a request\<close>

text \<open>
  What the handlers take from outside: the store, the clock, the two xname functions, the status
  of the message bus, and the profiling handlers of the Go library.
\<close>

record 's lib =
  lb_kv :: "'s kvi"
  lb_clk :: clock
  lb_valid_xname :: "string \<Rightarrow> bool"
  lb_norm_xname :: "string \<Rightarrow> string"
  lb_msgbus :: "int option"
  lb_pprof :: "string \<Rightarrow> request \<Rightarrow> response \<Rightarrow> response"

fun run_handler :: "'s lib \<Rightarrow> handler \<Rightarrow> request \<Rightarrow> response \<Rightarrow> 's hbtd \<Rightarrow> response \<times> 's hbtd" where
  "run_handler L H_hbRcv r w s = hbRcv (lb_kv L) (lb_clk L) (lb_valid_xname L) r w s"
| "run_handler L H_hbRcvXName r w s = hbRcvXName (lb_kv L) (lb_clk L) (lb_norm_xname L) r w s"
| "run_handler L H_paramsIO r w s = paramsIO (lb_kv L) r w s"
| "run_handler L H_doHealth r w s = doHealth (lb_kv L) True True (lb_msgbus L) r w s"
| "run_handler L H_doLiveness r w s = doLiveness r w s"
| "run_handler L H_doReadiness r w s = doReadiness (lb_kv L) True r w s"
| "run_handler L H_hbStates r w s = hbStates (lb_kv L) (lb_clk L) r w s"
| "run_handler L H_hbStateSingle r w s = hbStateSingle (lb_kv L) (lb_clk L) (lb_norm_xname L) r w s"
| "run_handler L (H_pprof name) r w s = (lb_pprof L name r w, s)"

text \<open>
  The answers the router gives itself: \<open>http.NotFound\<close>, an empty 405, and a redirect (of whose
  answer only status and location are modelled; \<open>url\<close> is the URL with the path replaced).
\<close>

definition not_found_rsp :: "response \<Rightarrow> response" where
  "not_found_rsp w =
     write_body (''404 page not found'' @ [byte 10]) (write_header 404
       (header_set ''X-Content-Type-Options'' ''nosniff''
         (header_set ''Content-Type'' ''text/plain; charset=utf-8'' w)))"

definition serve :: "'s lib \<Rightarrow> bool \<Rightarrow> (string \<Rightarrow> string) \<Rightarrow> request \<Rightarrow> 's hbtd \<Rightarrow> response \<times> 's hbtd" where
  "serve L tag url r s =
     (case ServeHTTP (newRouter tag generateRoutes) (rq_method r) (rq_path r) of
        Redirected p \<Rightarrow> (write_header 301 (header_set ''Location'' (url p) new_response), s)
      | Not_found \<Rightarrow> (not_found_rsp new_response, s)
      | Method_not_allowed \<Rightarrow> (write_header 405 new_response, s)
      | Routed h vars \<Rightarrow>
          run_handler L h (r\<lparr>rq_xname := (case map_of vars ''xname'' of None \<Rightarrow> [] | Some x \<Rightarrow> x)\<rparr>)
            new_response s)"

section \<open>Evaluating the router\<close>

lemmas url_defs = URL_BASE_def URL_VERSION_def URL_ROOT_def URL_HEARTBEAT_def URL_PARAMS_def
  URL_HB_STATES_def URL_HB_STATE_def URL_LIVENESS_def URL_READINESS_def URL_HEALTH_def

lemmas router_defs = ServeHTTP_def newRouter_def RegisterPProfHandlers_def RegisterPProfHandlers_stub_def generateRoutes_def
  pprof_routes_def Route_of_def route_Match_def match_path_def strip_slash_def end_slash_def Let_def

lemmas clean_defs = cleanPath_def clean_elems_def Let_def

text \<open>A name that is one segment of a path.\<close>

definition one_segment :: "string \<Rightarrow> bool" where
  "one_segment x \<longleftrightarrow> x \<noteq> [] \<and> CHR ''/'' \<notin> set x \<and> x \<noteq> ''.'' \<and> x \<noteq> ''..''"

lemma split_on_segment: "one_segment x \<Longrightarrow> split_on CHR ''/'' x = [x]"
  by (simp add: one_segment_def split_on_none)

lemma split_on_fixed:
  "one_segment x \<Longrightarrow> split_on CHR ''/'' (URL_HEARTBEAT @ ''/'' @ x) = [[], ''hmi'', ''v1'', ''heartbeat'', x]"
  "one_segment x \<Longrightarrow> split_on CHR ''/'' (URL_HB_STATE @ ''/'' @ x) = [[], ''hmi'', ''v1'', ''hbstate'', x]"
  by (simp_all add: url_defs split_on_segment)

lemma segment_end: "one_segment x \<Longrightarrow> last (p @ x) \<noteq> CHR ''/''" "one_segment x \<Longrightarrow> x \<noteq> []"
  by (auto simp: one_segment_def last_append dest: last_in_set)

lemma clean_component:
  assumes "one_segment x"
  shows "cleanPath (URL_HEARTBEAT @ ''/'' @ x) = URL_HEARTBEAT @ ''/'' @ x"
    "cleanPath (URL_HB_STATE @ ''/'' @ x) = URL_HB_STATE @ ''/'' @ x"
proof -
  have s: "x \<noteq> []" "x \<noteq> ''.''" "x \<noteq> ''..''" using assms by (simp_all add: one_segment_def)
  have "last (p @ x) \<noteq> CHR ''/''" for p by (rule segment_end(1) [OF assms])
  from this [of "URL_HEARTBEAT @ ''/''"] this [of "URL_HB_STATE @ ''/''"]
  show "cleanPath (URL_HEARTBEAT @ ''/'' @ x) = URL_HEARTBEAT @ ''/'' @ x"
    "cleanPath (URL_HB_STATE @ ''/'' @ x) = URL_HB_STATE @ ''/'' @ x"
    using s by (simp_all add: cleanPath_def clean_elems_def split_on_fixed [OF assms] Let_def)
      (simp_all add: url_defs split_on_segment [OF assms])
qed

lemma clean_fixed:
  "p \<in> {URL_HEARTBEAT, URL_PARAMS, URL_HEALTH, URL_LIVENESS, URL_READINESS, URL_HB_STATES} \<Longrightarrow>
   cleanPath p = p"
  by (auto simp: clean_defs url_defs)

text \<open>
  The paths of the API, each with the handlers of its methods, the variables of the path, and
  the methods that a later route of the table has and that are therefore answered 404.
\<close>

definition api :: "string \<Rightarrow> (string \<times> (string \<times> handler) list \<times> (string \<times> string) list \<times> string list) list" where
  "api x =
     [(URL_HEARTBEAT, [(''POST'', H_hbRcv)], [], [''GET'', ''PATCH'']),
      (URL_HEARTBEAT @ ''/'' @ x, [(''POST'', H_hbRcvXName)], [(''xname'', x)], [''GET'', ''PATCH'']),
      (URL_PARAMS, [(''GET'', H_paramsIO), (''PATCH'', H_paramsIO)], [], [''POST'']),
      (URL_HEALTH, [(''GET'', H_doHealth)], [], [''POST'']),
      (URL_LIVENESS, [(''GET'', H_doLiveness)], [], [''POST'']),
      (URL_READINESS, [(''GET'', H_doReadiness)], [], [''POST'']),
      (URL_HB_STATES, [(''POST'', H_hbStates)], [], [''GET'']),
      (URL_HB_STATE @ ''/'' @ x, [(''GET'', H_hbStateSingle)], [(''xname'', x)], [])]"

definition dispatched :: "bool \<Rightarrow> string \<Rightarrow> string \<times> (string \<times> handler) list \<times> (string \<times> string) list \<times> string list \<Rightarrow> bool" where
  "dispatched tag m e \<longleftrightarrow>
     (case e of (path, handlers, vars, hidden) \<Rightarrow>
        ServeHTTP (newRouter tag generateRoutes) m path =
          (case map_of handlers m of
             Some h \<Rightarrow> Routed h vars
           | None \<Rightarrow> if m \<in> set hidden then Not_found else Method_not_allowed))"

text \<open>The segments of the templates and paths, and which template matches which path.\<close>

definition segs :: "string \<Rightarrow> string list" where
  "segs p = split_on CHR ''/'' (strip_slash p)"

lemma match_path_segs: "match_path tpl path = match_segs (segs tpl) (segs path)"
  by (simp add: match_path_def segs_def)

lemma segs_fixed:
  "segs URL_HEARTBEAT = [[], ''hmi'', ''v1'', ''heartbeat'']"
  "segs (URL_HEARTBEAT @ ''/{xname}'') = [[], ''hmi'', ''v1'', ''heartbeat'', ''{xname}'']"
  "segs URL_PARAMS = [[], ''hmi'', ''v1'', ''params'']"
  "segs URL_HEALTH = [[], ''hmi'', ''v1'', ''health'']"
  "segs URL_LIVENESS = [[], ''hmi'', ''v1'', ''liveness'']"
  "segs URL_READINESS = [[], ''hmi'', ''v1'', ''readiness'']"
  "segs URL_HB_STATES = [[], ''hmi'', ''v1'', ''hbstates'']"
  "segs (URL_HB_STATE @ ''/{xname}'') = [[], ''hmi'', ''v1'', ''hbstate'', ''{xname}'']"
  by (simp_all add: segs_def strip_slash_def end_slash_def url_defs)

lemma segs_component:
  assumes "one_segment x"
  shows "segs (URL_HEARTBEAT @ ''/'' @ x) = [[], ''hmi'', ''v1'', ''heartbeat'', x]"
    "segs (URL_HB_STATE @ ''/'' @ x) = [[], ''hmi'', ''v1'', ''hbstate'', x]"
proof -
  have "\<not> end_slash (p @ x)" for p
    using segment_end(1) [OF assms, of p] by (simp add: end_slash_def)
  from this [of "URL_HEARTBEAT @ ''/''"] this [of "URL_HB_STATE @ ''/''"]
  show "segs (URL_HEARTBEAT @ ''/'' @ x) = [[], ''hmi'', ''v1'', ''heartbeat'', x]"
    "segs (URL_HB_STATE @ ''/'' @ x) = [[], ''hmi'', ''v1'', ''hbstate'', x]"
    using split_on_fixed [OF assms] by (simp_all add: segs_def strip_slash_def)
qed

lemma no_end_slash:
  "\<not> end_slash URL_HEARTBEAT" "\<not> end_slash (URL_HEARTBEAT @ ''/{xname}'')" "\<not> end_slash URL_PARAMS"
  "\<not> end_slash URL_HEALTH" "\<not> end_slash URL_LIVENESS" "\<not> end_slash URL_READINESS"
  "\<not> end_slash URL_HB_STATES" "\<not> end_slash (URL_HB_STATE @ ''/{xname}'')"
  "one_segment x \<Longrightarrow> \<not> end_slash (URL_HEARTBEAT @ ''/'' @ x)"
  "one_segment x \<Longrightarrow> \<not> end_slash (URL_HB_STATE @ ''/'' @ x)"
  using segment_end(1) [of x "URL_HEARTBEAT @ ''/''"] segment_end(1) [of x "URL_HB_STATE @ ''/''"]
  by (simp_all add: end_slash_def url_defs)

text \<open>The profiling routes have a segment of their own and change nothing for the others.\<close>

lemma segs_pprof:
  "rt \<in> set pprof_routes \<Longrightarrow> rt_Method rt = None \<and> take 4 (segs (rt_Pattern rt)) = [[], ''hmi'', ''v1'', ''debug'']"
  by (auto simp: pprof_routes_def segs_def strip_slash_def end_slash_def)

lemma match_segs_literal:
  "match_segs ts ss = Some vars \<Longrightarrow> i < length ts \<Longrightarrow> ts ! i \<noteq> [] \<Longrightarrow> hd (ts ! i) \<noteq> CHR ''{'' \<Longrightarrow>
   i < length ss \<and> ss ! i = ts ! i"
proof (induction ts ss arbitrary: vars i rule: match_segs.induct)
  case (2 t ts s ss)
  then show ?case by (cases i) (auto split: if_splits)
qed auto

lemma router_Match_extra:
  "\<forall>rt \<in> set rts. rt_Method rt = None \<and> match_path (rt_Pattern rt) path = None \<Longrightarrow>
   fst (router_Match (rs @ rts) m path err) = fst (router_Match rs m path err) \<and>
   (snd (router_Match (rs @ rts) m path err) = ErrMethodMismatch \<longleftrightarrow>
    snd (router_Match rs m path err) = ErrMethodMismatch)"
proof (induction rs arbitrary: err)
  case Nil
  have "fst (router_Match rts m path err) = None \<and>
      (snd (router_Match rts m path err) = ErrMethodMismatch \<longleftrightarrow> err = ErrMethodMismatch)" for err
    using Nil by (induction rts arbitrary: err) (auto simp: route_Match_def Let_def)
  then show ?case by simp
qed (auto split: prod.splits option.splits)

lemma ServeHTTP_tag:
  assumes "\<forall>rt \<in> set pprof_routes. match_path (rt_Pattern rt) path = None"
  shows "ServeHTTP (newRouter tag generateRoutes) m path = ServeHTTP generateRoutes m path"
proof -
  have fold_id: "fold (\<lambda>route router. router @ [route]) rs acc = acc @ rs" for rs acc :: "Route list"
    by (induction rs arbitrary: acc) simp_all
  have "\<forall>rt \<in> set pprof_routes. rt_Method rt = None \<and> match_path (rt_Pattern rt) path = None"
    using assms segs_pprof by blast
  note e = router_Match_extra [OF this, of generateRoutes m NoErr]
  show ?thesis
  proof (cases tag)
    case True
    then show ?thesis
      using e by (auto simp: newRouter_def RegisterPProfHandlers_def RegisterPProfHandlers_stub_def fold_id ServeHTTP_def
          split: prod.splits option.splits)
  qed (simp add: newRouter_def RegisterPProfHandlers_def RegisterPProfHandlers_stub_def fold_id)
qed

lemma pprof_other:
  assumes "segs path = [[], ''hmi'', ''v1'', t] \<or> segs path = [[], ''hmi'', ''v1'', t, x]" "t \<noteq> ''debug''"
  shows "\<forall>rt \<in> set pprof_routes. match_path (rt_Pattern rt) path = None"
proof
  fix rt assume rt: "rt \<in> set pprof_routes"
  let ?ts = "segs (rt_Pattern rt)"
  have tk: "take 4 ?ts = [[], ''hmi'', ''v1'', ''debug'']" using segs_pprof [OF rt] by blast
  then have "length (take 4 ?ts) = 4" by simp
  then have len: "3 < length ?ts" by simp
  have nth: "?ts ! 3 = ''debug''" using nth_take [of 3 4 ?ts] tk by simp
  show "match_path (rt_Pattern rt) path = None"
  proof (cases "match_segs ?ts (segs path)")
    case (Some vars)
    from match_segs_literal [OF Some len] nth have "segs path ! 3 = ''debug''" by simp
    with assms show ?thesis by auto
  qed (simp add: match_path_segs)
qed

text \<open>The dispatch on the bare table, by the segments of the path.\<close>

lemma route_Match_some:
  "rt_Method rt = Some m' \<Longrightarrow> route_Match rt m path err =
     (let err1 = (if m' = m \<and> err = ErrMethodMismatch then NoErr else err)
      in case match_segs (segs (rt_Pattern rt)) (segs path) of
           None \<Rightarrow> (None, if err1 = ErrNotFound then NoErr else err1)
         | Some vars \<Rightarrow> if m' = m then (Some vars, if err1 = ErrMethodMismatch then NoErr else err1)
                       else (None, ErrMethodMismatch))"
  by (simp add: route_Match_def match_path_segs Let_def split: option.splits)

lemma Route_of_simps [simp]:
  "rt_Method (Route_of n m p h) = Some m" "rt_Pattern (Route_of n m p h) = p"
  "rt_HandlerFunc (Route_of n m p h) = h"
  by (simp_all add: Route_of_def)

definition table_entry :: "string \<Rightarrow> string \<Rightarrow> (string \<times> handler) list \<Rightarrow> (string \<times> string) list \<Rightarrow> string list \<Rightarrow> bool" where
  "table_entry m path hs vars hidden \<longleftrightarrow>
     (case router_Match generateRoutes m path NoErr of
        (Some (rt, vs), _) \<Rightarrow> \<not> end_slash (rt_Pattern rt) \<and> map_of hs m = Some (rt_HandlerFunc rt) \<and> vs = vars
      | (None, err) \<Rightarrow> map_of hs m = None \<and> (err = ErrMethodMismatch \<longleftrightarrow> m \<notin> set hidden))"

lemma dispatchedI:
  assumes "cleanPath path = path" "\<not> end_slash path"
    and "segs path = [[], ''hmi'', ''v1'', t] \<or> segs path = [[], ''hmi'', ''v1'', t, x]" "t \<noteq> ''debug''"
    and "table_entry m path hs vars hidden"
  shows "dispatched tag m (path, hs, vars, hidden)"
  unfolding dispatched_def prod.case ServeHTTP_tag [OF pprof_other [OF assms(3,4)]]
  using assms(1,2,5) by (auto simp: ServeHTTP_def table_entry_def split: prod.splits option.splits)

text \<open>The entries of the table: the nine routes, evaluated for each method.\<close>

lemmas route_eval = table_entry_def generateRoutes_def route_Match_some segs_fixed no_end_slash

lemma table_heartbeat:
  "table_entry m URL_HEARTBEAT [(''POST'', H_hbRcv)] [] [''GET'', ''PATCH'']"
  by (cases "m = ''POST''"; cases "m = ''GET''"; cases "m = ''PATCH''") (simp_all add: route_eval)

lemma table_heartbeat_x:
  assumes x: "one_segment x"
  shows "table_entry m (URL_HEARTBEAT @ ''/'' @ x) [(''POST'', H_hbRcvXName)] [(''xname'', x)] [''GET'', ''PATCH'']"
proof -
  have "x \<noteq> []" using x by (simp add: one_segment_def)
  then show ?thesis
    by (cases "m = ''POST''"; cases "m = ''GET''"; cases "m = ''PATCH''")
      (simp_all add: route_eval segs_component [OF x, unfolded append.simps])
qed

lemma table_params:
  "table_entry m URL_PARAMS [(''GET'', H_paramsIO), (''PATCH'', H_paramsIO)] [] [''POST'']"
  by (cases "m = ''POST''"; cases "m = ''GET''"; cases "m = ''PATCH''") (simp_all add: route_eval)

lemma table_health:
  "table_entry m URL_HEALTH [(''GET'', H_doHealth)] [] [''POST'']"
  by (cases "m = ''POST''"; cases "m = ''GET''"; cases "m = ''PATCH''") (simp_all add: route_eval)

lemma table_liveness:
  "table_entry m URL_LIVENESS [(''GET'', H_doLiveness)] [] [''POST'']"
  by (cases "m = ''POST''"; cases "m = ''GET''"; cases "m = ''PATCH''") (simp_all add: route_eval)

lemma table_readiness:
  "table_entry m URL_READINESS [(''GET'', H_doReadiness)] [] [''POST'']"
  by (cases "m = ''POST''"; cases "m = ''GET''"; cases "m = ''PATCH''") (simp_all add: route_eval)

lemma table_hbstates:
  "table_entry m URL_HB_STATES [(''POST'', H_hbStates)] [] [''GET'']"
  by (cases "m = ''POST''"; cases "m = ''GET''"; cases "m = ''PATCH''") (simp_all add: route_eval)

lemma table_hbstate_x:
  assumes x: "one_segment x"
  shows "table_entry m (URL_HB_STATE @ ''/'' @ x) [(''GET'', H_hbStateSingle)] [(''xname'', x)] []"
proof -
  have "x \<noteq> []" using x by (simp add: one_segment_def)
  then show ?thesis
    by (cases "m = ''POST''"; cases "m = ''GET''"; cases "m = ''PATCH''")
      (simp_all add: route_eval segs_component [OF x, unfolded append.simps])
qed

lemma api_dispatched:
  assumes x: "one_segment x" and e: "e \<in> set (api x)"
  shows "dispatched tag m e"
proof -
  have t: "''heartbeat'' \<noteq> ''debug''" "''hbstate'' \<noteq> ''debug''" by simp_all
  have "dispatched tag m (URL_HEARTBEAT, [(''POST'', H_hbRcv)], [], [''GET'', ''PATCH''])"
    by (rule dispatchedI [where t = "''heartbeat''", OF _ _ _ _ table_heartbeat]) (simp_all add: clean_fixed no_end_slash segs_fixed)
  moreover have "dispatched tag m (URL_HEARTBEAT @ ''/'' @ x, [(''POST'', H_hbRcvXName)],
      [(''xname'', x)], [''GET'', ''PATCH''])"
    by (rule dispatchedI [OF clean_component(1) [OF x] no_end_slash(9) [OF x]
          disjI2 [OF segs_component(1) [OF x]] t(1) table_heartbeat_x [OF x]])
  moreover have "dispatched tag m (URL_PARAMS, [(''GET'', H_paramsIO), (''PATCH'', H_paramsIO)], [], [''POST''])"
    by (rule dispatchedI [where t = "''params''", OF _ _ _ _ table_params]) (simp_all add: clean_fixed no_end_slash segs_fixed)
  moreover have "dispatched tag m (URL_HEALTH, [(''GET'', H_doHealth)], [], [''POST''])"
    by (rule dispatchedI [where t = "''health''", OF _ _ _ _ table_health]) (simp_all add: clean_fixed no_end_slash segs_fixed)
  moreover have "dispatched tag m (URL_LIVENESS, [(''GET'', H_doLiveness)], [], [''POST''])"
    by (rule dispatchedI [where t = "''liveness''", OF _ _ _ _ table_liveness]) (simp_all add: clean_fixed no_end_slash segs_fixed)
  moreover have "dispatched tag m (URL_READINESS, [(''GET'', H_doReadiness)], [], [''POST''])"
    by (rule dispatchedI [where t = "''readiness''", OF _ _ _ _ table_readiness]) (simp_all add: clean_fixed no_end_slash segs_fixed)
  moreover have "dispatched tag m (URL_HB_STATES, [(''POST'', H_hbStates)], [], [''GET''])"
    by (rule dispatchedI [where t = "''hbstates''", OF _ _ _ _ table_hbstates]) (simp_all add: clean_fixed no_end_slash segs_fixed)
  moreover have "dispatched tag m (URL_HB_STATE @ ''/'' @ x, [(''GET'', H_hbStateSingle)], [(''xname'', x)], [])"
    by (rule dispatchedI [OF clean_component(2) [OF x] no_end_slash(10) [OF x]
          disjI2 [OF segs_component(2) [OF x]] t(2) table_hbstate_x [OF x]])
  ultimately show ?thesis using e unfolding api_def set_simps by blast
qed

text \<open>The method and variables with which the table calls a handler.\<close>

definition handles :: "handler \<Rightarrow> string \<Rightarrow> (string \<times> string) list \<Rightarrow> string \<Rightarrow> bool" where
  "handles h m vars x \<longleftrightarrow>
     (case h of
        H_hbRcv \<Rightarrow> m = ''POST''
      | H_hbRcvXName \<Rightarrow> m = ''POST'' \<and> vars = [(''xname'', x)]
      | H_paramsIO \<Rightarrow> m = ''GET'' \<or> m = ''PATCH''
      | H_hbStates \<Rightarrow> True
      | H_pprof n \<Rightarrow> False
      | _ \<Rightarrow> m = ''GET'')"

lemma updateHB_status [simp]: "rw_status (fst (updateHB K clk e x ts st new_response s)) \<noteq> Some 405"
  by (auto simp: updateHB_defs Let_def split: prod.splits option.splits)

lemma isHeartbeating_status:
  "isHeartbeating K x now e s = ((b, Some pd), s') \<Longrightarrow> pd_status pd = 500"
  by (auto simp: isHeartbeating_def Let_def new_problem_details_def split: prod.splits if_splits)

lemma states_loop_status: "states_loop K now e xs acc s = (Inl pd, s') \<Longrightarrow> pd_status pd = 500"
  by (induction xs arbitrary: acc s)
    (auto split: prod.splits option.splits dest: isHeartbeating_status)

lemma handler_not_405:
  assumes "handles h (rq_method r) vars x" "x \<noteq> []"
    and "rq_xname r = (case map_of vars ''xname'' of None \<Rightarrow> [] | Some x \<Rightarrow> x)"
  shows "rw_status (fst (run_handler L h r new_response s)) \<noteq> Some 405"
proof (cases h)
  case H_hbRcv
  with assms show ?thesis
    by (auto simp: handles_def hbRcv_def Let_def split: prod.splits)
next
  case H_hbRcvXName
  with assms show ?thesis
    by (auto simp: handles_def hbRcvXName_def Let_def split: prod.splits)
next
  case H_paramsIO
  with assms show ?thesis
    by (auto simp: handles_def paramsIO_eq Let_def internal_marshal_rsp_def split: prod.splits option.splits)
next
  case H_hbStates
  then show ?thesis
    by (auto simp: hbStates_def read_clock_def split: prod.splits sum.splits dest: states_loop_status)
next
  case H_hbStateSingle
  then show ?thesis
    by (auto simp: hbStateSingle_def read_clock_def Let_def split: prod.splits option.splits
        dest: isHeartbeating_status)
qed (use assms in \<open>auto simp: handles_def doHealth_def doLiveness_def doReadiness_def Let_def
       json_marshal_def split: prod.splits\<close>)

section \<open>Properties\<close>

text \<open>
  C26: Every request to the API reaches its handler. For each path of the API, with a component
  name that is a segment of its own where there is one, a request with one of the path's methods
  is routed to that method's handler with that name, with or without the profiling routes. A
  request with another method is refused by the router: with 405, but with 404 when a later
  route of the table has that method, because that route clears the recorded mismatch.
\<close>

theorem api_dispatch:
  assumes "one_segment x" "(path, handlers, vars, hidden) \<in> set (api x)"
  shows "ServeHTTP (newRouter tag generateRoutes) m path =
    (case map_of handlers m of
       Some h \<Rightarrow> Routed h vars
     | None \<Rightarrow> if m \<in> set hidden then Not_found else Method_not_allowed)"
  using api_dispatched [OF assms, of tag m] by (simp only: dispatched_def prod.case)

theorem api_dispatch_witness:
  "ServeHTTP (newRouter True generateRoutes) ''GET'' (URL_HEARTBEAT @ ''/'' @ ''x0'') = Not_found \<and>
   ServeHTTP (newRouter False generateRoutes) ''DELETE'' URL_HEARTBEAT = Method_not_allowed \<and>
   ServeHTTP (newRouter False generateRoutes) ''POST'' (URL_HEARTBEAT @ ''/'' @ ''x0'') =
     Routed H_hbRcvXName [(''xname'', ''x0'')]"
proof -
  have x: "one_segment ''x0''" by (simp add: one_segment_def)
  have e: "(URL_HEARTBEAT @ ''/'' @ ''x0'', [(''POST'', H_hbRcvXName)], [(''xname'', ''x0'')],
      [''GET'', ''PATCH'']) \<in> set (api ''x0'')" "(URL_HEARTBEAT, [(''POST'', H_hbRcv)], [],
      [''GET'', ''PATCH'']) \<in> set (api ''x0'')"
    unfolding api_def set_simps by blast+
  note dx = api_dispatch [OF x e(1)] and d = api_dispatch [OF x e(2)]
  show ?thesis unfolding dx d by simp
qed

text \<open>
  A handler that the router has chosen never answers 405: the checks of the request's method
  in the handlers, and the \<open>Allow\<close> header they add, are only reached by calling them directly.
\<close>

theorem routed_never_405:
  assumes "one_segment x" "(path, handlers, vars, hidden) \<in> set (api x)"
    and "map_of handlers (rq_method r) = Some h" "rq_path r = path"
  shows "rw_status (fst (serve L tag url r s)) \<noteq> Some 405"
proof -
  let ?r = "r\<lparr>rq_xname := (case map_of vars ''xname'' of None \<Rightarrow> [] | Some x \<Rightarrow> x)\<rparr>"
  have sv: "serve L tag url r s = run_handler L h ?r new_response s"
    using api_dispatched [OF assms(1,2), of tag "rq_method r"] assms(3,4)
    by (simp add: serve_def dispatched_def)
  have "handles h (rq_method r) vars x"
    using assms(2,3) unfolding api_def by (auto simp: handles_def split: if_splits)
  moreover have "x \<noteq> []" using assms(1) by (simp add: one_segment_def)
  ultimately show ?thesis unfolding sv by (intro handler_not_405) auto
qed

definition sample_lib :: "clock \<Rightarrow> mem lib" where
  "sample_lib clk =
     \<lparr>lb_kv = mem_kvi, lb_clk = clk, lb_valid_xname = (\<lambda>x. True), lb_norm_xname = (\<lambda>x. x),
      lb_msgbus = None, lb_pprof = (\<lambda>n r w. w)\<rparr>"

theorem routed_never_405_witness:
  "rw_status (fst (serve (sample_lib (\<lambda>n. 100)) False (\<lambda>u. u) (sample_xname_request ''x0'')
     (sample_state gm_empty))) \<noteq> Some 405"
proof (rule routed_never_405)
  show "one_segment ''x0''" by (simp add: one_segment_def)
  show "(URL_HEARTBEAT @ ''/'' @ ''x0'', [(''POST'', H_hbRcvXName)], [(''xname'', ''x0'')],
      [''GET'', ''PATCH'']) \<in> set (api ''x0'')" unfolding api_def set_simps by blast
  show "map_of [(''POST'', H_hbRcvXName)] (rq_method (sample_xname_request ''x0'')) = Some H_hbRcvXName"
    by (simp add: sample_xname_request_def)
  show "rq_path (sample_xname_request ''x0'') = URL_HEARTBEAT @ ''/'' @ ''x0''"
    by (simp add: sample_xname_request_def)
qed

end
