(* ===== verification/Requests.thy ===== *)
theory Requests
  imports Routes
begin

text \<open>
  What serving a request can change: which fields of the process it leaves alone, which key of
  the store it writes, what it notifies.
\<close>

section \<open>Requests that are heartbeats\<close>

text \<open>
  The heartbeat that a request carries, as component, timestamp and status, if its path is that of
  a heartbeat handler and the handler accepts it; and the component alone.
\<close>

definition handler_beat :: "'s lib \<Rightarrow> handler \<Rightarrow> request \<Rightarrow> (string \<times> string \<times> string) option" where
  "handler_beat L h r =
     (case h of
        H_hbRcv \<Rightarrow> hb_parse (lb_valid_xname L) r
      | H_hbRcvXName \<Rightarrow> hb_parse_xname (lb_norm_xname L) r
      | _ \<Rightarrow> None)"

definition request_beat :: "'s lib \<Rightarrow> bool \<Rightarrow> request \<Rightarrow> (string \<times> string \<times> string) option" where
  "request_beat L tag r =
     (case ServeHTTP (newRouter tag generateRoutes) (rq_method r) (rq_path r) of
        Routed h vars \<Rightarrow>
          handler_beat L h (r\<lparr>rq_xname := (case map_of vars ''xname'' of None \<Rightarrow> [] | Some x \<Rightarrow> x)\<rparr>)
      | _ \<Rightarrow> None)"

definition request_component :: "'s lib \<Rightarrow> bool \<Rightarrow> request \<Rightarrow> string option" where
  "request_component L tag r = map_option fst (request_beat L tag r)"

section \<open>What a request leaves alone\<close>

text \<open>A PATCH of the parameters, by route and method.\<close>

definition request_patch :: "bool \<Rightarrow> request \<Rightarrow> bool" where
  "request_patch tag r \<longleftrightarrow> rq_method r = ''PATCH'' \<and>
     (case ServeHTTP (newRouter tag generateRoutes) (rq_method r) (rq_path r) of
        Routed h vars \<Rightarrow> h = H_paramsIO | _ \<Rightarrow> False)"

text \<open>The fields a request never touches.\<close>

definition same_control :: "'s hbtd \<Rightarrow> 's hbtd \<Rightarrow> bool" where
  "same_control s s' \<longleftrightarrow> timers s' = timers s \<and> hsm_q s' = hsm_q s \<and> sm_local s' = sm_local s \<and>
     hsm_ready s' = hsm_ready s \<and> staleKeys s' = staleKeys s"

lemma same_control_refl [simp]: "same_control s s"
  by (simp add: same_control_def)

text \<open>A request notifies nothing, or the start of one component.\<close>

definition maybe_started :: "notify \<Rightarrow> notify \<Rightarrow> bool" where
  "maybe_started n n' \<longleftrightarrow> n' = n \<or> (\<exists>h. n' = hb_update_notify h HB_started n)"

lemma maybe_started_refl [simp]: "maybe_started n n"
  by (simp add: maybe_started_def)

lemma updateHB_read_control:
  "updateHB_read K e x w s = (rd, s1) \<Longrightarrow> same_control s s1 \<and> notif s1 = notif s \<and> app_params s1 = app_params s"
  by (auto simp: updateHB_read_def same_control_def Let_def split: prod.splits if_splits)

lemma updateHB_write_control:
  "updateHB_write K clk e x ts st rd w s = (res, s1) \<Longrightarrow>
   same_control s s1 \<and> notif s1 = notif s \<and> app_params s1 = app_params s"
  by (auto simp: updateHB_write_def read_clock_def same_control_def Let_def
      split: prod.splits if_splits option.splits)

lemma updateHB_notify_control [simp]:
  "same_control s (updateHB_notify new s)" "maybe_started (notif s) (notif (updateHB_notify new s))"
  "kvs (updateHB_notify new s) = kvs s" "app_params (updateHB_notify new s) = app_params s"
  by (auto simp: updateHB_notify_def same_control_def maybe_started_def split: option.splits)

lemma same_control_trans: "same_control s s1 \<Longrightarrow> same_control s1 s2 \<Longrightarrow> same_control s s2"
  by (simp add: same_control_def)

lemma updateHB_control_snd:
  "same_control s (snd (updateHB K clk e x ts st w s))"
  "maybe_started (notif s) (notif (snd (updateHB K clk e x ts st w s)))"
proof -
  obtain r s1 where rd: "updateHB_read K e x w s = (r, s1)" by (metis prod.exhaust)
  note c1 = updateHB_read_control [OF rd]
  have "same_control s (snd (updateHB K clk e x ts st w s)) \<and>
    maybe_started (notif s) (notif (snd (updateHB K clk e x ts st w s)))"
  proof (cases r)
    case (Inr hb)
    obtain w' new s2 where wr: "updateHB_write K clk e x ts st hb w s1 = ((w', new), s2)" by (metis prod.exhaust)
    note c2 = updateHB_write_control [OF wr]
    have "snd (updateHB K clk e x ts st w s) = updateHB_notify new s2"
      using rd wr Inr by (simp add: updateHB_def)
    then show ?thesis
      using c1 c2 updateHB_notify_control(1,2) [of s2 new] by (auto intro: same_control_trans)
  qed (use rd c1 in \<open>simp add: updateHB_def\<close>)
  then show "same_control s (snd (updateHB K clk e x ts st w s))"
    "maybe_started (notif s) (notif (snd (updateHB K clk e x ts st w s)))" by blast+
qed

lemma isHeartbeating_control: "isHeartbeating K x now e s = (res, s') \<Longrightarrow> same_control s s' \<and> notif s' = notif s"
  by (auto simp: isHeartbeating_def same_control_def Let_def split: prod.splits if_splits)

lemma states_loop_control:
  "states_loop K now e xs acc s = (res, s') \<Longrightarrow> same_control s s' \<and> notif s' = notif s"
proof (induction xs arbitrary: acc s)
  case (Cons x xs)
  obtain b pd s1 where h: "isHeartbeating K x now e s = ((b, pd), s1)" by (metis prod.exhaust)
  note c = isHeartbeating_control [OF h]
  show ?case
  proof (cases pd)
    case None
    then have "states_loop K now e xs (acc @ [\<lparr>hs_XName = x, hs_Heartbeating = b\<rparr>]) s1 = (res, s')"
      using Cons.prems h by simp
    from Cons.IH [OF this] c show ?thesis by (simp add: same_control_def)
  qed (use Cons.prems h c in simp)
qed simp

lemma params_set_simps [simp]:
  "app_params (params_set q s) = q" "server_url_port (params_set q s) = string_param (port q)"
  "kvs (params_set q s) = kvs s" "notif (params_set q s) = notif s" "tick (params_set q s) = tick s"
  "same_control s (params_set q s)"
  by (simp_all add: params_set_def parm_commit_def same_control_def)

lemma params_store_control:
  "params_store K w s = (w', s') \<Longrightarrow> same_control s s' \<and> notif s' = notif s \<and> app_params s' = app_params s"
  by (auto simp: params_store_def same_control_def Let_def split: prod.splits option.splits if_splits)

lemma paramsIO_control: "same_control s (snd (paramsIO K r w s)) \<and> notif (snd (paramsIO K r w s)) = notif s"
  by (auto simp: paramsIO_eq same_control_def Let_def split: prod.splits option.splits)

lemma hbStates_control: "same_control s (snd (hbStates K clk r w s)) \<and> notif (snd (hbStates K clk r w s)) = notif s"
proof -
  obtain xs ok where u: "hbStatesReq_unmarshal (rq_body r) = (xs, ok)" by (metis prod.exhaust)
  obtain res s2 where l: "states_loop K (clk (tick s)) URL_HB_STATES xs [] (s\<lparr>tick := tick s + 1\<rparr>) = (res, s2)"
    by (metis prod.exhaust)
  have "same_control s s2 \<and> notif s2 = notif s"
    using states_loop_control [OF l] by (simp add: same_control_def)
  then show ?thesis using u l by (auto simp: hbStates_def read_clock_def split: sum.splits)
qed

lemma hbStateSingle_control:
  "same_control s (snd (hbStateSingle K clk f r w s)) \<and> notif (snd (hbStateSingle K clk f r w s)) = notif s"
proof -
  obtain b pd s2 where i: "isHeartbeating K (f (rq_xname r)) (clk (tick s))
      (URL_HB_STATE @ ''/'' @ f (rq_xname r)) (s\<lparr>tick := tick s + 1\<rparr>) = ((b, pd), s2)"
    by (metis prod.exhaust)
  have "same_control s s2 \<and> notif s2 = notif s"
    using isHeartbeating_control [OF i] by (simp add: same_control_def)
  then show ?thesis using i by (auto simp: hbStateSingle_def read_clock_def Let_def split: option.splits)
qed

lemma run_handler_control:
  "same_control s (snd (run_handler L h r w s)) \<and> maybe_started (notif s) (notif (snd (run_handler L h r w s)))"
proof (cases h)
  case H_hbRcv
  then show ?thesis
    using updateHB_control_snd by (auto simp: hbRcv_def Let_def split: prod.splits)
next
  case H_hbRcvXName
  then show ?thesis
    using updateHB_control_snd by (auto simp: hbRcvXName_def Let_def split: prod.splits)
next
  case H_paramsIO
  then show ?thesis using paramsIO_control [of s "lb_kv L" r w] by simp
next
  case H_hbStates
  then show ?thesis using hbStates_control [of s "lb_kv L" "lb_clk L" r w] by simp
next
  case H_hbStateSingle
  then show ?thesis
    using hbStateSingle_control [of s "lb_kv L" "lb_clk L" "lb_norm_xname L" r w] by simp
qed (auto simp: doHealth_def doReadiness_def doLiveness_def same_control_def Let_def split: prod.splits)

lemma serve_control:
  "same_control s (snd (serve L tag url r s)) \<and> maybe_started (notif s) (notif (snd (serve L tag url r s)))"
  by (cases "ServeHTTP (newRouter tag generateRoutes) (rq_method r) (rq_path r)")
    (simp_all add: serve_def run_handler_control)

section \<open>The store under requests\<close>

lemma params_key_stored: "stored_ok m \<Longrightarrow> stored_ok (m(KV_PARAM_KEY \<mapsto> v))"
  using params_key_not_in_range by (auto simp: stored_ok_def)

context kvi_store
begin

lemma params_store_stored:
  assumes "stored_ok (view (kvs s))"
  shows "stored_ok (view (kvs (snd (params_store K w s))))"
proof -
  have "stored_ok (view (snd (kv_store K KV_PARAM_KEY js (kvs s))))" for js
    using store_view [of KV_PARAM_KEY js "kvs s"] params_key_stored [OF assms]
    by (cases "kv_store K KV_PARAM_KEY js (kvs s)") (use assms in auto)
  then show ?thesis
    using assms by (auto simp: params_store_def Let_def split_beta split: option.splits)
qed

lemma paramsIO_stored:
  assumes "stored_ok (view (kvs s))"
  shows "stored_ok (view (kvs (snd (paramsIO K r w s))))"
  using assms params_store_stored [of "params_set q s" w for q]
  by (auto simp: paramsIO_def split: sum.splits option.splits)

lemma hbRcv_stored:
  assumes "stored_ok (view (kvs s))" "rw_status w = None"
  shows "stored_ok (view (kvs (snd (hbRcv K clk f r w s))))"
proof (cases "hb_parse f r")
  case None
  then show ?thesis using assms(1) by (simp add: hbRcv_refused [OF None assms(2), THEN conjunct1])
next
  case (Some p)
  obtain c ts st where p: "p = (c, ts, st)" by (cases p)
  obtain w' s' where u: "updateHB K clk URL_HEARTBEAT c ts st w s = (w', s')" by (metis prod.exhaust)
  from updateHB_stored [OF assms(1) u] show ?thesis
    using hbRcv_parsed [of f r c ts st K clk w s] Some p u by simp
qed

lemma hbRcvXName_stored:
  assumes "stored_ok (view (kvs s))" "rw_status w = None"
  shows "stored_ok (view (kvs (snd (hbRcvXName K clk f r w s))))"
proof (cases "hb_parse_xname f r")
  case None
  then show ?thesis using assms(1) by (simp add: hbRcvXName_refused [OF None assms(2), THEN conjunct1])
next
  case (Some p)
  obtain c ts st where p: "p = (c, ts, st)" by (cases p)
  obtain w' s' where u: "updateHB K clk URL_HEARTBEAT c ts st w s = (w', s')" by (metis prod.exhaust)
  from updateHB_stored [OF assms(1) u] show ?thesis
    using hbRcvXName_parsed [of f r c ts st K clk w s] Some p u by simp
qed

end

text \<open>The handlers that write nothing.\<close>

lemma run_handler_reads:
  assumes L: "kvi_store (lb_kv L) view" and h: "h \<notin> {H_hbRcv, H_hbRcvXName, H_paramsIO}"
  shows "view (kvs (snd (run_handler L h r w s))) = view (kvs s)"
proof -
  have g: "view (snd (kv_get (lb_kv L) HBTD_HEALTH_KEY (kvs s))) = view (kvs s)"
    by (rule kvi_store.get_view [OF L])
  show ?thesis
  proof (cases h)
    case H_hbStates
    then show ?thesis
      using queries_frame [OF L disjI1 [OF refl], THEN conjunct1] by simp
  next
    case H_hbStateSingle
    then show ?thesis
      using queries_frame [OF L disjI2 [OF disjI1 [OF refl]], THEN conjunct1] by simp
  next
    case H_doHealth
    with g show ?thesis by (auto simp: doHealth_def Let_def split: prod.splits)
  next
    case H_doReadiness
    with g show ?thesis by (auto simp: doReadiness_def Let_def split: prod.splits)
  qed (use h in \<open>auto simp: doLiveness_def\<close>)
qed

lemma run_handler_stored:
  assumes L: "kvi_store (lb_kv L) view" and wf: "stored_ok (view (kvs s))"
  shows "stored_ok (view (kvs (snd (run_handler L h r new_response s))))"
proof (cases "h \<in> {H_hbRcv, H_hbRcvXName, H_paramsIO}")
  case True
  then show ?thesis
    using kvi_store.hbRcv_stored [OF L wf] kvi_store.hbRcvXName_stored [OF L wf] kvi_store.paramsIO_stored [OF L wf]
    by (auto simp: handler_beat_def)
next
  case False
  from run_handler_reads [OF L this] wf show ?thesis by simp
qed

text \<open>What a request writes: one key at most, and it removes none.\<close>

definition writes :: "string option \<Rightarrow> (string \<rightharpoonup> string) \<Rightarrow> (string \<rightharpoonup> string) \<Rightarrow> bool" where
  "writes co m m' \<longleftrightarrow> m' = m \<or> (\<exists>k v. m' = m(k \<mapsto> v) \<and> (k = KV_PARAM_KEY \<or> co = Some k))"

lemma writes_refl [simp]: "writes co m m"
  by (simp add: writes_def)

context kvi_store
begin

lemma updateHB_writes: "writes (Some x) (view (kvs s)) (view (kvs (snd (updateHB K clk e x ts st w s))))"
  using updateHB_written [of clk e x ts st w s] unfolding writes_def by (metis prod.collapse)

lemma hbRcv_writes:
  "rw_status w = None \<Longrightarrow> writes (map_option fst (hb_parse f r)) (view (kvs s)) (view (kvs (snd (hbRcv K clk f r w s))))"
proof (cases "hb_parse f r")
  case (Some p)
  obtain c ts st where "p = (c, ts, st)" by (cases p)
  then show ?thesis using Some updateHB_writes hbRcv_parsed [of f r c ts st K clk w s] by simp
qed (simp add: hbRcv_refused [THEN conjunct1])

lemma hbRcvXName_writes:
  "rw_status w = None \<Longrightarrow> writes (map_option fst (hb_parse_xname f r)) (view (kvs s))
     (view (kvs (snd (hbRcvXName K clk f r w s))))"
proof (cases "hb_parse_xname f r")
  case (Some p)
  obtain c ts st where "p = (c, ts, st)" by (cases p)
  then show ?thesis using Some updateHB_writes hbRcvXName_parsed [of f r c ts st K clk w s] by simp
qed (simp add: hbRcvXName_refused [THEN conjunct1])

lemma paramsIO_writes: "writes co (view (kvs s)) (view (kvs (snd (paramsIO K r w s))))"
proof -
  have "writes co (view (kvs s)) (view (snd (kv_store K KV_PARAM_KEY js (kvs s))))" for js
    using store_view [of KV_PARAM_KEY js "kvs s"] unfolding writes_def by (metis prod.collapse)
  then show ?thesis
    by (auto simp: paramsIO_eq Let_def split_beta split: option.splits)
qed

end

lemma serve_writes:
  assumes L: "kvi_store (lb_kv L) view"
  shows "writes (request_component L tag r) (view (kvs s)) (view (kvs (snd (serve L tag url r s))))"
proof (cases "ServeHTTP (newRouter tag generateRoutes) (rq_method r) (rq_path r)")
  case (Routed h vars)
  let ?r = "r\<lparr>rq_xname := (case map_of vars ''xname'' of None \<Rightarrow> [] | Some x \<Rightarrow> x)\<rparr>"
  have "writes (map_option fst (handler_beat L h ?r)) (view (kvs s)) (view (kvs (snd (run_handler L h ?r new_response s))))"
  proof (cases "h \<in> {H_hbRcv, H_hbRcvXName, H_paramsIO}")
    case True
    then show ?thesis
      using kvi_store.hbRcv_writes [OF L] kvi_store.hbRcvXName_writes [OF L] kvi_store.paramsIO_writes [OF L]
      by (auto simp: handler_beat_def)
  next
    case False
    from run_handler_reads [OF L this] show ?thesis by simp
  qed
  then show ?thesis by (simp add: serve_def request_component_def request_beat_def Routed)
qed (simp_all add: serve_def)

lemma serve_stored:
  assumes "kvi_store (lb_kv L) view" "stored_ok (view (kvs s))"
  shows "stored_ok (view (kvs (snd (serve L tag url r s))))"
proof (cases "ServeHTTP (newRouter tag generateRoutes) (rq_method r) (rq_path r)")
  case (Routed h vars)
  let ?r = "r\<lparr>rq_xname := (case map_of vars ''xname'' of None \<Rightarrow> [] | Some x \<Rightarrow> x)\<rparr>"
  have sv: "serve L tag url r s = run_handler L h ?r new_response s" by (simp add: serve_def Routed)
  show ?thesis unfolding sv by (rule run_handler_stored [OF assms])
qed (use assms(2) in \<open>simp_all add: serve_def\<close>)

section \<open>Properties\<close>

lemma mem_view_empty: "mem_view gm_empty = (\<lambda>k. None)"
  by (simp add: mem_view_def gm_empty_def fun_eq_iff)

lemma sample_served:
  "ServeHTTP (newRouter False generateRoutes) ''POST'' (URL_HEARTBEAT @ ''/'' @ ''x0'') =
     Routed H_hbRcvXName [(''xname'', ''x0'')]"
proof -
  have x: "one_segment ''x0''" by (simp add: one_segment_def)
  have e: "(URL_HEARTBEAT @ ''/'' @ ''x0'', [(''POST'', H_hbRcvXName)], [(''xname'', ''x0'')],
      [''GET'', ''PATCH'']) \<in> set (api ''x0'')" unfolding api_def set_simps by blast
  show ?thesis using api_dispatched [OF x e, of False "''POST''"] by (simp add: dispatched_def)
qed

lemma sample_request_beat:
  "request_beat (sample_lib clk) False (sample_xname_request ''x0'') = Some (''x0'', ''now'', ''OK'')"
proof -
  let ?r = "sample_xname_request ''x0''"
  have "ServeHTTP (newRouter False generateRoutes) (rq_method ?r) (rq_path ?r) =
      Routed H_hbRcvXName [(''xname'', ''x0'')]"
    using sample_served by (simp add: sample_xname_request_def)
  moreover have "?r\<lparr>rq_xname := ''x0''\<rparr> = ?r" by (simp add: sample_xname_request_def)
  ultimately show ?thesis
    using sample_xname_parse [of "''x0''" "\<lambda>x. x"]
    by (simp add: request_beat_def handler_beat_def sample_lib_def)
qed

lemma sample_request_component:
  "request_component (sample_lib clk) False (sample_xname_request ''x0'') = Some ''x0''"
  by (simp add: request_component_def sample_request_beat)

lemma sample_lib_kv [simp]: "lb_kv (sample_lib clk) = mem_kvi"
  by (simp add: sample_lib_def)

lemma sample_store_ok:
  "kvi_store (lb_kv (sample_lib clk)) mem_view" "stored_ok (mem_view gm_empty)"
  by (simp_all add: mem.kvi_store_axioms stored_ok_def mem_view_empty)

text \<open>
  C18: A request writes one key at most. Whatever the request and whatever fails, serving it
  leaves every key of the store as it is, apart from the record of the component its heartbeat
  is for, or from the stored parameters; and it never removes a key.
\<close>

theorem request_writes_one:
  assumes "kvi_store (lb_kv L) view" "serve L tag url r s = (w, s')"
  shows "view (kvs s') = view (kvs s) \<or>
    (\<exists>k val. view (kvs s') = (view (kvs s))(k \<mapsto> val) \<and> (k = KV_PARAM_KEY \<or> request_component L tag r = Some k))"
  using serve_writes [OF assms(1), of tag r s url] assms(2) by (simp add: writes_def)

theorem request_writes_one_witness:
  "\<exists>w s'. serve (sample_lib (\<lambda>n. 100)) False (\<lambda>u. u) (sample_xname_request ''x0'') (sample_state gm_empty) = (w, s') \<and>
    dom (mem_view (kvs s')) \<subseteq> {KV_PARAM_KEY, ''x0''}"
proof -
  let ?L = "sample_lib (\<lambda>n. 100)" and ?s = "sample_state gm_empty"
  obtain w s' where sv: "serve ?L False (\<lambda>u. u) (sample_xname_request ''x0'') ?s = (w, s')"
    by (metis prod.exhaust)
  have "mem_view (kvs ?s) = (\<lambda>k. None)" by (simp add: sample_state_def mem_view_empty)
  with request_writes_one [OF sample_store_ok(1) sv] sv sample_request_component [of "\<lambda>n. 100"]
  show ?thesis by (auto split: if_splits)
qed

end
