(* ===== verification/Sender_History.thy ===== *)
theory Sender_History
  imports Hsm_Sender
begin

text \<open>
  Histories of notifications and sender turns, with notifications during a turn, and their
  refinement to a map from components to the change still to be told; and two notifications of one
  component that overlap.
\<close>

section \<open>Histories\<close>

text \<open>
  Notifications, each in one step, and turns in two parts with any notifications in between: \<open>Take\<close>
  begins a turn, \<open>Answers hsm p ready\<close> ends it, with what the State Manager answers, the parameters
  and \<open>hsmReady\<close> as they are then. The thread is sequential, so a \<open>Take\<close> during a turn and an \<open>Answers\<close>
  outside of one are not events of the code and do nothing.
\<close>

datatype sm_event = Change hbinfo int | Take | Answers hsm op_params bool

type_synonym sm_state = "notify \<times> hb_maps \<times> (hb_change \<Rightarrow> bulk) option"

fun sm_step :: "bool \<Rightarrow> sm_event \<Rightarrow> sm_state \<Rightarrow> sm_state option" where
  "sm_step tm (Change hb st) (n, cp, t) = Some (hb_update_notify hb st n, cp, t)"
| "sm_step tm Take (n, cp, None) =
     (let (bsi, cp', g) = sm_take cp (nt_maps n) in Some (n\<lparr>nt_maps := g\<rparr>, cp', Some bsi))"
| "sm_step tm Take (n, cp, Some bsi) = Some (n, cp, Some bsi)"
| "sm_step tm (Answers hsm p ready) (n, cp, Some bsi) =
     map_option (\<lambda>(cp', _). (n, cp', None)) (sm_answer hsm tm p ready bsi cp)"
| "sm_step tm (Answers hsm p ready) (n, cp, None) = Some (n, cp, None)"

fun sm_run :: "bool \<Rightarrow> sm_event list \<Rightarrow> sm_state \<Rightarrow> sm_state option" where
  "sm_run tm [] s = Some s"
| "sm_run tm (e # es) s = Option.bind (sm_step tm e s) (sm_run tm es)"

text \<open>All requests are accepted, or requests can be made and none is.\<close>

definition takes_all :: "hsm \<Rightarrow> bool" where
  "takes_all hsm \<longleftrightarrow> (\<forall>u b. accepted (hsm u b))"

definition takes_none :: "hsm \<Rightarrow> bool" where
  "takes_none hsm \<longleftrightarrow> (\<forall>u b. hsm u b \<noteq> Bad_url \<and> \<not> accepted (hsm u b))"

fun all_or_none :: "sm_event \<Rightarrow> bool" where
  "all_or_none (Answers hsm p ready) \<longleftrightarrow> takes_all hsm \<or> takes_none hsm"
| "all_or_none e \<longleftrightarrow> True"

text \<open>A turn gets through when HSM is ready, \<open>nosm\<close> is off and all requests are accepted.\<close>

definition through :: "hsm \<Rightarrow> op_params \<Rightarrow> bool \<Rightarrow> bool" where
  "through hsm p ready \<longleftrightarrow> ready \<and> int_param (nosm p) = 0 \<and> takes_all hsm"

text \<open>
  The specification: the changes taken by the sender and not yet delivered, the changes since
  then, and whether a turn is open. What is left to send is the first map overridden by the second.
\<close>

type_synonym sm_abs = "(string \<rightharpoonup> hb_change) \<times> (string \<rightharpoonup> hb_change) \<times> bool"

fun sm_spec :: "sm_event \<Rightarrow> sm_abs \<Rightarrow> sm_abs" where
  "sm_spec (Change hb st) (old, new, open) =
     (old, (case change_of st of None \<Rightarrow> new | Some c \<Rightarrow> new(Component hb \<mapsto> c)), open)"
| "sm_spec Take (old, new, open) = (if open then (old, new, True) else (old ++ new, (\<lambda>x. None), True))"
| "sm_spec (Answers hsm p ready) (old, new, open) =
     (if open \<and> through hsm p ready then (\<lambda>x. None) else old, new, False)"

definition left_to_send :: "sm_abs \<Rightarrow> string \<rightharpoonup> hb_change" where
  "left_to_send a = fst a ++ fst (snd a)"

definition sm_pending :: "sm_state \<Rightarrow> string \<rightharpoonup> hb_change" where
  "sm_pending s = pending (fst (snd s)) (nt_maps (fst s))"

text \<open>
  During a turn, the sender's own maps hold the taken changes and the global ones the changes
  since then.
\<close>

fun turn_open :: "sm_state \<Rightarrow> sm_abs \<Rightarrow> bool" where
  "turn_open (n, cp, None) (old, new, open) \<longleftrightarrow> \<not> open"
| "turn_open (n, cp, Some bsi) (old, new, open) \<longleftrightarrow> open \<and>
     (\<forall>c. bsi c = bulk_for c (ComponentIDs (bsi c)) \<and> set (ComponentIDs (bsi c)) = {x. old x = Some c}) \<and>
     (\<forall>x. last_change cp x = old x \<and> (old x = None \<longrightarrow> (\<forall>d. gm_get (cp d) x = 0))) \<and>
     (\<forall>x. last_change (nt_maps n) x = new x)"

definition sm_rel :: "nat \<Rightarrow> sm_state \<Rightarrow> sm_abs \<Rightarrow> bool" where
  "sm_rel k s a \<longleftrightarrow> sender_ok (fst (snd s)) (nt_maps (fst s)) (nt_seq (fst s)) \<and>
     unat (nt_seq (fst s)) \<le> k \<and> sm_pending s = left_to_send a \<and> turn_open s a"

lemma sender_ok_global: "sender_ok cp g s \<Longrightarrow> maps_ok g s"
  unfolding sender_ok_def maps_ok_def
proof (intro allI)
  fix x assume "\<forall>x. seq_ok (merged cp g x) s"
  then have "seq_ok (merged cp g x) s" by simp
  then show "seq_ok (\<lambda>c. gm_get (g c) x) s" by (rule seq_ok_clear) (simp add: merged_def)
qed

lemma sm_change_refines:
  assumes rel: "sm_rel k (n, cp, t) (old, new, op)" and lt: "k < 2 ^ 64 - 1"
  shows "sm_rel (Suc k) (hb_update_notify hb st n, cp, t) (sm_spec (Change hb st) (old, new, op))"
proof -
  have ok: "sender_ok cp (nt_maps n) (nt_seq n)" and le: "unat (nt_seq n) \<le> k"
    and pe: "pending cp (nt_maps n) = old ++ new" and tn: "turn_open (n, cp, t) (old, new, op)"
    using rel by (simp_all add: sm_rel_def sm_pending_def left_to_send_def)
  have nz: "nt_seq n + 1 \<noteq> 0" "unat (nt_seq n + 1) = unat (nt_seq n) + 1"
    using next_seq_nz [of "nt_seq n"] le lt by linarith+
  show ?thesis
  proof (cases "change_of st")
    case None
    have "sender_ok cp (nt_maps n) (nt_seq n + 1)"
      using ok nz(1) by (simp add: sender_ok_def seq_ok_mono)
    then show ?thesis
      using None le nz(2) pe tn
      by (cases t) (simp_all add: sm_rel_def sm_pending_def left_to_send_def notify_unknown)
  next
    case (Some c)
    have "last_change (nt_maps (hb_update_notify hb st n)) = (last_change (nt_maps n))(Component hb \<mapsto> c)"
      by (rule notify_last_change [OF sender_ok_global [OF ok] nz(1) Some])
    then show ?thesis
      using Some le nz(2) pe tn sender_ok_notify [OF ok nz(1) Some] pending_notify [OF ok nz(1) Some]
      by (cases t) (simp_all add: sm_rel_def sm_pending_def left_to_send_def)
  qed
qed

lemma last_change_merged: "(\<And>c. gm_get (m c) x = merged cp g x c) \<Longrightarrow> last_change m x = pending cp g x"
  by (simp add: last_change_def pending_def)

lemma pending_none_zero:
  "sender_ok cp g s \<Longrightarrow> pending cp g x = None \<longleftrightarrow> (\<forall>c. merged cp g x c = 0)"
  unfolding pending_def using winner_None [of "merged cp g x" s] by (simp add: sender_ok_def)

lemma last_change_zero: "(\<And>c. gm_get (m c) x = 0) \<Longrightarrow> last_change m x = None"
  by (simp add: last_change_def winner_def)

lemma sm_take_refines:
  assumes rel: "sm_rel k (n, cp, None) (old, new, op)"
  shows "\<exists>s'. sm_step tm Take (n, cp, None) = Some s' \<and> sm_rel k s' (sm_spec Take (old, new, op))"
proof -
  obtain bsi cp' g where tk: "sm_take cp (nt_maps n) = (bsi, cp', g)" by (metis prod.exhaust)
  note r = sm_take_result [OF tk]
  have ok: "sender_ok cp (nt_maps n) (nt_seq n)" and pe: "pending cp (nt_maps n) = old ++ new"
    and cl: "\<not> op" and le: "unat (nt_seq n) \<le> k"
    using rel by (simp_all add: sm_rel_def sm_pending_def left_to_send_def)
  note m = sm_take_merged [OF tk]
  have lc: "last_change cp' x = (old ++ new) x" for x
    using last_change_merged [of cp' x cp "nt_maps n"] r(5) pe by simp
  have "gm_get (cp' d) x = 0" if "(old ++ new) x = None" for x d
    using pending_none_zero [OF ok, of x] that pe r(5) by simp
  moreover have "last_change g x = None" for x using r(6) by (rule last_change_zero)
  moreover have "set (ComponentIDs (bsi c)) = {x. (old ++ new) x = Some c}" for c
    using r(1) pe by simp
  moreover have "sender_ok cp' g (nt_seq n)" "pending cp' g = pending cp (nt_maps n)"
    using ok by (simp_all add: sender_ok_def pending_def [abs_def] m)
  ultimately show ?thesis
    using tk cl pe le lc r(3) by (simp add: sm_rel_def sm_pending_def left_to_send_def)
qed

lemma sm_answer_refines:
  assumes rel: "sm_rel k (n, cp, Some bsi) (old, new, op)" and an0: "takes_all hsm \<or> takes_none hsm"
  shows "\<exists>s'. sm_step tm (Answers hsm p ready) (n, cp, Some bsi) = Some s' \<and>
    sm_rel k s' (sm_spec (Answers hsm p ready) (old, new, op))"
proof -
  have ok: "sender_ok cp (nt_maps n) (nt_seq n)" and le: "unat (nt_seq n) \<le> k" and op: "op"
    and pe: "pending cp (nt_maps n) = old ++ new"
    and b: "\<And>c. bsi c = bulk_for c (ComponentIDs (bsi c))" "\<And>c. set (ComponentIDs (bsi c)) = {x. old x = Some c}"
    and lo: "\<And>x. last_change cp x = old x" "\<And>x d. old x = None \<Longrightarrow> gm_get (cp d) x = 0"
    and ne: "\<And>x. last_change (nt_maps n) x = new x"
    using rel by (simp_all add: sm_rel_def sm_pending_def left_to_send_def)
  have url: "hsm u b \<noteq> Bad_url" for u b
    using an0 by (auto simp: takes_all_def takes_none_def accepted_def) (metis http_outcome.distinct(3))
  obtain cp' bsi' where an: "sm_answer hsm tm p ready bsi cp = Some (cp', bsi')"
    using answer_no_panic [of hsm tm p ready bsi cp, OF url] by auto
  have flags: "needSend (bsi c) = False" "sentOK (bsi c) = False" for c by (subst b(1), simp)+
  note r = sm_answer_result [OF an flags]
  have sent: "sent_ok bsi' c \<longleftrightarrow> through hsm p ready \<and> ComponentIDs (bsi c) \<noteq> []" for c
    using an0 by (auto simp: sent_ok_def r(1) through_def takes_all_def takes_none_def)
  have ok': "sender_ok cp' (nt_maps n) (nt_seq n)"
    by (rule sm_answer_sender_ok [OF an ok]) (simp add: flags)
  have pe': "pending cp' (nt_maps n) = (if through hsm p ready then new else old ++ new)"
  proof (cases "through hsm p ready")
    case True
    have "gm_get (cp' d) x = 0" for d x
    proof (cases "old x")
      case (Some c)
      then have "last_change cp x = Some c" using lo(1) by simp
      then have "\<forall>d. d \<noteq> c \<longrightarrow> gm_get (cp d) x < gm_get (cp c) x" by (simp add: last_change_def winner_iff)
      then have "gm_get (cp c) x \<noteq> 0"
        by (metis hb_change.distinct(1) not_less_zero word_not_simps(1))
      then have "has_key cp x c" by (simp add: has_key_def gm_get_nz_key)
      moreover have "x \<in> set (ComponentIDs (bsi c))" using b(2) Some by simp
      then have "ComponentIDs (bsi c) \<noteq> []" by (metis empty_iff list.set(1))
      ultimately have "\<exists>c. sent_ok bsi' c \<and> has_key cp x c" using sent True by blast
      then show ?thesis by (simp add: r(2))
    qed (simp add: r(2) lo(2))
    then have m0: "merged cp' (nt_maps n) x = (\<lambda>c. gm_get (nt_maps n c) x)" for x
      by (intro ext) (simp add: merged_def)
    have "pending cp' (nt_maps n) x = new x" for x
      using ne [of x] by (simp add: pending_def last_change_def m0)
    then show ?thesis using True by (simp add: fun_eq_iff)
  next
    case False
    then have "\<not> sent_ok bsi' c" for c using sent by blast
    then have "merged cp' (nt_maps n) = merged cp (nt_maps n)"
      by (intro ext) (simp add: merged_def r(2))
    then have "pending cp' (nt_maps n) = pending cp (nt_maps n)" by (simp add: pending_def [abs_def])
    with False pe show ?thesis by (simp only: if_False)
  qed
  show ?thesis
    using an ok' pe' le op by (auto simp: sm_rel_def sm_pending_def left_to_send_def)
qed

lemma sm_step_refines:
  assumes "sm_rel k s a" "k < 2 ^ 64 - 1" "all_or_none e"
  shows "\<exists>s'. sm_step tm e s = Some s' \<and> sm_rel (Suc k) s' (sm_spec e a)"
proof -
  obtain n cp t where s: "s = (n, cp, t)" by (metis prod.exhaust)
  obtain old new op where a: "a = (old, new, op)" by (metis prod.exhaust)
  have up: "sm_rel k s' a' \<Longrightarrow> sm_rel (Suc k) s' a'" for s' a' by (simp add: sm_rel_def)
  have op: "op \<longleftrightarrow> t \<noteq> None" using assms(1) by (cases t) (simp_all add: s a sm_rel_def)
  show ?thesis
  proof (cases e)
    case (Change hb st)
    then show ?thesis using sm_change_refines [OF assms(1,2) [unfolded s a], of hb st] by (simp add: s a)
  next
    case Take
    then show ?thesis
      using sm_take_refines [of k n cp old new op tm] assms(1) up op
      by (cases t) (fastforce simp: s a)+
  next
    case (Answers hsm p ready)
    then show ?thesis
      using sm_answer_refines [of k n cp _ old new op hsm tm p ready] assms(1,3) up op
      by (cases t) (fastforce simp: s a sm_rel_def)+
  qed
qed

lemma sm_run_refines:
  "sm_rel k s a \<Longrightarrow> k + length es \<le> 2 ^ 64 - 1 \<Longrightarrow> list_all all_or_none es \<Longrightarrow>
   \<exists>s'. sm_run tm es s = Some s' \<and> sm_pending s' = left_to_send (fold sm_spec es a)"
proof (induction es arbitrary: k s a)
  case (Cons e es)
  from Cons.prems(2) have "k < 2 ^ 64 - 1" by simp
  from sm_step_refines [OF Cons.prems(1) this, of e tm] Cons.prems(3) obtain s1 where
    s1: "sm_step tm e s = Some s1" "sm_rel (Suc k) s1 (sm_spec e a)" by auto
  from Cons.IH [OF s1(2)] Cons.prems(2,3) s1(1) show ?case by simp
qed (simp add: sm_rel_def)

section \<open>Properties\<close>

text \<open>
  C3: While the State Manager takes all requests of a turn or none, it is told everything, and
  always the latest. Over any history, shorter than the 64-bit sequence counter, of notifications
  that do not overlap each other and of turns, each with its own parameters, readiness of HSM and
  answers, all accepted or none, the sender never panics, and what it has left to send is, per
  component, the last change notified since the beginning of the last turn that got through (HSM
  ready, \<open>nosm\<close> off, all accepted): changes that are notified while a turn waits for its answers
  are kept. What is lost when the State Manager takes some requests of a turn and not others is
  shown by \<open>failed_change_lost\<close>, when notifications overlap by \<open>overlapping_notifications_lost\<close>.
\<close>

theorem sender_history:
  assumes "length es < 2 ^ 64" "list_all all_or_none es"
  shows "\<exists>s. sm_run tm es (init_notify, no_changes, None) = Some s \<and>
    sm_pending s = left_to_send (fold sm_spec es (\<lambda>x. None, \<lambda>x. None, False))"
proof -
  have "sm_rel 0 (init_notify, no_changes, None) (\<lambda>x. None, \<lambda>x. None, False)"
    by (simp add: sm_rel_def sm_pending_def left_to_send_def init_notify_def)
  from sm_run_refines [OF this, of es tm] assms show ?thesis by simp
qed

theorem sender_history_witness:
  "\<exists>s. sm_run False
      [Change (no_hbinfo\<lparr>Component := ''x0''\<rparr>) HB_stopped_warn, Take,
       Answers (hsm_up True) initAppParams False, Take,
       Change (no_hbinfo\<lparr>Component := ''x0''\<rparr>) HB_restarted_warn, Answers (hsm_up True) initAppParams True]
      (init_notify, no_changes, None) = Some s \<and> sm_pending s = [''x0'' \<mapsto> Restarted]"
proof -
  let ?es = "[Change (no_hbinfo\<lparr>Component := ''x0''\<rparr>) HB_stopped_warn, Take,
       Answers (hsm_up True) initAppParams False, Take,
       Change (no_hbinfo\<lparr>Component := ''x0''\<rparr>) HB_restarted_warn, Answers (hsm_up True) initAppParams True]"
  have up: "takes_all (hsm_up True)" by (simp add: takes_all_def accepted_up)
  have "left_to_send (fold sm_spec ?es (\<lambda>x. None, \<lambda>x. None, False)) = [''x0'' \<mapsto> Restarted]"
    by (simp add: fun_eq_iff left_to_send_def through_def up initAppParams_def int_app_def)
  moreover have len: "length ?es < 2 ^ 64" "list_all all_or_none ?es" by (simp_all add: up)
  note sender_history [OF len, of False]
  ultimately show ?thesis by metis
qed

text \<open>
  C34: Overlapping notifications are lost. \<open>hbSeq++\<close> is outside of the lock, and the number is read
  again when the change is entered. When two threads count before either of them enters its
  change, both changes get the same number; if they are changes of one component of different
  kinds, neither kind has the highest number, and a turn sends neither of them, nor any older one.
\<close>

theorem overlapping_notifications_lost:
  assumes "sender_ok cp (nt_maps n) (nt_seq n)" "unat (nt_seq n) + 2 < 2 ^ 64"
    and "change_of st1 = Some c1" "change_of st2 = Some c2" "c1 \<noteq> c2"
    and "Component h1 = x" "Component h2 = x"
    and "n' = notify_enter h2 st2 (notify_enter h1 st1 (notify_number (notify_number n)))"
    and "send_sm_round hsm tm p ready cp (nt_maps n') = Some r"
  shows "pending cp (nt_maps n') x = None \<and> (\<forall>c. x \<notin> set (ComponentIDs (rd_bsi r c)))"
proof -
  let ?s = "nt_seq n + 1 + 1"
  have "nt_seq n + 1 \<noteq> 0" "unat (nt_seq n + 1) = unat (nt_seq n) + 1"
    using next_seq_nz [of "nt_seq n"] assms(2) by auto
  moreover from this have nz: "?s \<noteq> 0" using next_seq_nz [of "nt_seq n + 1"] assms(2) by auto
  ultimately have lt: "merged cp (nt_maps n) x c < ?s" for c
    using assms(1) next_seq_greater [of "nt_seq n" "merged cp (nt_maps n) x c"]
      next_seq_greater [of "nt_seq n + 1" "merged cp (nt_maps n) x c"]
    by (simp add: sender_ok_def seq_ok_def less_imp_le)
  have "merged cp (nt_maps n') x = (merged cp (nt_maps n) x)(c1 := ?s, c2 := ?s)"
    using assms(3-7) nz by (auto simp: fun_eq_iff assms(8) merged_def notify_defs Let_def split: prod.splits)
  then have "\<not> (\<forall>d. d \<noteq> c \<longrightarrow> merged cp (nt_maps n') x d < merged cp (nt_maps n') x c)" for c
    using lt assms(5) by (cases "c = c1"; cases "c = c2") (auto simp: not_less less_imp_le intro: exI [of _ c1] exI [of _ c2])
  then have "pending cp (nt_maps n') x = None"
    by (metis option.exhaust pending_def winner_iff)
  then show ?thesis using send_sm_round_result(1) [OF assms(9)] by simp
qed

theorem overlapping_notifications_lost_witness:
  "\<exists>r. send_sm_round (hsm_up True) False initAppParams True no_changes (nt_maps
      (notify_enter (no_hbinfo\<lparr>Component := ''x0''\<rparr>) HB_started
        (notify_enter (no_hbinfo\<lparr>Component := ''x0''\<rparr>) HB_stopped_error
          (notify_number (notify_number init_notify))))) = Some r \<and>
    (\<forall>c. ''x0'' \<notin> set (ComponentIDs (rd_bsi r c)))"
proof -
  let ?h = "no_hbinfo\<lparr>Component := ''x0''\<rparr>"
  let ?n = "notify_enter ?h HB_started (notify_enter ?h HB_stopped_error (notify_number (notify_number init_notify)))"
  obtain r where r: "send_sm_round (hsm_up True) False initAppParams True no_changes (nt_maps ?n) = Some r"
    using round_no_panic [of "hsm_up True" False initAppParams, OF hsm_up_url] by blast
  have "sender_ok no_changes (nt_maps init_notify) (nt_seq init_notify)" "unat (nt_seq init_notify) + 2 < 2 ^ 64"
    by (simp_all add: init_notify_def)
  from overlapping_notifications_lost [OF this, of HB_stopped_error StopError HB_started Started ?h "''x0''" ?h ?n, OF _ _ _ _ _ _ r]
  have "\<forall>c. ''x0'' \<notin> set (ComponentIDs (rd_bsi r c))" by simp
  with r show ?thesis by blast
qed

end
