(* ===== verification/Overlaps.thy ===== *)
theory Overlaps
  imports Checker_Passes
begin

text \<open>
  Heartbeats that overlap a check of the same component: \<open>updateHB\<close> reads the record and writes it
  back, \<open>hb_checker\<close> reads all records and later deletes and updates them, and no lock orders one
  after the other.
\<close>

text \<open>
  C35: A heartbeat can be lost to a check. When a check has read the record of a component whose last
  heartbeat is past the error time, outside a monitoring gap, and a new heartbeat of that component is
  handled before the check applies its deletes, the heartbeat is answered 200 and recorded, and then
  the record is deleted: the component goes on heartbeating with no record, its death having been
  announced.
\<close>

theorem heartbeat_lost_to_check:
  assumes "kvi_reliable K view" "wf_store (view (kvs s))" "checker_begin K clk s = (Some sc, s1)"
    and "in_range k" "view (kvs s) k = Some v" "good_rec k v h"
    and "\<not> staleKeys s" "\<forall>n \<ge> tick s. int_param (errtime (app_params s)) \<le> overdue clk n h"
    and "hb_parse valid_xname r = Some (k, ts, st)"
  shows "\<exists>s2. hbRcv K clk valid_xname r new_response s1 = (new_response, s2) \<and>
    view (kvs s2) k \<noteq> None \<and> view (kvs (fst (checker_end K sc s2))) k = None"
proof -
  let ?m = "view (kvs s)"
  have store: "kvi_store K view" using assms(1) by (simp add: kvi_reliable_def)
  obtain ks vd where vd: "\<And>k. \<exists>n \<ge> tick s. vd k = verdict_at clk s n (rec_of ?m k)"
    and compl: "\<And>k v. ?m k = Some v \<Longrightarrow> in_range k \<Longrightarrow> k \<in> set ks"
    and dels: "sc_delete sc = filter (\<lambda>k. fst (vd k) = None) ks"
    and upds: "sc_update sc = map (\<lambda>k. (k, the (hbinfo_marshal (the (fst (vd k))))))
         (filter (\<lambda>k. fst (vd k) \<noteq> None \<and> snd (vd k) \<noteq> None) ks)"
    and v1: "view (kvs s1) = ?m"
    by (rule kvi_store.checker_begin_result [OF store assms(2,3)]) blast
  obtain n where "tick s \<le> n" "vd k = verdict_at clk s n h"
    using vd [of k] good_rec_of [of ?m k v h, OF assms(5,6)] by auto
  then have dead: "vd k = (None, Some HB_stopped_error)" using assms(7,8) by (simp add: verdict_dead)
  have del: "k \<in> set (sc_delete sc)" and upd: "k \<notin> fst ` set (sc_update sc)"
    using compl [OF assms(5,4)] dead by (auto simp: dels upds)
  have "prior (view (kvs s1)) k h"
    using assms(5,6) by (simp add: v1 prior_def good_rec_def complete_def)
  from kvi_reliable.updateHB_prior [OF assms(1) this, of clk URL_HEARTBEAT ts st new_response]
  obtain s2 where s2: "updateHB K clk URL_HEARTBEAT k ts st new_response s1 = (new_response, s2)"
    and rec: "recorded view k (beat (clk (tick s1)) ts st h) s1 s2" by blast
  obtain s3 b where ce: "checker_end K sc s2 = (s3, b)" by (metis prod.exhaust)
  have "view (kvs s3) k = None"
    using kvi_store.checker_end_view [OF store ce] kvi_store.store_keys_frame [OF store upd]
      kvi_reliable.delete_keys_view [OF assms(1)] del by simp
  moreover have "view (kvs s2) k \<noteq> None" using recordedD(1) [OF rec] by auto
  ultimately show ?thesis using s2 ce hbRcv_parsed [OF assms(9), of K clk new_response s1] by auto
qed

theorem heartbeat_lost_to_check_witness:
  "\<exists>sc s1 s2. checker_begin mem_kvi (\<lambda>n. 200) (sample_store HB_WARN_NONE) = (Some sc, s1) \<and>
    hbRcv mem_kvi (\<lambda>n. 200) (\<lambda>x. True) sample_request new_response s1 = (new_response, s2) \<and>
    mem_view (kvs (fst (checker_end mem_kvi sc s2))) ''x0'' = None"
proof -
  let ?s = "sample_store HB_WARN_NONE"
  obtain sc s1 where beg: "checker_begin mem_kvi (\<lambda>n. 200) ?s = (Some sc, s1)"
    using mem_checker_begin by blast
  have wf: "wf_store (mem_view (kvs ?s))"
    using sample_good [OF ascii_warnings(1)] by (auto simp: wf_store_def sample_view split: if_splits)
  have "mem_view (kvs ?s) ''x0'' = Some (the (hbinfo_marshal (sample_rec HB_WARN_NONE)))" "\<not> staleKeys ?s"
    "\<forall>n \<ge> tick ?s. int_param (errtime (app_params ?s)) \<le> overdue (\<lambda>n. 200) n (sample_rec HB_WARN_NONE)"
    by (simp_all add: sample_view sample_overdue clock_ok_def sample_int64)
  from heartbeat_lost_to_check [OF mem.kvi_reliable_axioms wf beg sample_in_range this(1)
      sample_good [OF ascii_warnings(1)] this(2,3) sample_parse] beg
  show ?thesis by blast
qed

text \<open>The two halves of \<open>updateHB\<close> on a store that does not fail, for a component with a good record.\<close>

context kvi_reliable
begin

lemma updateHB_read_good:
  assumes "updateHB_read K e k w s0 = (rd, s)" "view (kvs s0) k = Some v" "good_rec k v h"
  shows "rd = Inr (False, h) \<and> view (kvs s) = view (kvs s0)"
proof -
  obtain kval kok kerr kv1 where get: "kv_get K k (kvs s0) = ((kval, kok, kerr), kv1)"
    by (metis prod.exhaust)
  have "kerr = None" "kok" "kval = v"
    using get_result [of k "kvs s0" kval kok kerr] get assms(2) by (auto split: if_splits)
  moreover have "view kv1 = view (kvs s0)" using get_view [of k "kvs s0"] get by simp
  moreover have "hbinfo_unmarshal v no_hbinfo = (h, True)" using assms(3) by (simp add: good_rec_def complete_def)
  ultimately show ?thesis using assms(1) get by (auto simp: updateHB_read_def)
qed

lemma updateHB_write_result:
  obtains s2 v' where "updateHB_write K clk e k ts st (nw, h) w s1 =
      ((w, if nw then Some (beat (clk (tick s1)) ts st h) else None), s2)"
    and "view (kvs s2) = (view (kvs s1))(k \<mapsto> v')" "complete v' (sane (beat (clk (tick s1)) ts st h))"
    and "notif s2 = notif s1" "sm_local s2 = sm_local s1"
proof -
  obtain v' where v': "hbinfo_marshal (beat (clk (tick s1)) ts st h) = Some v'"
      "complete v' (sane (beat (clk (tick s1)) ts st h))"
    using hbinfo_marshal_complete by blast
  obtain merr kv2 where st: "kv_store K k v' (kvs s1) = (merr, kv2)" by (metis prod.exhaust)
  have "merr = None" "view kv2 = (view (kvs s1))(k \<mapsto> v')"
    using store_never [of k v' "kvs s1"] view_store [of k v' "kvs s1"] st by simp_all
  with st v' show ?thesis
    using that [of "s1\<lparr>kvs := kv2, tick := tick s1 + 1\<rparr>" v']
    by (simp add: updateHB_write_def read_clock_def Let_def)
qed

end

text \<open>
  C36: A component can come back without being announced. Its heartbeat has read the record when
  a check declares it dead, announces that and deletes the record; the heartbeat then writes the
  record back, and since it found one it is answered 200 and announces no start. What is left to
  tell is that the component is dead, although its record is there and fresh. A later check in
  time announces a restart if the component had been warned about before it was declared dead, and
  nothing otherwise.
\<close>

theorem beat_across_removal:
  assumes "updateHB_read K URL_HEARTBEAT k new_response s0 = (rd, s)"
    and "view (kvs s0) k = Some v" "good_rec k v h" "in_range k" "sanitize ts = ts" "sanitize st = st"
    and "clean_pass K view clk s s1" "\<not> staleKeys s"
    and "\<forall>n \<ge> tick s. int_param (errtime (app_params s)) \<le> overdue clk n h"
    and "h' = beat (clk (tick s1)) ts st h"
  shows "view (kvs s1) k = None \<and> (\<exists>hbb s2. rd = Inr hbb \<and>
    updateHB_write K clk URL_HEARTBEAT k ts st hbb new_response s1 = ((new_response, None), s2) \<and>
    (\<exists>v'. view (kvs s2) k = Some v' \<and> good_rec k v' h') \<and> pending_in s2 k = Some StopError \<and>
    (\<forall>s3 s4. view (kvs s3) k = view (kvs s2) k \<and> clean_pass K view clk s3 s4 \<and>
       (\<forall>n \<ge> tick s3. overdue clk n h' < int_param (warntime (app_params s3)) \<and>
          overdue clk n h' < int_param (errtime (app_params s3))) \<longrightarrow>
       pending_in s4 k = (if Had_warning h \<in> {HB_WARN_NORMAL, HB_WARN_GAP} then Some Restarted
         else pending_in s3 k)))"
proof -
  have rel: "kvi_reliable K view" using assms(7) by (simp add: clean_pass_def)
  note rd = kvi_reliable.updateHB_read_good [OF rel assms(1-3)]
  have dead: "view (kvs s1) k = None \<and> pending_in s1 k = Some StopError"
    using dead_removed [OF assms(7,4) _ assms(3,8,9)] assms(2) rd by simp
  obtain s2 v' where w: "updateHB_write K clk URL_HEARTBEAT k ts st (False, h) new_response s1 = ((new_response, None), s2)"
    and v': "view (kvs s2) = (view (kvs s1))(k \<mapsto> v')" "complete v' (sane h')"
    and n: "notif s2 = notif s1" "sm_local s2 = sm_local s1"
    using kvi_reliable.updateHB_write_result [OF rel, of clk URL_HEARTBEAT k ts st False h new_response s1] assms(10) by auto
  have "sanitize k = k" using assms(3) by (auto simp: good_rec_def sane_iff)
  then have "sane h' = h'" using assms(3,5,6) by (simp add: assms(10) sane_iff good_rec_def)
  then have good: "good_rec k v' h'" using v'(2) assms(3) by (simp add: good_rec_def assms(10))
  have hw: "Had_warning h' = HB_WARN_NORMAL \<longleftrightarrow> Had_warning h \<in> {HB_WARN_NORMAL, HB_WARN_GAP}"
    by (simp add: assms(10))
  have later: "pending_in s4 k = (if Had_warning h \<in> {HB_WARN_NORMAL, HB_WARN_GAP} then Some Restarted
         else pending_in s3 k)"
    if "view (kvs s3) k = view (kvs s2) k" "clean_pass K view clk s3 s4"
      "\<forall>n \<ge> tick s3. overdue clk n h' < int_param (warntime (app_params s3)) \<and>
          overdue clk n h' < int_param (errtime (app_params s3))" for s3 s4
    using timely_kept [OF that(2) assms(4) _ good that(3)] that(1) v'(1) hw by simp
  have "pending_in s2 k = Some StopError" using dead n by (simp add: pending_in_def)
  with dead rd w v'(1) good later show ?thesis by auto
qed

theorem beat_across_removal_witness:
  "\<exists>hbb s1 s2. updateHB_read mem_kvi URL_HEARTBEAT ''x0'' new_response (sample_store HB_WARN_NONE) =
      (Inr hbb, sample_store HB_WARN_NONE) \<and>
    hb_checker mem_kvi (\<lambda>n. 200) (sample_store HB_WARN_NONE) = (s1, True) \<and>
    updateHB_write mem_kvi (\<lambda>n. 200) URL_HEARTBEAT ''x0'' ''now'' ''OK'' hbb new_response s1 =
      ((new_response, None), s2) \<and>
    mem_view (kvs s2) ''x0'' \<noteq> None \<and> pending_in s2 ''x0'' = Some StopError"
proof -
  let ?s = "sample_store HB_WARN_NONE"
  obtain s1 where p: "clean_pass mem_kvi mem_view (\<lambda>n. 200) ?s s1"
    using sample_pass by (metis ascii_warnings(1))
  obtain rd s where rd: "updateHB_read mem_kvi URL_HEARTBEAT ''x0'' new_response ?s = (rd, s)"
    by (metis prod.exhaust)
  have s: "s = ?s"
    using rd by (auto simp: updateHB_read_def mem_kvi_def mem_get_def Let_def split: prod.splits if_splits)
  have v: "mem_view (kvs ?s) ''x0'' = Some (the (hbinfo_marshal (sample_rec HB_WARN_NONE)))" "\<not> staleKeys ?s"
    "\<forall>n \<ge> tick ?s. int_param (errtime (app_params ?s)) \<le> overdue (\<lambda>n. 200) n (sample_rec HB_WARN_NONE)"
    by (simp_all add: sample_view sample_overdue clock_ok_def sample_int64)
  have "sanitize ''now'' = ''now''" "sanitize ''OK'' = ''OK''" by (simp_all add: ascii_def)
  from beat_across_removal [OF rd v(1) sample_good [OF ascii_warnings(1)] sample_in_range this p [folded s]
      v(2,3) [folded s] refl] p rd
  show ?thesis by (auto simp: s clean_pass_def)
qed

end
