(* ===== verification/Service.thy ===== *)
theory Service
  imports Startup Telebus Requests Sender_History Overlaps
begin

text \<open>
  The running service as a transition system, with its threads interleaved at their accesses to
  what they share. A heartbeat is a read, a write and a notification; a check is the read of all
  records, one step per record, one per delete or update, and its end; a turn of the sender is
  the taking of the changes and the answers; a PATCH is the reading of the parameters, their
  assignment and their store. Other requests, rounds of the telemetry handler, new
  answers about the State Manager's readiness and writes of other instances are one step each. The
  telemetry handler looks at the parameters before it waits for a message, so a round may have
  seen parameters that are no longer in force.
\<close>

section \<open>The second half of a check\<close>

text \<open>What \<open>checker_end\<close> does once the queue has room.\<close>

definition check_resume :: "scan \<Rightarrow> 's hbtd \<Rightarrow> 's hbtd" where
  "check_resume sc s =
     rearm_hbcheck_timer (s\<lparr>hsm_q := hsm_q s @ [HSMQ_NEW], sg_ncomp := sc_ncomp sc, staleKeys := False\<rparr>)"

definition check_write :: "'s kvi \<Rightarrow> scan \<Rightarrow> 's hbtd \<Rightarrow> 's hbtd" where
  "check_write K sc s =
     (let kv2 = store_keys K (sc_update sc) (delete_keys K (sc_delete sc) (kvs s))
      in s\<lparr>kvs := (if 0 < int_param (check_interval (app_params s)) then snd (kv_unlock K kv2) else kv2)\<rparr>)"

lemma checker_end_split:
  "checker_end K sc s =
     (let s1 = check_write K sc s
      in if length (hsm_q s1) < hsmUpdateQ_cap then (check_resume sc s1, True) else (s1, False))"
  by (simp add: checker_end_def check_write_def check_resume_def Let_def)

section \<open>Steps\<close>

text \<open>A heartbeat between its read and its write: its fields and what \<open>updateHB_read\<close> returned.\<close>

record beat_req =
  br_comp :: string
  br_time :: string
  br_status :: string
  br_read :: "bool \<times> hbinfo"

text \<open>A check: the records it still has to go through, and the variables of its loop.\<close>

record check =
  ck_todo :: "(string \<times> string) list"
  ck_scan :: scan

text \<open>
  \<open>sv_blocked\<close> are the checks that wait for the full \<open>hsmUpdateQ\<close>, \<open>sv_new\<close> the records whose start
  has yet to be notified, \<open>sv_turn\<close> the lists of the sender's turn while it waits for answers,
  \<open>sv_patches\<close> the new parameters that PATCH requests are about to assign, \<open>sv_stores\<close> the number of
  those that have assigned theirs and not yet stored them.
\<close>

record 's service =
  sv_proc :: "'s hbtd"
  sv_checks :: "check list"
  sv_blocked :: "scan list"
  sv_beats :: "beat_req list"
  sv_new :: "hbinfo list"
  sv_turn :: "(hb_change \<Rightarrow> bulk) option"
  sv_patches :: "op_params list"
  sv_stores :: nat

text \<open>The steps of the process itself.\<close>

inductive own_step :: "'s lib \<Rightarrow> 's service \<Rightarrow> 's service \<Rightarrow> bool" for L where
  request: "serve L tag url r (sv_proc v) = (w, s') \<Longrightarrow> own_step L v (v\<lparr>sv_proc := s'\<rparr>)"
| beat_reads: "request_beat L tag r = Some (x, ts, st) \<Longrightarrow>
    updateHB_read (lb_kv L) URL_HEARTBEAT x new_response (sv_proc v) = (Inr rd, s') \<Longrightarrow>
    own_step L v (v\<lparr>sv_proc := s',
      sv_beats := \<lparr>br_comp = x, br_time = ts, br_status = st, br_read = rd\<rparr> # sv_beats v\<rparr>)"
| beat_writes: "b \<in> set (sv_beats v) \<Longrightarrow>
    updateHB_write (lb_kv L) (lb_clk L) URL_HEARTBEAT (br_comp b) (br_time b) (br_status b) (br_read b)
      new_response (sv_proc v) = ((w, new), s') \<Longrightarrow>
    own_step L v (v\<lparr>sv_proc := s', sv_beats := remove1 b (sv_beats v),
      sv_new := (case new of None \<Rightarrow> sv_new v | Some hb \<Rightarrow> hb # sv_new v)\<rparr>)"
| beat_notifies: "hb \<in> set (sv_new v) \<Longrightarrow>
    own_step L v (v\<lparr>sv_proc := updateHB_notify (Some hb) (sv_proc v), sv_new := remove1 hb (sv_new v)\<rparr>)"
| patch_reads: "request_patch tag r \<Longrightarrow> params_read r new_response (app_params (sv_proc v)) = Inr q \<Longrightarrow>
    own_step L v (v\<lparr>sv_patches := q # sv_patches v\<rparr>)"
| patch_sets: "q \<in> set (sv_patches v) \<Longrightarrow>
    own_step L v (v\<lparr>sv_proc := params_set q (sv_proc v), sv_patches := remove1 q (sv_patches v),
      sv_stores := Suc (sv_stores v)\<rparr>)"
| patch_stores: "0 < sv_stores v \<Longrightarrow> params_store (lb_kv L) new_response (sv_proc v) = (w, s') \<Longrightarrow>
    own_step L v (v\<lparr>sv_proc := s', sv_stores := sv_stores v - 1\<rparr>)"
| check_fails: "t \<in> set (timers (sv_proc v)) \<Longrightarrow>
    checker_open (lb_kv L) ((sv_proc v)\<lparr>timers := remove1 t (timers (sv_proc v))\<rparr>) = (None, s') \<Longrightarrow>
    own_step L v (v\<lparr>sv_proc := s'\<rparr>)"
| check_begins: "t \<in> set (timers (sv_proc v)) \<Longrightarrow>
    checker_open (lb_kv L) ((sv_proc v)\<lparr>timers := remove1 t (timers (sv_proc v))\<rparr>) = (Some kvl, s') \<Longrightarrow>
    own_step L v (v\<lparr>sv_proc := s', sv_checks := \<lparr>ck_todo = kvl, ck_scan = init_scan\<rparr> # sv_checks v\<rparr>)"
| check_record: "c \<in> set (sv_checks v) \<Longrightarrow> ck_todo c = kv # kvl \<Longrightarrow>
    check_one (lb_clk L) kv (ck_scan c, sv_proc v) = (sc, s') \<Longrightarrow>
    own_step L v (v\<lparr>sv_proc := s',
      sv_checks := \<lparr>ck_todo = kvl, ck_scan = sc\<rparr> # remove1 c (sv_checks v)\<rparr>)"
| check_applies: "c \<in> set (sv_checks v) \<Longrightarrow> ck_todo c = [] \<Longrightarrow>
    check_apply (lb_kv L) (ck_scan c) (sv_proc v) = Some (sc, s') \<Longrightarrow>
    own_step L v (v\<lparr>sv_proc := s',
      sv_checks := \<lparr>ck_todo = [], ck_scan = sc\<rparr> # remove1 c (sv_checks v)\<rparr>)"
| check_ends: "c \<in> set (sv_checks v) \<Longrightarrow> ck_todo c = [] \<Longrightarrow>
    checker_end (lb_kv L) (ck_scan c) (sv_proc v) = (s', True) \<Longrightarrow>
    own_step L v (v\<lparr>sv_proc := s', sv_checks := remove1 c (sv_checks v)\<rparr>)"
| check_blocks: "c \<in> set (sv_checks v) \<Longrightarrow> ck_todo c = [] \<Longrightarrow>
    checker_end (lb_kv L) (ck_scan c) (sv_proc v) = (s', False) \<Longrightarrow>
    own_step L v (v\<lparr>sv_proc := s', sv_checks := remove1 c (sv_checks v),
      sv_blocked := ck_scan c # sv_blocked v\<rparr>)"
| check_resumes: "sc \<in> set (sv_blocked v) \<Longrightarrow> length (hsm_q (sv_proc v)) < hsmUpdateQ_cap \<Longrightarrow>
    own_step L v (v\<lparr>sv_proc := check_resume sc (sv_proc v),
      sv_blocked := remove1 sc (sv_blocked v)\<rparr>)"
| turn_begins: "sv_turn v = None \<Longrightarrow> hsm_q (sv_proc v) = q # qs \<Longrightarrow> q \<noteq> HSMQ_DIE \<Longrightarrow>
    sm_take (sm_local (sv_proc v)) (nt_maps (notif (sv_proc v))) = (bsi, cp, g) \<Longrightarrow>
    own_step L v (v\<lparr>sv_proc := (sv_proc v)\<lparr>hsm_q := qs, sm_local := cp,
      notif := (notif (sv_proc v))\<lparr>nt_maps := g\<rparr>\<rparr>, sv_turn := Some bsi\<rparr>)"
| turn_ends: "sv_turn v = Some bsi \<Longrightarrow>
    sm_answer hsm False (app_params (sv_proc v)) (hsm_ready (sv_proc v)) bsi (sm_local (sv_proc v)) = Some (cp, bsi') \<Longrightarrow>
    own_step L v (v\<lparr>sv_proc := (sv_proc v)\<lparr>sm_local := cp\<rparr>, sv_turn := None\<rparr>)"
| telemetry: "telemetry_round p h (nt_telemetry (notif (sv_proc v)), out) = Some (q, out') \<Longrightarrow>
    own_step L v (v\<lparr>sv_proc := (sv_proc v)\<lparr>notif := (notif (sv_proc v))\<lparr>nt_telemetry := q\<rparr>\<rparr>\<rparr>)"
| hsm_probe: "own_step L v (v\<lparr>sv_proc := (sv_proc v)\<lparr>hsm_ready := b\<rparr>\<rparr>)"

text \<open>The steps of the process, and writes of other instances to the store.\<close>

inductive service_step :: "'s lib \<Rightarrow> ('s \<Rightarrow> string \<rightharpoonup> string) \<Rightarrow> 's service \<Rightarrow> 's service \<Rightarrow> bool"
  for L view where
  own: "own_step L v v' \<Longrightarrow> service_step L view v v'"
| other_instance: "stored_ok (view kv') \<Longrightarrow>
    service_step L view v (v\<lparr>sv_proc := (sv_proc v)\<lparr>kvs := kv'\<rparr>\<rparr>)"

text \<open>The states reached from \<open>v0\<close> by steps that start in states satisfying \<open>ok\<close>.\<close>

inductive reachable ::
  "'s lib \<Rightarrow> ('s \<Rightarrow> string \<rightharpoonup> string) \<Rightarrow> ('s service \<Rightarrow> bool) \<Rightarrow> 's service \<Rightarrow> 's service \<Rightarrow> bool"
  for L view ok v0 where
  start: "reachable L view ok v0 v0"
| step: "reachable L view ok v0 v \<Longrightarrow> ok v \<Longrightarrow> service_step L view v v' \<Longrightarrow> reachable L view ok v0 v'"

lemma invariant_rule:
  assumes "reachable L view ok v0 v" "P v0"
    and "\<And>v v'. P v \<Longrightarrow> ok v \<Longrightarrow> service_step L view v v' \<Longrightarrow> P v'"
  shows "P v"
  using assms(1) by induction (use assms(2,3) in blast)+

definition service_start :: "'s hbtd \<Rightarrow> 's service" where
  "service_start s = \<lparr>sv_proc = s, sv_checks = [], sv_blocked = [], sv_beats = [], sv_new = [], sv_turn = None,
     sv_patches = [], sv_stores = 0\<rparr>"

inductive_cases own_stepE: "own_step L v v'"
inductive_cases service_stepE: "service_step L view v v'"

section \<open>What a step notifies\<close>

text \<open>At most \<open>m\<close> known changes have been notified.\<close>

definition notified :: "nat \<Rightarrow> notify \<Rightarrow> notify \<Rightarrow> bool" where
  "notified m n n' \<longleftrightarrow> (\<exists>ns. n' = notify_all ns n \<and> length ns \<le> m \<and> (\<forall>(h, st) \<in> set ns. change_of st \<noteq> None))"

lemma notified_refl: "notified m n n"
  unfolding notified_def by (intro exI [of _ "[]"]) (simp add: notify_all_def)

lemma notified_started: "maybe_started n n' \<Longrightarrow> notified 1 n n'"
  unfolding maybe_started_def
proof (elim disjE exE)
  fix h assume "n' = hb_update_notify h HB_started n"
  then show ?thesis
    unfolding notified_def by (intro exI [of _ "[(h, HB_started)]"]) (simp add: notify_all_def)
qed (simp add: notified_refl)

lemma notify_all_telemetry:
  "length (nt_telemetry n) \<le> telemetryQ_cap \<Longrightarrow> length (nt_telemetry (notify_all ns n)) \<le> telemetryQ_cap"
  by (induction ns arbitrary: n) (simp_all add: notify_all_def notify_telemetry_bound split: prod.splits)

lemma notify_all_sender_ok:
  "sender_ok cp (nt_maps n) (nt_seq n) \<Longrightarrow> unat (nt_seq n) + length ns < 2 ^ 64 \<Longrightarrow>
   \<forall>(h, st) \<in> set ns. change_of st \<noteq> None \<Longrightarrow>
   sender_ok cp (nt_maps (notify_all ns n)) (nt_seq (notify_all ns n))"
proof (induction ns arbitrary: n)
  case (Cons a ns)
  obtain h st where a: "a = (h, st)" by (cases a)
  obtain c where c: "change_of st = Some c" using Cons.prems(3) by (auto simp: a)
  have nz: "nt_seq n + 1 \<noteq> 0" "unat (nt_seq n + 1) = unat (nt_seq n) + 1"
    using next_seq_nz [of "nt_seq n"] Cons.prems(2) by auto
  have "sender_ok cp (nt_maps (notify_all ns (hb_update_notify h st n)))
      (nt_seq (notify_all ns (hb_update_notify h st n)))"
    using Cons.prems(2,3) sender_ok_notify [OF Cons.prems(1) nz(1) c, of h] nz(2)
    by (intro Cons.IH) simp_all
  then show ?case by (simp add: notify_all_def a)
qed (simp add: notify_all_def)

lemma notified_bound:
  "notified m n n' \<Longrightarrow> length (nt_telemetry n) \<le> telemetryQ_cap \<Longrightarrow> length (nt_telemetry n') \<le> telemetryQ_cap"
  by (auto simp: notified_def notify_all_telemetry)

lemma notified_sender_ok:
  assumes "notified m n n'" "sender_ok cp (nt_maps n) (nt_seq n)" "unat (nt_seq n) + m < 2 ^ 64"
  shows "sender_ok cp (nt_maps n') (nt_seq n')"
proof -
  obtain ns where ns: "n' = notify_all ns n" "length ns \<le> m" "\<forall>(h, st) \<in> set ns. change_of st \<noteq> None"
    using assms(1) by (auto simp: notified_def)
  then have "unat (nt_seq n) + length ns < 2 ^ 64" using assms(3) by simp
  from notify_all_sender_ok [OF assms(2) this ns(3)] show ?thesis by (simp add: ns(1))
qed

section \<open>What the parts of a heartbeat and of a check do\<close>

text \<open>
  A heartbeat that was read keeps its component's name, up to invalid UTF-8, if the check looks
  at it.
\<close>

definition beat_good :: "string \<Rightarrow> bool \<times> hbinfo \<Rightarrow> bool" where
  "beat_good x rd \<longleftrightarrow>
     (HB_KEYRANGE_START \<le> x \<and> x \<le> HB_KEYRANGE_END \<longrightarrow> sanitize (Component (snd rd)) = sanitize x)"

definition scan_good :: "scan \<Rightarrow> bool" where
  "scan_good sc \<longleftrightarrow> (\<forall>(k, v) \<in> set (sc_update sc). \<exists>h. good_rec k v h)"

definition todo_good :: "(string \<times> string) list \<Rightarrow> bool" where
  "todo_good kvl \<longleftrightarrow> (\<forall>(k, v) \<in> set kvl. \<exists>h. stored_rec k v h)"

context kvi_store
begin

lemma updateHB_read_beat_good:
  assumes "stored_ok (view (kvs s))" "updateHB_read K e x w s = (Inr rd, s')"
  shows "view (kvs s') = view (kvs s) \<and> beat_good x rd"
proof -
  obtain kval kok kerr kv1 where get: "kv_get K x (kvs s) = ((kval, kok, kerr), kv1)"
    by (metis prod.exhaust)
  have v1: "view kv1 = view (kvs s)" using get_view [of x "kvs s"] get by simp
  have "sanitize (Component (snd rd)) = sanitize x" if rng: "HB_KEYRANGE_START \<le> x \<and> x \<le> HB_KEYRANGE_END"
  proof (cases "\<not> kok \<or> kerr \<noteq> None")
    case False
    then have v: "view (kvs s) x = Some kval" using get_ok [of x "kvs s" kval kok kv1] get by simp
    then obtain h where "stored_rec x kval h" using assms(1) rng by (auto simp: stored_ok_def)
    then show ?thesis using assms(2) get False by (auto simp: updateHB_read_def stored_rec_def complete_def)
  qed (use assms(2) get in \<open>auto simp: updateHB_read_def\<close>)
  then show ?thesis using assms get v1 by (auto simp: updateHB_read_def beat_good_def Let_def split: prod.splits if_splits)
qed

lemma updateHB_write_stored:
  assumes "stored_ok (view (kvs s))" "beat_good x rd" "updateHB_write K clk e x ts st rd w s = (res, s')"
  shows "stored_ok (view (kvs s'))"
proof -
  let ?hb = "beat (clk (tick s)) ts st (snd rd)"
  obtain js where js: "hbinfo_marshal ?hb = Some js" "complete js (sane ?hb)"
    using hbinfo_marshal_complete by blast
  obtain e' kv2 where st: "kv_store K x js (kvs s) = (e', kv2)" by (metis prod.exhaust)
  have kv: "kvs s' = kv2"
    using assms(3) js(1) st by (auto simp: updateHB_write_def read_clock_def Let_def split: prod.splits if_splits)
  show ?thesis
  proof (cases "HB_KEYRANGE_START \<le> x \<and> x \<le> HB_KEYRANGE_END")
    case True
    then have "stored_rec x js (sane ?hb)" using js(2) assms(2) by (simp add: beat_good_def stored_rec_def)
    then show ?thesis
      using store_view [OF st] by (intro stored_ok_upd [OF assms(1), of _ x]) (auto simp: kv)
  next
    case False
    then show ?thesis using store_view [OF st] assms(1) by (auto simp: kv stored_ok_def split: if_splits)
  qed
qed

lemma checker_open_good:
  assumes "stored_ok (view (kvs s))" "checker_open K s = (Some kvl, s')"
  shows "view (kvs s') = view (kvs s) \<and> todo_good kvl"
  using checker_open_some [OF assms(2)] assms(1) by (fastforce simp: stored_ok_def todo_good_def)

lemma check_apply_stored:
  assumes "stored_ok (view (kvs s))" "scan_good sc" "check_apply K sc s = Some (sc', s')"
  shows "stored_ok (view (kvs s')) \<and> scan_good sc'"
  using assms(3)
proof (cases rule: check_apply_cases)
  case (delete k ks)
  obtain e kv where d: "kv_delete K k (kvs s) = (e, kv)" by (metis prod.exhaust)
  have "stored_ok (view kv)"
    by (rule stored_ok_upd [OF assms(1), of _ k]) (use delete_view [OF d] in auto)
  then show ?thesis using delete d assms(2) by (simp add: scan_good_def)
next
  case (update u us)
  obtain e kv where d: "kv_store K (fst u) (snd u) (kvs s) = (e, kv)" by (metis prod.exhaust)
  have "\<exists>h. stored_rec (fst u) (snd u) h"
    using assms(2) update good_rec_stored by (fastforce simp: scan_good_def)
  then have "stored_ok (view kv)"
    by (intro stored_ok_upd [OF assms(1), of _ "fst u"]) (use store_view [OF d] in auto)
  then show ?thesis using update d assms(2) by (simp add: scan_good_def)
qed

end

text \<open>One record: at most one notification, and an update under the record's own key.\<close>

lemma noted_one: "length (noted h vd) \<le> 1"
  by (simp add: noted_def split: option.splits)

lemma check_one_good_scan:
  assumes "stored_rec k v h" "scan_good sc" "check_one clk (k, v) (sc, s) = (sc', s')"
  shows "scan_good sc' \<and> notified 1 (notif s) (notif s')"
proof (cases "k = KV_PARAM_KEY")
  case False
  define vd where "vd = verdict (app_params s) (staleKeys s) (clk (tick s)) (clk (tick s + 1)) h"
  have "complete v h" using assms(1) by (simp add: stored_rec_def)
  note r = check_one_complete [OF this False vd_def [symmetric] assms(3)]
  have "good_rec (Component h) (the (hbinfo_marshal h')) h'" if "fst vd = Some h'" "snd vd \<noteq> None" for h'
    using verdict_kept [OF stored_rec_good [OF assms(1)] vd_def that(1)] that(2) by (simp split: if_splits)
  then have "scan_good sc'" using assms(2) by (auto simp: scan_good_def r(2))
  moreover have "\<forall>(h', st) \<in> set (noted h vd). change_of st \<noteq> None"
    using noted_changes [of _ _ h] unfolding vd_def by blast
  ultimately show ?thesis
    unfolding notified_def r(4) using noted_one by (intro conjI exI [of _ "noted h vd"]) simp_all
qed (use assms in \<open>simp add: check_one_def notified_refl\<close>)

section \<open>The invariant of the service\<close>

text \<open>The checks that are armed, running or waiting.\<close>

definition checks_alive :: "'s service \<Rightarrow> nat" where
  "checks_alive v = length (timers (sv_proc v)) + length (sv_checks v) + length (sv_blocked v)"

text \<open>What the threads hold in their hands: good records, and lists that have not been sent.\<close>

definition held_good :: "'s service \<Rightarrow> bool" where
  "held_good v \<longleftrightarrow> (\<forall>c \<in> set (sv_checks v). todo_good (ck_todo c) \<and> scan_good (ck_scan c)) \<and>
     (\<forall>b \<in> set (sv_beats v). beat_good (br_comp b) (br_read b)) \<and>
     (\<forall>bsi c. sv_turn v = Some bsi \<longrightarrow> needSend (bsi c) = False \<and> sentOK (bsi c) = False)"

definition service_inv :: "('s \<Rightarrow> string \<rightharpoonup> string) \<Rightarrow> 's service \<Rightarrow> bool" where
  "service_inv view v \<longleftrightarrow> stored_ok (view (kvs (sv_proc v))) \<and> held_good v \<and> checks_alive v \<le> 1 \<and>
     length (hsm_q (sv_proc v)) \<le> hsmUpdateQ_cap \<and>
     length (nt_telemetry (notif (sv_proc v))) \<le> telemetryQ_cap"

lemma check_resume_simps [simp]:
  "kvs (check_resume sc s) = kvs s" "notif (check_resume sc s) = notif s"
  "sm_local (check_resume sc s) = sm_local s" "hsm_q (check_resume sc s) = hsm_q s @ [HSMQ_NEW]"
  "app_params (check_resume sc s) = app_params s"
  "timers (check_resume sc s) = timers s @ (if 0 < int_param (check_interval (app_params s))
      then [int64 (int_param (check_interval (app_params s)) * 1000000000)] else [])"
  by (simp_all add: check_resume_def)

lemma checker_end_blocked:
  assumes "checker_end K sc s = (s', False)"
  shows "notif s' = notif s" "sm_local s' = sm_local s" "timers s' = timers s" "hsm_q s' = hsm_q s"
    "app_params s' = app_params s"
  using assms by (auto simp: checker_end_def Let_def split: if_splits)

lemma checker_end_room: "checker_end K sc s = (s', True) \<Longrightarrow> length (hsm_q s) < hsmUpdateQ_cap"
  by (auto simp: checker_end_def Let_def split: if_splits)

lemma telemetry_round_bound: "telemetry_round p h (q, out) = Some (q', out') \<Longrightarrow> length q' \<le> length q"
  by (auto simp: telemetry_round_def split: if_splits list.splits)

lemma length_removed: "x \<in> set xs \<Longrightarrow> Suc (length (remove1 x xs)) = length xs"
  by (induction xs) auto

text \<open>
  Every step arms, starts or ends at most the check it is about; while the interval is positive,
  a check that ends arms the next one.
\<close>

lemma own_step_checks_alive:
  assumes "own_step L v v'"
  shows "checks_alive v' \<le> checks_alive v \<and>
    (0 < int_param (check_interval (app_params (sv_proc v))) \<longrightarrow> checks_alive v' = checks_alive v)"
  using assms
proof cases
  case (request tag url r w s')
  then show ?thesis
    using serve_control [of "sv_proc v" L tag url r] by (simp add: checks_alive_def same_control_def)
next
  case (beat_reads tag r x ts st rd s')
  then show ?thesis
    using updateHB_read_control [OF beat_reads(3)] by (simp add: checks_alive_def same_control_def)
next
  case (beat_writes b w new s')
  then show ?thesis
    using updateHB_write_control [OF beat_writes(3)] by (simp add: checks_alive_def same_control_def)
next
  case (beat_notifies hb)
  then show ?thesis
    using updateHB_notify_control(1) [of "sv_proc v" "Some hb"] by (simp add: checks_alive_def same_control_def)
next
  case (patch_sets q)
  then show ?thesis
    using params_set_simps(6) [of "sv_proc v" q] by (simp add: checks_alive_def same_control_def)
next
  case (patch_stores w s')
  then show ?thesis
    using params_store_control [OF patch_stores(3)] by (simp add: checks_alive_def same_control_def)
next
  case (check_fails t s')
  then show ?thesis
    using checker_open_frame [OF check_fails(3)] length_removed [OF check_fails(2)]
    by (simp add: checks_alive_def)
next
  case (check_begins t kvl s')
  then show ?thesis
    using checker_open_frame [OF check_begins(3)] length_removed [OF check_begins(2)]
    by (simp add: checks_alive_def)
next
  case (check_record c kv kvl sc s')
  then show ?thesis
    using check_one_frame(2) [of "lb_clk L" kv "(ck_scan c, sv_proc v)"] length_removed [OF check_record(2)]
    by (simp add: checks_alive_def)
next
  case (check_applies c sc s')
  have "timers s' = timers (sv_proc v)" using check_applies(4) by (cases rule: check_apply_cases) simp_all
  then show ?thesis using check_applies(1) length_removed [OF check_applies(2)] by (simp add: checks_alive_def)
next
  case (check_ends c s')
  then show ?thesis
    using checker_end_simps(8) [OF check_ends(4)] length_removed [OF check_ends(2)]
    by (simp add: checks_alive_def)
next
  case (check_blocks c s')
  then show ?thesis
    using checker_end_blocked(3) [OF check_blocks(4)] length_removed [OF check_blocks(2)]
    by (simp add: checks_alive_def)
next
  case (check_resumes sc)
  then show ?thesis using length_removed [OF check_resumes(2)] by (simp add: checks_alive_def)
qed (simp_all add: checks_alive_def)

lemma step_checks_alive:
  assumes "service_step L view v v'"
  shows "checks_alive v' \<le> checks_alive v \<and>
    (0 < int_param (check_interval (app_params (sv_proc v))) \<longrightarrow> checks_alive v' = checks_alive v)"
  using assms
proof cases
  case own
  then show ?thesis by (rule own_step_checks_alive)
qed (simp add: checks_alive_def)

text \<open>What every step keeps of the store and of what the threads hold.\<close>

lemma held_proc [simp]: "held_good (v\<lparr>sv_proc := s\<rparr>) = held_good v"
  by (simp add: held_good_def)

lemma held_check:
  "held_good v \<Longrightarrow> todo_good kvl \<Longrightarrow> scan_good sc \<Longrightarrow>
   held_good (v\<lparr>sv_proc := s, sv_checks := \<lparr>ck_todo = kvl, ck_scan = sc\<rparr> # remove1 c (sv_checks v)\<rparr>)"
  by (auto simp: held_good_def dest: notin_set_remove1)

lemma held_check_end:
  "held_good v \<Longrightarrow> held_good (v\<lparr>sv_proc := s, sv_checks := remove1 c (sv_checks v)\<rparr>)"
  by (auto simp: held_good_def dest: notin_set_remove1)

lemma held_more [simp]:
  "held_good (v\<lparr>sv_blocked := x\<rparr>) = held_good v" "held_good (v\<lparr>sv_new := y\<rparr>) = held_good v"
  "held_good (v\<lparr>sv_patches := z\<rparr>) = held_good v" "held_good (v\<lparr>sv_stores := n\<rparr>) = held_good v"
  by (simp_all add: held_good_def)

lemma own_step_store:
  assumes L: "kvi_store (lb_kv L) view" and wf: "stored_ok (view (kvs (sv_proc v)))" and hg: "held_good v"
    and st: "own_step L v v'"
  shows "stored_ok (view (kvs (sv_proc v'))) \<and> held_good v'"
  using st
proof cases
  case (request tag url r w s')
  then show ?thesis using serve_stored [OF L wf, of tag url r] hg by simp
next
  case (beat_reads tag r x ts st rd s')
  then show ?thesis
    using kvi_store.updateHB_read_beat_good [OF L wf beat_reads(3)] wf hg by (simp add: held_good_def)
next
  case (beat_writes b w new s')
  have "beat_good (br_comp b) (br_read b)" using hg beat_writes(2) by (simp add: held_good_def)
  moreover have "held_good (v\<lparr>sv_proc := s', sv_beats := remove1 b (sv_beats v)\<rparr>)"
    using hg by (auto simp: held_good_def dest: notin_set_remove1)
  ultimately show ?thesis
    using kvi_store.updateHB_write_stored [OF L wf _ beat_writes(3)] beat_writes(1) by simp
next
  case (beat_notifies hb)
  then show ?thesis using wf hg by simp
next
  case (patch_sets q)
  then show ?thesis using wf hg by simp
next
  case (patch_stores w s')
  then show ?thesis
    using kvi_store.params_store_stored [OF L wf, of new_response] hg by simp
next
  case (check_fails t s')
  have "checker_begin (lb_kv L) (lb_clk L) ((sv_proc v)\<lparr>timers := remove1 t (timers (sv_proc v))\<rparr>) = (None, s')"
    using check_fails(3) by (simp add: checker_begin_open)
  then show ?thesis
    using kvi_store.checker_begin_none_view [OF L] wf hg check_fails(1) by fastforce
next
  case (check_begins t kvl s')
  have "scan_good init_scan" by (simp add: scan_good_def init_scan_def)
  then show ?thesis
    using kvi_store.checker_open_good [OF L _ check_begins(3)] wf hg check_begins(1)
    by (simp add: held_good_def)
next
  case (check_record c kv kvl sc s')
  obtain k vl where kv: "kv = (k, vl)" by (cases kv)
  have c: "todo_good ((k, vl) # kvl)" "scan_good (ck_scan c)"
    using hg check_record(2,3) kv unfolding held_good_def by auto
  then obtain h where "stored_rec k vl h" by (auto simp: todo_good_def)
  from check_one_good_scan [OF this c(2) check_record(4) [unfolded kv]] c(1)
  have "scan_good sc" "todo_good kvl" by (simp_all add: todo_good_def)
  moreover have "kvs s' = kvs (sv_proc v)"
    using check_one_frame(4) [of "lb_clk L" kv "(ck_scan c, sv_proc v)"] check_record(4) by simp
  ultimately show ?thesis using check_record(1) held_check [OF hg] wf by simp
next
  case (check_applies c sc s')
  have "scan_good (ck_scan c)" using hg check_applies(2) by (simp add: held_good_def)
  from kvi_store.check_apply_stored [OF L wf this check_applies(4)]
  show ?thesis using check_applies(1) held_check [OF hg] by (simp add: todo_good_def)
next
  case (check_ends c s')
  have "scan_good (ck_scan c)" using hg check_ends(2) by (simp add: held_good_def)
  then show ?thesis
    using kvi_store.checker_end_stored [OF L wf _ check_ends(4)] check_ends(1) held_check_end [OF hg]
    by (simp add: scan_good_def)
next
  case (check_blocks c s')
  have "scan_good (ck_scan c)" using hg check_blocks(2) by (simp add: held_good_def)
  then show ?thesis
    using kvi_store.checker_end_stored [OF L wf _ check_blocks(4)] check_blocks(1) held_check_end [OF hg]
    by (simp add: scan_good_def)
next
  case (turn_begins q qs bsi cp g)
  then show ?thesis using wf hg sm_take_flags [OF turn_begins(5)] by (simp add: held_good_def)
next
  case (turn_ends bsi hsm cp bsi')
  then show ?thesis using wf hg by (simp add: held_good_def)
qed (use wf hg in simp_all)

lemma step_store:
  assumes L: "kvi_store (lb_kv L) view" and wf: "stored_ok (view (kvs (sv_proc v)))" and hg: "held_good v"
    and st: "service_step L view v v'"
  shows "stored_ok (view (kvs (sv_proc v'))) \<and> held_good v'"
  using st
proof cases
  case own
  then show ?thesis by (rule own_step_store [OF L wf hg])
qed (use hg in simp)

text \<open>What a step does to the notifications: at most one more, or a taken or sent message.\<close>

lemma own_step_notifies:
  assumes inv: "held_good v" and st: "own_step L v v'"
  shows "notified 1 (notif (sv_proc v)) (notif (sv_proc v')) \<and> sm_local (sv_proc v') = sm_local (sv_proc v) \<or>
    nt_seq (notif (sv_proc v')) = nt_seq (notif (sv_proc v)) \<and>
    length (nt_telemetry (notif (sv_proc v'))) \<le> length (nt_telemetry (notif (sv_proc v))) \<and>
    (\<forall>s. sender_ok (sm_local (sv_proc v)) (nt_maps (notif (sv_proc v))) s \<longrightarrow>
      sender_ok (sm_local (sv_proc v')) (nt_maps (notif (sv_proc v'))) s)"
  using st
proof cases
  case (request tag url r w s')
  then show ?thesis
    using serve_control [of "sv_proc v" L tag url r] notified_started by (fastforce simp: same_control_def)
next
  case (beat_reads tag r x ts st rd s')
  then show ?thesis
    using updateHB_read_control [OF beat_reads(3)] by (simp add: notified_refl same_control_def)
next
  case (beat_writes b w new s')
  then show ?thesis
    using updateHB_write_control [OF beat_writes(3)] by (simp add: notified_refl same_control_def)
next
  case (beat_notifies hb)
  then show ?thesis
    using updateHB_notify_control(1,2) [of "sv_proc v" "Some hb"] notified_started
    by (simp add: same_control_def)
next
  case (patch_sets q)
  then show ?thesis
    using params_set_simps(6) [of "sv_proc v" q] by (simp add: notified_refl same_control_def)
next
  case (patch_stores w s')
  then show ?thesis
    using params_store_control [OF patch_stores(3)] by (simp add: notified_refl same_control_def)
next
  case (check_fails t s')
  then show ?thesis using checker_open_frame [OF check_fails(3)] by (simp add: notified_refl)
next
  case (check_begins t kvl s')
  then show ?thesis using checker_open_frame [OF check_begins(3)] by (simp add: notified_refl)
next
  case (check_record c kv kvl sc s')
  obtain k vl where kv: "kv = (k, vl)" by (cases kv)
  have c: "todo_good ((k, vl) # kvl)" "scan_good (ck_scan c)"
    using inv check_record(2,3) kv unfolding held_good_def by auto
  then obtain h where "stored_rec k vl h" by (auto simp: todo_good_def)
  from check_one_good_scan [OF this c(2) check_record(4) [unfolded kv]] check_record(1)
    check_one_frame(5) [of "lb_clk L" kv "(ck_scan c, sv_proc v)"] check_record(4)
  show ?thesis by simp
next
  case (check_applies c sc s')
  have "notif s' = notif (sv_proc v) \<and> sm_local s' = sm_local (sv_proc v)"
    using check_applies(4) by (cases rule: check_apply_cases) simp_all
  then show ?thesis using check_applies(1) by (simp add: notified_refl)
next
  case (check_ends c s')
  then show ?thesis using checker_end_simps(1,4) [OF check_ends(4)] by (simp add: notified_refl)
next
  case (check_blocks c s')
  then show ?thesis using checker_end_blocked(1,2) [OF check_blocks(4)] by (simp add: notified_refl)
next
  case (turn_begins q qs bsi cp g)
  then show ?thesis using sm_take_merged [OF turn_begins(5)] by (simp add: sender_ok_def)
next
  case (turn_ends bsi hsm cp bsi')
  have "sender_ok cp (nt_maps (notif (sv_proc v))) s"
    if "sender_ok (sm_local (sv_proc v)) (nt_maps (notif (sv_proc v))) s" for s
    by (rule sm_answer_sender_ok [OF turn_ends(3) that]) (use inv turn_ends(2) in \<open>simp add: held_good_def\<close>)
  then show ?thesis using turn_ends(1) by simp
next
  case (telemetry p h out q out')
  then show ?thesis using telemetry_round_bound [OF telemetry(2)] by simp
qed (simp_all add: notified_refl)

lemma step_notifies:
  assumes inv: "held_good v" and st: "service_step L view v v'"
  shows "notified 1 (notif (sv_proc v)) (notif (sv_proc v')) \<and> sm_local (sv_proc v') = sm_local (sv_proc v) \<or>
    nt_seq (notif (sv_proc v')) = nt_seq (notif (sv_proc v)) \<and>
    length (nt_telemetry (notif (sv_proc v'))) \<le> length (nt_telemetry (notif (sv_proc v))) \<and>
    (\<forall>s. sender_ok (sm_local (sv_proc v)) (nt_maps (notif (sv_proc v))) s \<longrightarrow>
      sender_ok (sm_local (sv_proc v')) (nt_maps (notif (sv_proc v'))) s)"
  using st
proof cases
  case own
  then show ?thesis by (rule own_step_notifies [OF inv])
qed (simp add: notified_refl)

text \<open>The queues stay within their capacities.\<close>

lemma own_step_queue:
  assumes st: "own_step L v v'" and q: "length (hsm_q (sv_proc v)) \<le> hsmUpdateQ_cap"
  shows "length (hsm_q (sv_proc v')) \<le> hsmUpdateQ_cap"
  using st
proof cases
  case (request tag url r w s')
  then show ?thesis using serve_control [of "sv_proc v" L tag url r] q by (simp add: same_control_def)
next
  case (beat_reads tag r x ts st rd s')
  then show ?thesis using updateHB_read_control [OF beat_reads(3)] q by (simp add: same_control_def)
next
  case (beat_writes b w new s')
  then show ?thesis using updateHB_write_control [OF beat_writes(3)] q by (simp add: same_control_def)
next
  case (beat_notifies hb)
  then show ?thesis
    using updateHB_notify_control(1) [of "sv_proc v" "Some hb"] q by (simp add: same_control_def)
next
  case (patch_sets q)
  then show ?thesis using params_set_simps(6) [of "sv_proc v" q] q by (simp add: same_control_def)
next
  case (patch_stores w s')
  then show ?thesis using params_store_control [OF patch_stores(3)] q by (simp add: same_control_def)
next
  case (check_fails x s')
  then show ?thesis using checker_open_frame [OF check_fails(3)] q by simp
next
  case (check_begins x kvl s')
  then show ?thesis using checker_open_frame [OF check_begins(3)] q by simp
next
  case (check_record c kv kvl sc s')
  then show ?thesis using check_one_frame(3) [of "lb_clk L" kv "(ck_scan c, sv_proc v)"] q by simp
next
  case (check_applies c sc s')
  have "hsm_q s' = hsm_q (sv_proc v)" using check_applies(4) by (cases rule: check_apply_cases) simp_all
  then show ?thesis using check_applies(1) q by simp
next
  case (check_ends c s')
  then show ?thesis using checker_end_simps(6) [OF check_ends(4)] checker_end_room [OF check_ends(4)] by simp
next
  case (check_blocks c s')
  then show ?thesis using checker_end_blocked(4) [OF check_blocks(4)] q by simp
qed (use q in simp_all)

lemma step_queue:
  assumes st: "service_step L view v v'" and q: "length (hsm_q (sv_proc v)) \<le> hsmUpdateQ_cap"
  shows "length (hsm_q (sv_proc v')) \<le> hsmUpdateQ_cap"
  using st
proof cases
  case own
  then show ?thesis by (rule own_step_queue [OF _ q])
qed (use q in simp)

lemma service_inv_step:
  assumes "kvi_store (lb_kv L) view" "service_inv view v" "service_step L view v v'"
  shows "service_inv view v'"
proof -
  have i: "stored_ok (view (kvs (sv_proc v)))" "held_good v" using assms(2) by (simp_all add: service_inv_def)
  have "length (nt_telemetry (notif (sv_proc v'))) \<le> telemetryQ_cap"
    using step_notifies [OF i(2) assms(3)] notified_bound assms(2) by (fastforce simp: service_inv_def)
  then show ?thesis
    using step_store [OF assms(1) i assms(3)] step_queue [OF assms(3)] step_checks_alive [OF assms(3)] assms(2)
    by (simp add: service_inv_def)
qed

lemma service_inv_start:
  assumes "kvi_store K view" "stored_ok (view kv)"
    and "main_start K getenv fl hsmReady opens rnd kv = Serving s key"
  shows "service_inv view (service_start s)"
  using main_start_result [OF assms(1,3)] sub_range_stored [OF assms(2)]
  by (simp add: service_inv_def service_start_def held_good_def checks_alive_def init_notify_def)

section \<open>The numbers of the changes\<close>

text \<open>
  The counter has room for one more notification; the maps hold the numbers as \<open>send_sm_req\<close>
  expects them.
\<close>

definition seq_left :: "'s service \<Rightarrow> bool" where
  "seq_left v \<longleftrightarrow> unat (nt_seq (notif (sv_proc v))) + 1 < 2 ^ 64"

definition seq_numbers_ok :: "'s service \<Rightarrow> bool" where
  "seq_numbers_ok v \<longleftrightarrow> sender_ok (sm_local (sv_proc v)) (nt_maps (notif (sv_proc v))) (nt_seq (notif (sv_proc v)))"

lemma seq_numbers_ok_step:
  assumes "held_good v" "seq_numbers_ok v" "seq_left v" "service_step L view v v'"
  shows "seq_numbers_ok v'"
  using step_notifies [OF assms(1,4)]
proof (elim disjE conjE)
  assume n: "notified 1 (notif (sv_proc v)) (notif (sv_proc v'))" "sm_local (sv_proc v') = sm_local (sv_proc v)"
  show ?thesis
    unfolding seq_numbers_ok_def n(2)
    by (rule notified_sender_ok [OF n(1)]) (use assms(2,3) in \<open>simp_all add: seq_numbers_ok_def seq_left_def\<close>)
qed (use assms(2) in \<open>simp add: seq_numbers_ok_def\<close>)

lemma seq_numbers_ok_start:
  assumes "kvi_store K view" "stored_ok (view kv)"
    and "main_start K getenv fl hsmReady opens rnd kv = Serving s key"
  shows "seq_numbers_ok (service_start s)"
  using main_start_result [OF assms(1,3)] by (simp add: seq_numbers_ok_def service_start_def init_notify_def)

section \<open>Properties\<close>

lemma service_inv_reachable:
  assumes "kvi_store (lb_kv L) view" "stored_ok (view kv)"
    and "main_start (lb_kv L) getenv fl hsmReady opens rnd kv = Serving s key"
    and "reachable L view ok (service_start s) v"
  shows "service_inv view v"
  using assms(4)
proof (rule invariant_rule [where P = "service_inv view"])
  show "service_inv view (service_start s)" by (rule service_inv_start [OF assms(1-3)])
qed (rule service_inv_step [OF assms(1)])

text \<open>
  C7: The invariant of the running service. Whatever requests, checks, sender turns and telemetry
  rounds do, interleaved at every access to the store, the change maps and the queues, with any
  failures of the store, and with other instances whose writes keep the same form: the record under a
  tracked key is complete and names the component of the key (for a key that is not valid UTF-8,
  what JSON makes of it), at most one check is armed, running or waiting, and neither queue exceeds
  its capacity. A heartbeat may come with any name, valid UTF-8 or not.
\<close>

theorem service_invariant:
  assumes "kvi_store (lb_kv L) view" "stored_ok (view kv)"
    and "main_start (lb_kv L) getenv fl hsmReady opens rnd kv = Serving s key"
    and "reachable L view (\<lambda>v. True) (service_start s) v"
  shows "stored_ok (view (kvs (sv_proc v))) \<and>
    length (timers (sv_proc v)) + length (sv_checks v) + length (sv_blocked v) \<le> 1 \<and>
    length (hsm_q (sv_proc v)) \<le> hsmUpdateQ_cap \<and>
    length (nt_telemetry (notif (sv_proc v))) \<le> telemetryQ_cap"
  using service_inv_reachable [OF assms] by (simp add: service_inv_def checks_alive_def)

text \<open>A run in which a heartbeat is served.\<close>

lemma sample_run:
  assumes "ok (service_start s)"
  shows "\<exists>s'. reachable (sample_lib (\<lambda>n. 100)) mem_view ok (service_start s) (service_start s') \<and>
    s' = snd (serve (sample_lib (\<lambda>n. 100)) False (\<lambda>u. u) (sample_xname_request ''x0'') s)"
proof -
  let ?L = "sample_lib (\<lambda>n. 100)" and ?r = "sample_xname_request ''x0''"
  obtain w s' where sv: "serve ?L False (\<lambda>u. u) ?r s = (w, s')" by (metis prod.exhaust)
  from service_step.own [OF own_step.request [where v = "service_start s", of ?L False "\<lambda>u. u" ?r w s']] sv
  have "service_step ?L mem_view (service_start s) (service_start s')"
    by (simp add: service_start_def)
  with reachable.step [of ?L mem_view ok "service_start s", OF reachable.start assms] sv
  show ?thesis by auto
qed

lemma sample_started:
  "\<exists>s. main_start (lb_kv (sample_lib clk)) (\<lambda>x. []) sample_flags (\<lambda>n. True) (\<lambda>ix. True) 7 gm_empty =
      Serving s (createInstanceKey 7) \<and> 0 < int_param (check_interval (app_params s)) \<and> seq_left (service_start s)"
proof -
  obtain s where s: "main_start mem_kvi (\<lambda>x. []) sample_flags (\<lambda>n. True) (\<lambda>ix. True) 7 gm_empty =
      Serving s (createInstanceKey 7)" "int_param (check_interval (app_params s)) = 7"
    using sample_main_start by blast
  have "nt_seq (notif s) = 0"
    using main_start_result [OF mem.kvi_store_axioms s(1)] by (simp add: init_notify_def)
  then show ?thesis
    using s by (intro exI [of _ s]) (simp add: seq_left_def service_start_def)
qed

theorem service_invariant_witness:
  "\<exists>s s'. s' = snd (serve (sample_lib (\<lambda>n. 100)) False (\<lambda>u. u) (sample_xname_request ''x0'') s) \<and>
    stored_ok (mem_view (kvs s')) \<and> length (timers s') \<le> 1"
proof -
  obtain s where s: "main_start (lb_kv (sample_lib (\<lambda>n. 100))) (\<lambda>x. []) sample_flags (\<lambda>n. True) (\<lambda>ix. True) 7
      gm_empty = Serving s (createInstanceKey 7)" using sample_started by blast
  obtain s' where r: "reachable (sample_lib (\<lambda>n. 100)) mem_view (\<lambda>v. True) (service_start s) (service_start s')"
      "s' = snd (serve (sample_lib (\<lambda>n. 100)) False (\<lambda>u. u) (sample_xname_request ''x0'') s)"
    using sample_run [of "\<lambda>v. True" s] by blast
  from service_invariant [OF sample_store_ok s r(1)] r(2) show ?thesis
    by (auto simp: service_start_def)
qed

text \<open>
  C10: A change does not get stuck while notifications come one at a time. The condition is not
  enforced by the code: a notification increments the counter and writes the map entry in two
  steps without a lock, and two that overlap can leave a component with no newest change. When each
  notification is one step, and as long as the sequence counter has room for one more, a component
  with an entry in any map of changes, global or local to the sender, has exactly one kind of
  change to send in the next turn, the one whose number is above those of all other kinds, also
  when changes are notified while a turn waits for its answers.
\<close>

theorem changes_stay_sendable:
  assumes "kvi_store (lb_kv L) view" "stored_ok (view kv)"
    and "main_start (lb_kv L) getenv fl hsmReady opens rnd kv = Serving s key"
    and "reachable L view (seq_left) (service_start s) v"
  shows "((\<exists>c. pending_in (sv_proc v) x = Some c) \<longleftrightarrow>
      (\<exists>c. gm_get (sm_local (sv_proc v) c) x \<noteq> 0 \<or> gm_get (nt_maps (notif (sv_proc v)) c) x \<noteq> 0)) \<and>
    (\<forall>c. pending_in (sv_proc v) x = Some c \<longleftrightarrow>
      (\<forall>d. d \<noteq> c \<longrightarrow> merged (sm_local (sv_proc v)) (nt_maps (notif (sv_proc v))) x d <
        merged (sm_local (sv_proc v)) (nt_maps (notif (sv_proc v))) x c))"
proof -
  have "service_inv view v \<and> seq_numbers_ok v"
    using assms(4)
  proof (rule invariant_rule [where P = "\<lambda>v. service_inv view v \<and> seq_numbers_ok v"])
    show "service_inv view (service_start s) \<and> seq_numbers_ok (service_start s)"
      using service_inv_start [OF assms(1-3)] seq_numbers_ok_start [OF assms(1-3)] by blast
  next
    fix u u'
    assume u: "service_inv view u \<and> seq_numbers_ok u" "seq_left u" "service_step L view u u'"
    then have "held_good u" by (simp add: service_inv_def)
    then show "service_inv view u' \<and> seq_numbers_ok u'"
      using u service_inv_step [OF assms(1)] seq_numbers_ok_step by blast
  qed
  then have "seq_ok (merged (sm_local (sv_proc v)) (nt_maps (notif (sv_proc v))) x) (nt_seq (notif (sv_proc v)))"
    by (simp add: seq_numbers_ok_def sender_ok_def)
  note none = winner_None [OF this]
  have "pending_in (sv_proc v) x = Some c \<longleftrightarrow>
      (\<forall>d. d \<noteq> c \<longrightarrow> merged (sm_local (sv_proc v)) (nt_maps (notif (sv_proc v))) x d <
        merged (sm_local (sv_proc v)) (nt_maps (notif (sv_proc v))) x c)" for c
    by (simp add: pending_in_def pending_def winner_iff)
  moreover have "(\<exists>c. pending_in (sv_proc v) x = Some c) \<longleftrightarrow>
      (\<exists>c. gm_get (sm_local (sv_proc v) c) x \<noteq> 0 \<or> gm_get (nt_maps (notif (sv_proc v)) c) x \<noteq> 0)"
    using none by (auto simp: pending_in_def pending_def merged_def split: if_splits)
  ultimately show ?thesis by blast
qed

theorem changes_stay_sendable_witness:
  "\<exists>s s'. s' = snd (serve (sample_lib (\<lambda>n. 100)) False (\<lambda>u. u) (sample_xname_request ''x0'') s) \<and>
    (pending_in s' ''x0'' = None \<longrightarrow> gm_get (nt_maps (notif s') Started) ''x0'' = 0)"
proof -
  obtain s where s: "main_start (lb_kv (sample_lib (\<lambda>n. 100))) (\<lambda>x. []) sample_flags (\<lambda>n. True) (\<lambda>ix. True) 7
      gm_empty = Serving s (createInstanceKey 7)" "seq_left (service_start s)"
    using sample_started by blast
  obtain s' where r: "reachable (sample_lib (\<lambda>n. 100)) mem_view (seq_left) (service_start s) (service_start s')"
      "s' = snd (serve (sample_lib (\<lambda>n. 100)) False (\<lambda>u. u) (sample_xname_request ''x0'') s)"
    using sample_run [of "seq_left" s, OF s(2)] by blast
  have p: "sv_proc (service_start s') = s'" by (simp add: service_start_def)
  note c = changes_stay_sendable [OF sample_store_ok s(1) r(1), of "''x0''", unfolded p]
  have "gm_get (nt_maps (notif s') Started) ''x0'' = 0" if none: "pending_in s' ''x0'' = None"
  proof (rule ccontr)
    assume "gm_get (nt_maps (notif s') Started) ''x0'' \<noteq> 0"
    with c have "\<exists>c. pending_in s' ''x0'' = Some c" by blast
    with none show False by simp
  qed
  then show ?thesis by (intro exI [of _ s] exI [of _ s'] conjI impI r(2))
qed

text \<open>
  C11: Monitoring goes on. As long as the check interval stays positive, exactly one check is
  armed, running or waiting for the queue, whatever fails and whatever runs in between.
\<close>

theorem one_check_alive:
  assumes "kvi_store (lb_kv L) view" "stored_ok (view kv)"
    and "main_start (lb_kv L) getenv fl hsmReady opens rnd kv = Serving s key"
    and "0 < int_param (check_interval (app_params s))"
    and "reachable L view (\<lambda>v. 0 < int_param (check_interval (app_params (sv_proc v)))) (service_start s) v"
  shows "length (timers (sv_proc v)) + length (sv_checks v) + length (sv_blocked v) = 1"
proof -
  have "checks_alive v = 1"
    using assms(5)
  proof (rule invariant_rule [where P = "\<lambda>v. checks_alive v = 1"])
    show "checks_alive (service_start s) = 1"
      using main_start_result [OF assms(1,3)] assms(4) by (simp add: checks_alive_def service_start_def)
  qed (use step_checks_alive in fastforce)
  then show ?thesis by (simp add: checks_alive_def)
qed

theorem one_check_alive_witness:
  "\<exists>s s'. s' = snd (serve (sample_lib (\<lambda>n. 100)) False (\<lambda>u. u) (sample_xname_request ''x0'') s) \<and>
    length (timers s') = 1"
proof -
  obtain s where s: "main_start (lb_kv (sample_lib (\<lambda>n. 100))) (\<lambda>x. []) sample_flags (\<lambda>n. True) (\<lambda>ix. True) 7
      gm_empty = Serving s (createInstanceKey 7)" "0 < int_param (check_interval (app_params s))"
    using sample_started by blast
  let ?ok = "\<lambda>v :: mem service. 0 < int_param (check_interval (app_params (sv_proc v)))"
  have "?ok (service_start s)" using s(2) by (simp add: service_start_def)
  from sample_run [of ?ok s, OF this]
  obtain s' where r: "reachable (sample_lib (\<lambda>n. 100)) mem_view ?ok (service_start s) (service_start s')"
      "s' = snd (serve (sample_lib (\<lambda>n. 100)) False (\<lambda>u. u) (sample_xname_request ''x0'') s)" by blast
  from one_check_alive [OF sample_store_ok s r(1)] have "length (timers s') = 1"
    by (simp add: service_start_def)
  with r(2) show ?thesis by blast
qed

text \<open>
  C37: Monitoring that has stopped stays stopped. Once no check is armed, running or waiting,
  which is how the service starts with an interval of 0 and what a PATCH of the interval to 0
  leads to, none is ever armed again, also when the interval has become positive by a PATCH.
\<close>

theorem checks_stop_for_good:
  assumes "timers (sv_proc v0) = []" "sv_checks v0 = []" "sv_blocked v0 = []"
    and "reachable L view (\<lambda>v. True) v0 v"
  shows "timers (sv_proc v) = [] \<and> sv_checks v = [] \<and> sv_blocked v = []"
proof -
  have "checks_alive v = 0"
    using assms(4)
  proof (rule invariant_rule [where P = "\<lambda>v. checks_alive v = 0"])
    show "checks_alive v0 = 0" using assms(1-3) by (simp add: checks_alive_def)
  qed (use step_checks_alive in fastforce)
  then show ?thesis by (simp add: checks_alive_def)
qed

text \<open>A PATCH of the interval.\<close>

definition interval_patch :: "string \<Rightarrow> request" where
  "interval_patch v =
     \<lparr>rq_method = ''PATCH'', rq_body = render (fields_json [(''Interval'', v)]),
      rq_read_error = False, rq_xname = [], rq_path = URL_PARAMS\<rparr>"

lemma interval_patch_routed:
  "serve L False url (interval_patch v) s = paramsIO (lb_kv L) (interval_patch v) new_response s"
  "request_component L False (interval_patch v) = None"
proof -
  have x: "one_segment ''x0''" by (simp add: one_segment_def)
  have "(URL_PARAMS, [(''GET'', H_paramsIO), (''PATCH'', H_paramsIO)], [], [''POST'']) \<in> set (api ''x0'')"
    unfolding api_def set_simps by blast
  from api_dispatched [OF x this, of False "''PATCH''"]
  show "serve L False url (interval_patch v) s = paramsIO (lb_kv L) (interval_patch v) new_response s"
    "request_component L False (interval_patch v) = None"
    by (simp_all add: dispatched_def serve_def request_component_def request_beat_def handler_beat_def
        interval_patch_def)
qed

lemma interval_patch_decoded:
  assumes "uint32_ok v" "ascii v"
  shows "unmarshal_strings (inidata_fields no_inidata) (rq_body (interval_patch v)) =
      (inidata_fields (no_inidata\<lparr>Interval := v\<rparr>), True)"
    and "inidata_of (inidata_fields (no_inidata\<lparr>Interval := v\<rparr>)) = no_inidata\<lparr>Interval := v\<rparr>"
    and "acceptable PARAM_PATCH (no_inidata\<lparr>Interval := v\<rparr>)"
proof -
  show "unmarshal_strings (inidata_fields no_inidata) (rq_body (interval_patch v)) =
      (inidata_fields (no_inidata\<lparr>Interval := v\<rparr>), True)"
    using unmarshal_members [of "[(''Interval'', v)]" "inidata_fields no_inidata"] assms(2)
    by (simp add: interval_patch_def inidata_fields_def no_inidata_def ascii_def)
  show "inidata_of (inidata_fields (no_inidata\<lparr>Interval := v\<rparr>)) = no_inidata\<lparr>Interval := v\<rparr>"
    by (simp add: inidata_of_def inidata_fields_def no_inidata_def field_def)
  show "acceptable PARAM_PATCH (no_inidata\<lparr>Interval := v\<rparr>)"
    using assms(1) by (simp add: acceptable_def no_inidata_def)
qed

lemma interval_patch_effect:
  assumes "kvi_reliable (lb_kv L) view" "uint32_ok v" "ascii v" "v \<noteq> []"
  shows "\<exists>w s'. serve L False url (interval_patch v) s = (w, s') \<and>
     rw_status w = Some 200 \<and> int_param (check_interval (app_params s')) = uint32_val v"
proof -
  let ?jd = "no_inidata\<lparr>Interval := v\<rparr>" and ?r = "interval_patch v"
  note dec = interval_patch_decoded [OF assms(2,3)]
  have rq: "rq_method ?r = ''PATCH''" "\<not> rq_read_error ?r" by (simp_all add: interval_patch_def)
  obtain w s' where p: "paramsIO (lb_kv L) ?r new_response s = (w, s')" by (metis prod.exhaust)
  have "rw_status w = Some 200 \<and> app_params s' = patched ?jd (app_params s)"
    using patch_params_result [OF assms(1) rq dec(1) p, unfolded dec(2)] dec(3) by simp
  moreover have "int_param (check_interval (patched ?jd q)) = uint32_val v" for q
    using assms(4) by (simp add: patched_def new_int_def)
  ultimately show ?thesis using p by (simp add: interval_patch_routed)
qed

lemma one_digit:
  "uint32_ok ''5'' \<and> uint32_val ''5'' = 5 \<and> ascii ''5''" "uint32_ok ''0'' \<and> uint32_val ''0'' = 0 \<and> ascii ''0''"
  by (simp_all add: uint32_ok_def uint32_val_def parse_uint_def base_prefix_def Let_def digit_val_def ascii_def)

text \<open>A service that no longer checks.\<close>

definition stopped_sample :: "mem hbtd" where
  "stopped_sample = (sample_state gm_empty)
     \<lparr>app_params := initAppParams\<lparr>check_interval := int_app ''interval'' 0\<rparr>\<rparr>"

theorem checks_stop_for_good_witness:
  "\<exists>w s'. serve (sample_lib (\<lambda>n. 100)) False (\<lambda>u. u) (interval_patch ''5'') stopped_sample = (w, s') \<and>
    rw_status w = Some 200 \<and> int_param (check_interval (app_params s')) = 5 \<and> timers s' = []"
proof -
  let ?L = "sample_lib (\<lambda>n. 100)" and ?v0 = "service_start stopped_sample"
  obtain w s' where sv: "serve ?L False (\<lambda>u. u) (interval_patch ''5'') stopped_sample = (w, s')"
      "rw_status w = Some 200" "int_param (check_interval (app_params s')) = 5"
    using interval_patch_effect [of ?L mem_view "''5''" "\<lambda>u. u" stopped_sample] mem.kvi_reliable_axioms one_digit(1)
    by (auto simp: sample_lib_kv)
  from service_step.own [OF own_step.request [where v = ?v0, of ?L False "\<lambda>u. u" "interval_patch ''5''" w s']] sv(1)
  have st: "service_step ?L mem_view ?v0 (service_start s')" by (simp add: service_start_def)
  have "timers (sv_proc ?v0) = []" "sv_checks ?v0 = []" "sv_blocked ?v0 = []"
    by (simp_all add: service_start_def stopped_sample_def sample_state_def)
  from checks_stop_for_good [OF this, of ?L mem_view "service_start s'"]
    reachable.step [of ?L mem_view "\<lambda>v. True" ?v0, OF reachable.start TrueI st]
  show ?thesis using sv by (simp add: service_start_def)
qed

end
