(* ===== verification/Atomicity.thy ===== *)
theory Atomicity
  imports Service
begin

text \<open>
  The operations as the component theories state them, from beginning to end with nothing in
  between, are runs of the interleaved service: what is proved of \<open>hb_checker\<close>, \<open>send_sm_req\<close> and
  \<open>updateHB\<close> is proved of behaviours the service has.
\<close>

section \<open>Whole operations\<close>

inductive whole_step :: "'s lib \<Rightarrow> 's service \<Rightarrow> 's service \<Rightarrow> bool" for L where
  whole_check: "t \<in> set (timers (sv_proc v)) \<Longrightarrow>
    hb_checker (lb_kv L) (lb_clk L) ((sv_proc v)\<lparr>timers := remove1 t (timers (sv_proc v))\<rparr>) = (s', True) \<Longrightarrow>
    whole_step L v (v\<lparr>sv_proc := s'\<rparr>)"
| whole_turn: "sv_turn v = None \<Longrightarrow> hsm_q (sv_proc v) = q # qs \<Longrightarrow>
    send_sm_req hsm False (app_params (sv_proc v)) (hsm_ready (sv_proc v)) q (sm_local (sv_proc v))
      (nt_maps (notif (sv_proc v))) = Turned rd \<Longrightarrow>
    whole_step L v (v\<lparr>sv_proc := (sv_proc v)\<lparr>hsm_q := qs, sm_local := rd_local rd,
      notif := (notif (sv_proc v))\<lparr>nt_maps := rd_global rd\<rparr>\<rparr>\<rparr>)"
| whole_beat: "request_beat L tag r = Some (x, ts, st) \<Longrightarrow>
    updateHB (lb_kv L) (lb_clk L) URL_HEARTBEAT x ts st new_response (sv_proc v) = (w, s') \<Longrightarrow>
    whole_step L v (v\<lparr>sv_proc := s'\<rparr>)"
| whole_patch: "request_patch tag r \<Longrightarrow> serve L tag url r (sv_proc v) = (w, s') \<Longrightarrow>
    whole_step L v (v\<lparr>sv_proc := s'\<rparr>)"

section \<open>Their runs\<close>

lemma run_step: "own_step L v v' \<Longrightarrow> (own_step L)\<^sup>*\<^sup>* v' v'' \<Longrightarrow> (own_step L)\<^sup>*\<^sup>* v v''"
  by (rule converse_rtranclp_into_rtranclp)

text \<open>The loop over the records, one step each.\<close>

lemma records_run:
  "check_all (lb_clk L) kvl (sc, s) = (sc', s') \<Longrightarrow>
   (own_step L)\<^sup>*\<^sup>* (v\<lparr>sv_proc := s, sv_checks := \<lparr>ck_todo = kvl, ck_scan = sc\<rparr> # cs\<rparr>)
     (v\<lparr>sv_proc := s', sv_checks := \<lparr>ck_todo = [], ck_scan = sc'\<rparr> # cs\<rparr>)"
proof (induction kvl arbitrary: sc s)
  case (Cons kv kvl)
  obtain sc1 s1 where one: "check_one (lb_clk L) kv (sc, s) = (sc1, s1)" by (metis prod.exhaust)
  let ?c = "\<lparr>ck_todo = kv # kvl, ck_scan = sc\<rparr>"
  let ?v = "v\<lparr>sv_proc := s, sv_checks := ?c # cs\<rparr>"
  have "own_step L ?v (?v\<lparr>sv_proc := s1, sv_checks := \<lparr>ck_todo = kvl, ck_scan = sc1\<rparr> #
      remove1 ?c (sv_checks ?v)\<rparr>)"
    by (rule own_step.check_record [where kv = kv]) (use one in simp_all)
  moreover have "check_all (lb_clk L) kvl (sc1, s1) = (sc', s')"
    using Cons.prems one by (simp add: check_all_def)
  note Cons.IH [OF this]
  ultimately show ?case by (auto intro: run_step)
qed (simp add: check_all_def)

lemma service_same [simp]: "v\<lparr>sv_proc := s, sv_checks := sv_checks v\<rparr> = v\<lparr>sv_proc := s\<rparr>"
  by (cases v) simp

lemma check_run:
  assumes t: "t \<in> set (timers (sv_proc v))"
    and ck: "hb_checker (lb_kv L) (lb_clk L) ((sv_proc v)\<lparr>timers := remove1 t (timers (sv_proc v))\<rparr>) = (s', True)"
  shows "(own_step L)\<^sup>*\<^sup>* v (v\<lparr>sv_proc := s'\<rparr>)"
proof -
  let ?s = "(sv_proc v)\<lparr>timers := remove1 t (timers (sv_proc v))\<rparr>"
  obtain kvlo s1 where op: "checker_open (lb_kv L) ?s = (kvlo, s1)" by (metis prod.exhaust)
  show ?thesis
  proof (cases kvlo)
    case None
    then have "s' = s1" using ck op by (simp add: hb_checker_def checker_begin_def)
    then show ?thesis using own_step.check_fails [OF t, of L s'] op None by auto
  next
    case (Some kvl)
    obtain sc s2 where all: "check_all (lb_clk L) kvl (init_scan, s1) = (sc, s2)" by (metis prod.exhaust)
    have fin: "checker_end (lb_kv L) sc s2 = (s', True)"
      using ck op Some all by (simp add: hb_checker_def checker_begin_def)
    let ?v1 = "v\<lparr>sv_proc := s1, sv_checks := \<lparr>ck_todo = kvl, ck_scan = init_scan\<rparr> # sv_checks v\<rparr>"
    let ?c = "\<lparr>ck_todo = [], ck_scan = sc\<rparr>"
    let ?v2 = "v\<lparr>sv_proc := s2, sv_checks := ?c # sv_checks v\<rparr>"
    have b: "own_step L v ?v1"
      using own_step.check_begins [OF t, of L kvl s1] op Some by simp
    have "own_step L ?v2 (?v2\<lparr>sv_proc := s', sv_checks := remove1 ?c (sv_checks ?v2)\<rparr>)"
      by (rule own_step.check_ends) (use fin in simp_all)
    then have e: "own_step L ?v2 (v\<lparr>sv_proc := s'\<rparr>)" by simp
    have "(own_step L)\<^sup>*\<^sup>* ?v1 (v\<lparr>sv_proc := s'\<rparr>)"
      by (rule rtranclp.rtrancl_into_rtrancl [OF records_run [OF all] e])
    with b show ?thesis by (rule run_step)
  qed
qed

lemma turn_run:
  assumes tn: "sv_turn v = None" and q: "hsm_q (sv_proc v) = q # qs"
    and rd: "send_sm_req hsm False (app_params (sv_proc v)) (hsm_ready (sv_proc v)) q (sm_local (sv_proc v))
      (nt_maps (notif (sv_proc v))) = Turned rd"
  shows "(own_step L)\<^sup>*\<^sup>* v (v\<lparr>sv_proc := (sv_proc v)\<lparr>hsm_q := qs, sm_local := rd_local rd,
      notif := (notif (sv_proc v))\<lparr>nt_maps := rd_global rd\<rparr>\<rparr>\<rparr>)"
proof -
  have die: "q \<noteq> HSMQ_DIE" and rnd: "send_sm_round hsm False (app_params (sv_proc v)) (hsm_ready (sv_proc v))
      (sm_local (sv_proc v)) (nt_maps (notif (sv_proc v))) = Some rd"
    using rd by (auto simp: send_sm_req_def split: if_splits option.splits)
  obtain bsi cp where tk: "sm_take (sm_local (sv_proc v)) (nt_maps (notif (sv_proc v))) = (bsi, cp, rd_global rd)"
    and an: "sm_answer hsm False (app_params (sv_proc v)) (hsm_ready (sv_proc v)) bsi cp = Some (rd_local rd, rd_bsi rd)"
    by (rule send_sm_round_parts [OF rnd])
  let ?v1 = "v\<lparr>sv_proc := (sv_proc v)\<lparr>hsm_q := qs, sm_local := cp,
      notif := (notif (sv_proc v))\<lparr>nt_maps := rd_global rd\<rparr>\<rparr>, sv_turn := Some bsi\<rparr>"
  have b: "own_step L v ?v1" by (rule own_step.turn_begins [OF tn q die tk])
  have "sm_answer hsm False (app_params (sv_proc ?v1)) (hsm_ready (sv_proc ?v1)) bsi (sm_local (sv_proc ?v1)) =
      Some (rd_local rd, rd_bsi rd)" using an by simp
  from own_step.turn_ends [OF _ this, of L]
  have e: "own_step L ?v1 (?v1\<lparr>sv_proc := (sv_proc ?v1)\<lparr>sm_local := rd_local rd\<rparr>, sv_turn := None\<rparr>)" by simp
  have "?v1\<lparr>sv_proc := (sv_proc ?v1)\<lparr>sm_local := rd_local rd\<rparr>, sv_turn := None\<rparr> =
      v\<lparr>sv_proc := (sv_proc v)\<lparr>hsm_q := qs, sm_local := rd_local rd,
        notif := (notif (sv_proc v))\<lparr>nt_maps := rd_global rd\<rparr>\<rparr>\<rparr>"
    using tn by (cases v) simp
  from run_step [OF b r_into_rtranclp [of "own_step L", OF e [unfolded this]]] show ?thesis .
qed

text \<open>A request that carries a heartbeat is served by \<open>updateHB\<close>.\<close>

lemma serve_beat:
  "request_beat L tag r = Some (x, ts, st) \<Longrightarrow>
   serve L tag url r s = updateHB (lb_kv L) (lb_clk L) URL_HEARTBEAT x ts st new_response s"
  by (auto simp: request_beat_def handler_beat_def serve_def hbRcv_parsed hbRcvXName_parsed
      split: routing.splits handler.splits)

lemma beat_run:
  assumes rb: "request_beat L tag r = Some (x, ts, st)"
    and up: "updateHB (lb_kv L) (lb_clk L) URL_HEARTBEAT x ts st new_response (sv_proc v) = (w, s')"
  shows "(own_step L)\<^sup>*\<^sup>* v (v\<lparr>sv_proc := s'\<rparr>)"
proof -
  obtain res s1 where rd: "updateHB_read (lb_kv L) URL_HEARTBEAT x new_response (sv_proc v) = (res, s1)"
    by (metis prod.exhaust)
  show ?thesis
  proof (cases res)
    case (Inl w')
    have "serve L tag (\<lambda>u. u) r (sv_proc v) = (w, s')" using up by (simp add: serve_beat [OF rb])
    from own_step.request [OF this] show ?thesis by (rule r_into_rtranclp)
  next
    case (Inr hb)
    let ?b = "\<lparr>br_comp = x, br_time = ts, br_status = st, br_read = hb\<rparr>"
    let ?v1 = "v\<lparr>sv_proc := s1, sv_beats := ?b # sv_beats v\<rparr>"
    obtain w' new s2 where wr: "updateHB_write (lb_kv L) (lb_clk L) URL_HEARTBEAT x ts st hb new_response s1 = ((w', new), s2)"
      by (metis prod.exhaust)
    have s': "s' = updateHB_notify new s2" using up rd Inr wr by (simp add: updateHB_def)
    have one: "own_step L v ?v1" by (rule own_step.beat_reads [OF rb rd [unfolded Inr]])
    have "own_step L ?v1 (?v1\<lparr>sv_proc := s2, sv_beats := remove1 ?b (sv_beats ?v1),
        sv_new := (case new of None \<Rightarrow> sv_new ?v1 | Some hb \<Rightarrow> hb # sv_new ?v1)\<rparr>)"
      by (rule own_step.beat_writes) (use wr in simp_all)
    moreover have "?v1\<lparr>sv_proc := s2, sv_beats := remove1 ?b (sv_beats ?v1),
        sv_new := (case new of None \<Rightarrow> sv_new ?v1 | Some hb \<Rightarrow> hb # sv_new ?v1)\<rparr> =
        v\<lparr>sv_proc := s2, sv_new := (case new of None \<Rightarrow> sv_new v | Some hb \<Rightarrow> hb # sv_new v)\<rparr>"
      by (cases v; cases new) simp_all
    ultimately have two: "own_step L ?v1
        (v\<lparr>sv_proc := s2, sv_new := (case new of None \<Rightarrow> sv_new v | Some hb \<Rightarrow> hb # sv_new v)\<rparr>)" by simp
    show ?thesis
    proof (cases new)
      case None
      then have "v\<lparr>sv_proc := s2, sv_new := (case new of None \<Rightarrow> sv_new v | Some hb \<Rightarrow> hb # sv_new v)\<rparr> =
          v\<lparr>sv_proc := s'\<rparr>" by (cases v) (simp add: s' updateHB_notify_def)
      with one two show ?thesis by (metis r_into_rtranclp run_step)
    next
      case (Some h)
      let ?v2 = "v\<lparr>sv_proc := s2, sv_new := h # sv_new v\<rparr>"
      have "own_step L ?v2 (?v2\<lparr>sv_proc := updateHB_notify (Some h) (sv_proc ?v2),
          sv_new := remove1 h (sv_new ?v2)\<rparr>)" by (rule own_step.beat_notifies) simp
      moreover have "?v2\<lparr>sv_proc := updateHB_notify (Some h) (sv_proc ?v2), sv_new := remove1 h (sv_new ?v2)\<rparr> =
          v\<lparr>sv_proc := s'\<rparr>" by (cases v) (simp add: s' Some)
      ultimately have "own_step L ?v2 (v\<lparr>sv_proc := s'\<rparr>)" by simp
      with one two Some show ?thesis by (metis option.case(2) r_into_rtranclp run_step)
    qed
  qed
qed

text \<open>A PATCH is served by \<open>paramsIO\<close>.\<close>

lemma serve_patch:
  assumes "request_patch tag r"
  shows "serve L tag url r s = (case params_read r new_response (app_params s) of
      Inl w \<Rightarrow> (w, s) | Inr q \<Rightarrow> params_store (lb_kv L) new_response (params_set q s))"
proof -
  have "params_read (r\<lparr>rq_xname := x\<rparr>) w p = params_read r w p" for x w p by (simp add: params_read_def)
  then show ?thesis
    using assms by (auto simp: request_patch_def serve_def paramsIO_def split: routing.splits)
qed

lemma service_kept [simp]:
  "v\<lparr>sv_proc := s, sv_patches := sv_patches v, sv_stores := sv_stores v\<rparr> = v\<lparr>sv_proc := s\<rparr>"
  by (cases v) simp

lemma patch_sets_stores:
  assumes "params_store (lb_kv L) new_response (params_set q (sv_proc v)) = (w, s')"
  shows "(own_step L)\<^sup>*\<^sup>* (v\<lparr>sv_patches := q # sv_patches v\<rparr>) (v\<lparr>sv_proc := s'\<rparr>)"
proof -
  let ?v1 = "v\<lparr>sv_patches := q # sv_patches v\<rparr>"
  let ?v2 = "v\<lparr>sv_proc := params_set q (sv_proc v), sv_stores := Suc (sv_stores v)\<rparr>"
  have "own_step L ?v1 (?v1\<lparr>sv_proc := params_set q (sv_proc ?v1), sv_patches := remove1 q (sv_patches ?v1),
      sv_stores := Suc (sv_stores ?v1)\<rparr>)" by (rule own_step.patch_sets) simp
  moreover have "?v1\<lparr>sv_proc := params_set q (sv_proc ?v1), sv_patches := remove1 q (sv_patches ?v1),
      sv_stores := Suc (sv_stores ?v1)\<rparr> = ?v2" by (cases v) simp
  ultimately have one: "own_step L ?v1 ?v2" by simp
  have "own_step L ?v2 (?v2\<lparr>sv_proc := s', sv_stores := sv_stores ?v2 - 1\<rparr>)"
    by (rule own_step.patch_stores) (use assms in simp_all)
  moreover have "?v2\<lparr>sv_proc := s', sv_stores := sv_stores ?v2 - 1\<rparr> = v\<lparr>sv_proc := s'\<rparr>" by (cases v) simp
  ultimately have two: "own_step L ?v2 (v\<lparr>sv_proc := s'\<rparr>)" by simp
  show ?thesis by (rule run_step [OF one r_into_rtranclp [of "own_step L", OF two]])
qed

lemma patch_run:
  assumes pa: "request_patch tag r" and sv: "serve L tag url r (sv_proc v) = (w, s')"
  shows "(own_step L)\<^sup>*\<^sup>* v (v\<lparr>sv_proc := s'\<rparr>)"
proof (cases "params_read r new_response (app_params (sv_proc v))")
  case (Inl w')
  then have "s' = sv_proc v" using sv by (simp add: serve_patch [OF pa])
  then show ?thesis by simp
next
  case (Inr q)
  then have "params_store (lb_kv L) new_response (params_set q (sv_proc v)) = (w, s')"
    using sv by (simp add: serve_patch [OF pa])
  from run_step [OF own_step.patch_reads [OF pa Inr] patch_sets_stores [OF this]] show ?thesis .
qed

section \<open>Whole operations are runs\<close>

text \<open>
  The whole operations are behaviours of the interleaved service. A check from its timer to its
  end, a turn of the sender with its answers, a heartbeat and a PATCH of the parameters, each as its
  own component's theory describes it with nothing in between, can be run by the threads of the
  service one access to the shared state after the other.
\<close>

theorem whole_step_is_run:
  assumes "whole_step L v v'"
  shows "(own_step L)\<^sup>*\<^sup>* v v'"
  using assms
proof cases
  case (whole_check t s')
  then show ?thesis using check_run by simp
next
  case (whole_turn q qs hsm rd)
  then show ?thesis using turn_run by simp
next
  case (whole_beat tag r x ts st w s')
  then show ?thesis using beat_run by simp
next
  case (whole_patch tag r url w s')
  then show ?thesis using patch_run by simp
qed

theorem whole_step_is_run_witness:
  "\<exists>s'. hb_checker mem_kvi (\<lambda>n. 200) (sample_store HB_WARN_NONE) = (s', True) \<and> mem_view (kvs s') ''x0'' = None \<and>
    (own_step (sample_lib (\<lambda>n. 200)))\<^sup>*\<^sup>*
      (service_start ((sample_store HB_WARN_NONE)\<lparr>timers := [5]\<rparr>)) (service_start s')"
proof -
  let ?s = "sample_store HB_WARN_NONE" and ?L = "sample_lib (\<lambda>n. 200)"
  let ?v = "service_start (?s\<lparr>timers := [5]\<rparr>)"
  obtain s' where p: "clean_pass mem_kvi mem_view (\<lambda>n. 200) ?s s'"
    using sample_pass by (metis ascii_warnings(1))
  have ck: "hb_checker mem_kvi (\<lambda>n. 200) ?s = (s', True)" using p by (simp add: clean_pass_def)
  have e: "(sv_proc ?v)\<lparr>timers := remove1 5 (timers (sv_proc ?v))\<rparr> = ?s"
    by (simp add: service_start_def sample_store_def sample_state_def)
  have "whole_step ?L ?v (?v\<lparr>sv_proc := s'\<rparr>)"
    by (rule whole_step.whole_check [of 5], unfold e) (simp_all add: ck service_start_def sample_lib_def)
  moreover have "?v\<lparr>sv_proc := s'\<rparr> = service_start s'" by (simp add: service_start_def)
  ultimately have "whole_step ?L ?v (service_start s')" by simp
  from whole_step_is_run [OF this]
  have "(own_step ?L)\<^sup>*\<^sup>* ?v (service_start s')" .
  moreover have "mem_view (kvs s') ''x0'' = None"
    using dead_removed [OF p sample_in_range _ sample_good [OF ascii_warnings(1)]]
    by (simp add: sample_view sample_overdue clock_ok_def sample_int64)
  ultimately show ?thesis using ck by blast
qed

end
