(* ===== verification/Patches.thy ===== *)
theory Patches
  imports Atomicity
begin

text \<open>
  PATCH requests of the parameters that overlap: \<open>parse_parm_json\<close> copies all parameters at its
  start and assigns the whole copy at its end, without a lock.
\<close>

lemma params_read_result:
  assumes "\<not> rq_read_error r" "unmarshal_strings (inidata_fields no_inidata) (rq_body r) = (fs, True)"
    and "acceptable PARAM_PATCH (inidata_of fs)"
  shows "params_read r w p = Inr (patched (inidata_of fs) p)"
proof -
  have "parse_parm_json p [] (rq_body r) PARAM_PATCH [] = (0, patched (inidata_of fs) p, string_param (port p), [])"
    by (rule parse_parm_json_decoded(1) [OF assms(2,3)])
  then have "parm_values p (rq_body r) PARAM_PATCH [] = (0, patched (inidata_of fs) p, [])"
    by (auto simp: parse_parm_json_def parm_commit_def split: prod.splits if_splits)
  then show ?thesis using assms(1) by (simp add: params_read_def)
qed

lemma params_store_reliable:
  assumes "kvi_reliable K view"
  obtains w s' js where "params_store K new_response s = (w, s')" "rw_status w = Some 200" "rw_body w = js"
    and "gen_cur_param_json (app_params s) = Some js" "view (kvs s') = (view (kvs s))(KV_PARAM_KEY \<mapsto> js)"
    and "app_params s' = app_params s"
proof -
  obtain js where g: "gen_cur_param_json (app_params s) = Some js"
    by (simp add: gen_cur_param_json_def json_marshal_def)
  obtain e kv where st: "kv_store K KV_PARAM_KEY js (kvs s) = (e, kv)" by (metis prod.exhaust)
  have "e = None" "view kv = (view (kvs s))(KV_PARAM_KEY \<mapsto> js)"
    using kvi_reliable.store_never [OF assms, of KV_PARAM_KEY js "kvs s"]
      kvi_reliable.view_store [OF assms, of KV_PARAM_KEY js "kvs s"] st by simp_all
  with g st show ?thesis
    by (intro that [of "write_body js (write_header 200 new_response)" "s\<lparr>kvs := kv\<rparr>" js])
      (simp_all add: params_store_def write_body_def write_header_def new_response_def)
qed

text \<open>Two reads, then two assignments, then two stores.\<close>

lemma overlapping_run:
  assumes "request_patch tag r1" "params_read r1 new_response (app_params (sv_proc v)) = Inr q1"
    and "request_patch tag r2" "params_read r2 new_response (app_params (sv_proc v)) = Inr q2"
    and "params_store (lb_kv L) new_response (params_set q2 (params_set q1 (sv_proc v))) = (w1, s1)"
    and "params_store (lb_kv L) new_response s1 = (w2, s2)"
  shows "(own_step L)\<^sup>*\<^sup>* v (v\<lparr>sv_proc := s2\<rparr>)"
proof -
  let ?ps = "sv_patches v" and ?n = "sv_stores v"
  let ?A = "v\<lparr>sv_patches := q1 # ?ps\<rparr>" and ?B = "v\<lparr>sv_patches := q2 # q1 # ?ps\<rparr>"
  let ?C = "v\<lparr>sv_proc := params_set q1 (sv_proc v), sv_patches := q2 # ?ps, sv_stores := Suc ?n\<rparr>"
  let ?D = "v\<lparr>sv_proc := params_set q2 (params_set q1 (sv_proc v)), sv_stores := Suc (Suc ?n)\<rparr>"
  let ?E = "v\<lparr>sv_proc := s1, sv_stores := Suc ?n\<rparr>" and ?F = "v\<lparr>sv_proc := s2\<rparr>"
  have va: "own_step L v ?A" by (rule own_step.patch_reads [OF assms(1,2)])
  have ab: "own_step L ?A ?B" using own_step.patch_reads [of tag r2 ?A q2 L] assms(3,4) by simp
  have bc: "own_step L ?B ?C" using own_step.patch_sets [of q1 ?B L] by (cases "q1 = q2") simp_all
  have "?C\<lparr>sv_proc := params_set q2 (sv_proc ?C), sv_patches := remove1 q2 (sv_patches ?C),
      sv_stores := Suc (sv_stores ?C)\<rparr> = ?D" by (cases v) simp
  then have cd: "own_step L ?C ?D" using own_step.patch_sets [of q2 ?C L] by simp
  have de: "own_step L ?D ?E" using own_step.patch_stores [of ?D L w1 s1] assms(5) by simp
  have "?E\<lparr>sv_proc := s2, sv_stores := sv_stores ?E - 1\<rparr> = ?F" by (cases v) simp
  then have ef: "own_step L ?E ?F" using own_step.patch_stores [of ?E L w2 s2] assms(6) by simp
  show ?thesis
    by (rule run_step [OF va run_step [OF ab run_step [OF bc run_step [OF cd run_step [OF de
        r_into_rtranclp [of "own_step L", OF ef]]]]]])
qed

text \<open>
  C39: Overlapping PATCHes are lost. When two PATCH requests have both read the parameters before
  either of them assigns its own, a run of the service in which both are answered 200 ends with the
  parameters of the second alone: those that only the first has named have their old values again,
  in force and in the store, and already the answer to the first shows them so.
\<close>

theorem overlapping_patches_lost:
  assumes "kvi_reliable (lb_kv L) view"
    and "request_patch tag r1" "\<not> rq_read_error r1" "acceptable PARAM_PATCH (inidata_of fs1)"
    and "unmarshal_strings (inidata_fields no_inidata) (rq_body r1) = (fs1, True)"
    and "request_patch tag r2" "\<not> rq_read_error r2" "acceptable PARAM_PATCH (inidata_of fs2)"
    and "unmarshal_strings (inidata_fields no_inidata) (rq_body r2) = (fs2, True)"
    and "p = app_params (sv_proc v)"
  shows "\<exists>q1 q2 w1 w2 s1 s2 js. params_read r1 new_response p = Inr q1 \<and> params_read r2 new_response p = Inr q2 \<and>
    params_store (lb_kv L) new_response (params_set q2 (params_set q1 (sv_proc v))) = (w1, s1) \<and>
    params_store (lb_kv L) new_response s1 = (w2, s2) \<and> (own_step L)\<^sup>*\<^sup>* v (v\<lparr>sv_proc := s2\<rparr>) \<and>
    rw_status w1 = Some 200 \<and> rw_body w1 = js \<and> rw_status w2 = Some 200 \<and> rw_body w2 = js \<and>
    app_params s2 = patched (inidata_of fs2) p \<and> gen_cur_param_json (patched (inidata_of fs2) p) = Some js \<and>
    view (kvs s2) KV_PARAM_KEY = Some js"
proof -
  let ?s = "sv_proc v"
  let ?q1 = "patched (inidata_of fs1) p" and ?q2 = "patched (inidata_of fs2) p"
  note rd1 = params_read_result [OF assms(3,5,4), of new_response p]
  note rd2 = params_read_result [OF assms(7,9,8), of new_response p]
  let ?t = "params_set ?q2 (params_set ?q1 ?s)"
  obtain w1 s1 js where st1: "params_store (lb_kv L) new_response ?t = (w1, s1)" "rw_status w1 = Some 200"
    "rw_body w1 = js" "gen_cur_param_json (app_params ?t) = Some js" "app_params s1 = app_params ?t"
    by (rule params_store_reliable [OF assms(1), of ?t])
  have p1: "app_params s1 = ?q2" and g1: "gen_cur_param_json ?q2 = Some js" using st1(4,5) by simp_all
  obtain w2 s2 js' where st2: "params_store (lb_kv L) new_response s1 = (w2, s2)" "rw_status w2 = Some 200"
    "rw_body w2 = js'" "gen_cur_param_json (app_params s1) = Some js'"
    "view (kvs s2) = (view (kvs s1))(KV_PARAM_KEY \<mapsto> js')" "app_params s2 = app_params s1"
    by (rule params_store_reliable [OF assms(1), of s1])
  have js: "js' = js" using st2(4) g1 p1 by simp
  have "(own_step L)\<^sup>*\<^sup>* v (v\<lparr>sv_proc := s2\<rparr>)"
    by (rule overlapping_run [OF assms(2) _ assms(6) _ st1(1) st2(1)]) (use rd1 rd2 assms(10) in simp_all)
  moreover have "view (kvs s2) KV_PARAM_KEY = Some js" using st2(5) js by simp
  ultimately show ?thesis using rd1 rd2 st1(1-3) st2(1-3,6) g1 p1 js by metis
qed

lemma patch_of_params:
  assumes "rq_method r = ''PATCH''" "rq_path r = URL_PARAMS"
  shows "request_patch False r"
proof -
  have x: "one_segment ''x0''" by (simp add: one_segment_def)
  have "(URL_PARAMS, [(''GET'', H_paramsIO), (''PATCH'', H_paramsIO)], [], [''POST'']) \<in> set (api ''x0'')"
    unfolding api_def set_simps by blast
  from api_dispatched [OF x this, of False "''PATCH''"] show ?thesis
    using assms by (simp add: dispatched_def request_patch_def)
qed

text \<open>An error time of 60 and an interval of 5, patched at the same time: the error time stays 30.\<close>

theorem overlapping_patches_lost_witness:
  "\<exists>w1 w2 s1 s2 q1 q2. let v = service_start (sample_state gm_empty) in
    params_store mem_kvi new_response (params_set q2 (params_set q1 (sv_proc v))) = (w1, s1) \<and>
    params_store mem_kvi new_response s1 = (w2, s2) \<and>
    (own_step (sample_lib (\<lambda>n. 100)))\<^sup>*\<^sup>* v (v\<lparr>sv_proc := s2\<rparr>) \<and>
    int_param (errtime q1) = 60 \<and> rw_status w1 = Some 200 \<and> rw_status w2 = Some 200 \<and>
    int_param (errtime (app_params s2)) = 30"
proof -
  let ?L = "sample_lib (\<lambda>n. 100)" and ?v = "service_start (sample_state gm_empty :: mem hbtd)"
  let ?r1 = patch_sample and ?r2 = "interval_patch ''5''" and ?p = "app_params (sv_proc ?v)"
  let ?j1 = "no_inidata\<lparr>Errtime := ''60''\<rparr>" and ?j2 = "no_inidata\<lparr>Interval := ''5''\<rparr>"
  have K: "lb_kv ?L = mem_kvi" by (simp add: sample_lib_kv)
  have d5: "uint32_ok ''5''" "ascii ''5''" using one_digit(1) by blast+
  have "request_patch False ?r1" "request_patch False ?r2"
    by (rule patch_of_params; simp add: patch_sample_def interval_patch_def)+
  moreover have "\<not> rq_read_error ?r2" by (simp add: interval_patch_def)
  ultimately obtain q1 q2 w1 w2 s1 s2 where r: "params_read ?r1 new_response ?p = Inr q1"
    "params_store mem_kvi new_response (params_set q2 (params_set q1 (sv_proc ?v))) = (w1, s1)"
    "params_store mem_kvi new_response s1 = (w2, s2)" "(own_step ?L)\<^sup>*\<^sup>* ?v (?v\<lparr>sv_proc := s2\<rparr>)"
    "rw_status w1 = Some 200" "rw_status w2 = Some 200" "app_params s2 = patched ?j2 ?p"
    using overlapping_patches_lost [of ?L mem_view False ?r1 "inidata_fields ?j1" ?r2
        "inidata_fields ?j2" ?p ?v, unfolded patch_sample_decoded(2) interval_patch_decoded(2) [OF d5] K,
        OF mem.kvi_reliable_axioms _ patch_sample_request(2) patch_sample_decoded(3,1) _ _
          interval_patch_decoded(3,1) [OF d5] refl] by blast
  have q1: "q1 = patched ?j1 ?p"
    using r(1) params_read_result [OF patch_sample_request(2) patch_sample_decoded(1), of new_response ?p]
    by (simp add: patch_sample_decoded(2,3))
  have e: "int_param (errtime q1) = 60" "int_param (errtime (app_params s2)) = 30"
    unfolding q1 r(7)
    by (rule patch_sample_decoded(4)) (simp add: patched_def new_int_def no_inidata_def service_start_def sample_state_def initAppParams_def int_app_def)
  show ?thesis
    unfolding Let_def by (rule exI conjI r(2,3,4) e r(5,6))+
qed

end
