(* ===== verification/Dist_Lock.thy ===== *)
theory Dist_Lock
  imports Requests
begin

text \<open>
  The lock that several instances share: \<open>DistTimedLock\<close> and \<open>DistUnlock\<close> of the etcd backend
  (vendored \<open>hms-hmetcd\<close>, \<open>kvs_etcd.go\<close>), over any store of keys. The mutex is etcd's
  \<open>concurrency.Mutex\<close>: a key of the session that holds it, with a lease of \<open>tosec\<close> seconds that the
  client keeps renewing. Whoever's key is first owns the mutex. The key goes when it is deleted by
  \<open>Unlock\<close>, when the lease is revoked by \<open>Close\<close>, or when the lease ends: the renewals have failed, or
  both calls have and nobody renews any more. That a lease ends is no action of the backend, which
  does not watch \<open>session.Done\<close>, and is a step of \<open>Cluster\<close>.
\<close>

section \<open>The lock\<close>

text \<open>
  The keys, the instance whose key is first, and the instances whose \<open>cc_session\<close> is not nil.
\<close>

record 's dist =
  lk_base :: 's
  lk_owner :: "nat option"
  cc_session :: "nat \<Rightarrow> bool"

text \<open>What the calls of the etcd client report.\<close>

record etcd_calls =
  ec_grant :: kv_error
  ec_session :: kv_error
  ec_lock :: kv_error
  ec_unlock :: kv_error
  ec_close :: kv_error

text \<open>
  \<open>Lock\<close> waits up to \<open>tosec\<close> seconds for the keys before its own to go; the step is the moment it
  returns.
\<close>

definition mutex_lock :: "etcd_calls \<Rightarrow> nat \<Rightarrow> 's dist \<Rightarrow> kv_error \<times> 's dist" where
  "mutex_lock up i s =
     (if lk_owner s \<noteq> None then (Some ''context deadline exceeded'', s)
      else case ec_lock up of
          None \<Rightarrow> (None, s\<lparr>lk_owner := Some i\<rparr>)
        | Some e \<Rightarrow> (Some e, s))"

text \<open>A call that succeeds removes the key of instance \<open>i\<close>.\<close>

definition key_removed :: "kv_error \<Rightarrow> nat \<Rightarrow> 's dist \<Rightarrow> 's dist" where
  "key_removed err i s = (if err = None \<and> lk_owner s = Some i then s\<lparr>lk_owner := None\<rparr> else s)"

text \<open>The key is that of a session that has not got the lock, or the one that holds it.\<close>

definition session_close :: "etcd_calls \<Rightarrow> bool \<Rightarrow> nat \<Rightarrow> 's dist \<Rightarrow> 's dist" where
  "session_close up got i s =
     (let s1 = (if got then key_removed (ec_close up) i s else s)
      in s1\<lparr>cc_session := (cc_session s1)(i := False)\<rparr>)"

definition DistTimedLock :: "etcd_calls \<Rightarrow> nat \<Rightarrow> int \<Rightarrow> 's dist \<Rightarrow> kv_error \<times> 's dist" where
  "DistTimedLock up i tosec s =
     (if cc_session s i then (Some ''ERROR: distributed lock already held by this process'', s)
      else case ec_grant up of
          Some e \<Rightarrow> (Some e, s)
        | None \<Rightarrow>
            (case ec_session up of
               Some e \<Rightarrow> (Some e, s)
             | None \<Rightarrow>
                 let (err, s1) = mutex_lock up i (s\<lparr>cc_session := (cc_session s)(i := True)\<rparr>)
                 in if err \<noteq> None then (err, session_close up False i s1) else (None, s1)))"

definition DistUnlock :: "etcd_calls \<Rightarrow> nat \<Rightarrow> 's dist \<Rightarrow> kv_error \<times> 's dist" where
  "DistUnlock up i s =
     (if cc_session s i then (ec_unlock up, session_close up True i (key_removed (ec_unlock up) i s))
      else (None, s))"

text \<open>The operations on keys do not touch the lock.\<close>

definition on_base :: "('s \<Rightarrow> 'r \<times> 's) \<Rightarrow> 's dist \<Rightarrow> 'r \<times> 's dist" where
  "on_base f s = (let (res, b) = f (lk_base s) in (res, s\<lparr>lk_base := b\<rparr>))"

definition etcd_kvi :: "etcd_calls \<Rightarrow> nat \<Rightarrow> 's kvi \<Rightarrow> 's dist kvi" where
  "etcd_kvi up i K =
     \<lparr>kv_get = (\<lambda>k. on_base (kv_get K k)), kv_get_range = (\<lambda>a b. on_base (kv_get_range K a b)),
      kv_store = (\<lambda>k v. on_base (kv_store K k v)), kv_delete = (\<lambda>k. on_base (kv_delete K k)),
      kv_timed_lock = DistTimedLock up i, kv_unlock = DistUnlock up i,
      kv_temp_key = (\<lambda>k. on_base (kv_temp_key K k))\<rparr>"

text \<open>Its operations keep what the store promises.\<close>

lemma lock_ops_base [simp]:
  "lk_base (snd (DistTimedLock up i n s)) = lk_base s" "lk_base (snd (DistUnlock up i s)) = lk_base s"
  by (auto simp: DistTimedLock_def DistUnlock_def mutex_lock_def session_close_def key_removed_def Let_def
      split: option.splits)

lemma on_base_result: "on_base f s = (res, s') \<longleftrightarrow> (\<exists>b. f (lk_base s) = (res, b) \<and> s' = s\<lparr>lk_base := b\<rparr>)"
  by (auto simp: on_base_def split: prod.splits)

lemma on_base_snd: "lk_base (snd (on_base f s)) = snd (f (lk_base s))"
  by (simp add: on_base_def split: prod.splits)

context kvi_store
begin

lemma etcd_kvi_store: "kvi_store (etcd_kvi up i K) (\<lambda>s. view (lk_base s))"
proof
  fix a b s kvs s' k v
  assume r: "kv_get_range (etcd_kvi up i K) a b s = ((kvs, None), s')"
  then obtain s1 where g: "kv_get_range K a b (lk_base s) = ((kvs, None), s1)"
    by (auto simp: etcd_kvi_def on_base_result)
  show "distinct (map fst kvs)" by (rule range_distinct [OF g])
  show "range_ok a b \<Longrightarrow> (k, v) \<in> set kvs \<Longrightarrow> view (lk_base s) k = Some v \<and> a \<le> k \<and> k \<le> b"
    by (rule range_sound [OF g])
  show "range_ok a b \<Longrightarrow> view (lk_base s) k = Some v \<Longrightarrow> a \<le> k \<Longrightarrow> k < b \<Longrightarrow> (k, v) \<in> set kvs"
    by (rule range_complete [OF g])
next
  fix k v s e s'
  assume "kv_store (etcd_kvi up i K) k v s = (Some e, s')"
  then show "view (lk_base s') = view (lk_base s) \<or> view (lk_base s') = (view (lk_base s))(k \<mapsto> v)"
    using store_err by (fastforce simp: etcd_kvi_def on_base_result)
next
  fix k s e s'
  assume "kv_delete (etcd_kvi up i K) k s = (Some e, s')"
  then show "view (lk_base s') = view (lk_base s) \<or> view (lk_base s') = (view (lk_base s))(k := None)"
    using delete_err by (fastforce simp: etcd_kvi_def on_base_result)
qed (auto simp: etcd_kvi_def on_base_result on_base_snd dest: get_ok get_err store_ok delete_ok)

end

context kvi_reliable
begin

lemma etcd_kvi_reliable: "kvi_reliable (etcd_kvi up i K) (\<lambda>s. view (lk_base s))"
  using etcd_kvi_store get_never range_never store_never delete_never
  by (simp add: kvi_reliable_def kvi_reliable_axioms_def etcd_kvi_def on_base_def split_beta)

end

interpretation etcd: kvi_reliable "etcd_kvi up i mem_kvi" "\<lambda>s. mem_view (lk_base s)" for up i
  by (rule mem.etcd_kvi_reliable)

section \<open>What handlers leave alone\<close>

text \<open>
  A part of the store that reads and writes of keys do not change; no handler changes it, and a
  check changes it by the lock only.
\<close>

locale kvi_frame =
  fixes K :: "'s kvi" and part :: "'s \<Rightarrow> 'a"
  assumes get_part: "part (snd (kv_get K k s)) = part s"
    and range_part: "part (snd (kv_get_range K a b s)) = part s"
    and store_part: "part (snd (kv_store K k v s)) = part s"
    and delete_part: "part (snd (kv_delete K k s)) = part s"
begin

lemmas ops_part [simp] = get_part range_part store_part delete_part

lemma updateHB_read_part: "part (kvs (snd (updateHB_read K e x w s))) = part (kvs s)"
  by (simp add: updateHB_read_def Let_def split_beta)

lemma updateHB_write_part: "part (kvs (snd (updateHB_write K clk e x ts st rd w s))) = part (kvs s)"
  by (simp add: updateHB_write_def read_clock_def Let_def split_beta split: option.split)

lemma updateHB_part: "part (kvs (snd (updateHB K clk e x ts st w s))) = part (kvs s)"
  using updateHB_read_part [of e x w s] updateHB_write_part
  by (auto simp: updateHB_def split: prod.split sum.split) (metis snd_conv)

lemma isHeartbeating_part: "part (kvs (snd (isHeartbeating K x now e s))) = part (kvs s)"
  by (simp add: isHeartbeating_def Let_def split_beta)

lemma states_loop_part: "part (kvs (snd (states_loop K now e xs acc s))) = part (kvs s)"
proof (induction xs arbitrary: acc s)
  case (Cons x xs)
  obtain b pd s1 where h: "isHeartbeating K x now e s = ((b, pd), s1)" by (metis prod.exhaust)
  then show ?case using isHeartbeating_part [of x now e s] Cons.IH by (cases pd) simp_all
qed simp

lemma delete_keys_part: "part (delete_keys K ks kv) = part kv"
  by (induction ks arbitrary: kv) (simp_all add: delete_keys_def)

lemma store_keys_part: "part (store_keys K us kv) = part kv"
  by (induction us arbitrary: kv) (simp_all add: store_keys_def)

lemma params_store_part: "part (kvs (snd (params_store K w s))) = part (kvs s)"
  by (auto simp: params_store_def Let_def split_beta split: option.splits)

lemma run_handler_part: "lb_kv L = K \<Longrightarrow> part (kvs (snd (run_handler L h r w s))) = part (kvs s)"
proof (cases h)
  case H_hbRcv
  moreover assume "lb_kv L = K"
  ultimately show ?thesis by (auto simp: hbRcv_def updateHB_part Let_def split: prod.splits)
next
  case H_hbRcvXName
  moreover assume "lb_kv L = K"
  ultimately show ?thesis by (auto simp: hbRcvXName_def updateHB_part Let_def split: prod.splits)
next
  case H_paramsIO
  moreover assume "lb_kv L = K"
  ultimately show ?thesis by (auto simp: paramsIO_eq Let_def split_beta split: option.splits)
next
  case H_hbStates
  moreover assume "lb_kv L = K"
  moreover obtain xs ok where "hbStatesReq_unmarshal (rq_body r) = (xs, ok)" by (metis prod.exhaust)
  moreover obtain res s2 where "states_loop K (lb_clk L (tick s)) URL_HB_STATES xs [] (s\<lparr>tick := tick s + 1\<rparr>) = (res, s2)"
    by (metis prod.exhaust)
  ultimately show ?thesis
    using states_loop_part [of "lb_clk L (tick s)" URL_HB_STATES xs "[]" "s\<lparr>tick := tick s + 1\<rparr>"]
    by (auto simp: hbStates_def read_clock_def split: sum.splits)
next
  case H_hbStateSingle
  moreover assume "lb_kv L = K"
  moreover obtain b pd s2 where "isHeartbeating K (lb_norm_xname L (rq_xname r)) (lb_clk L (tick s))
      (URL_HB_STATE @ ''/'' @ lb_norm_xname L (rq_xname r)) (s\<lparr>tick := tick s + 1\<rparr>) = ((b, pd), s2)"
    by (metis prod.exhaust)
  ultimately show ?thesis
    using isHeartbeating_part [of "lb_norm_xname L (rq_xname r)" "lb_clk L (tick s)"
        "URL_HB_STATE @ ''/'' @ lb_norm_xname L (rq_xname r)" "s\<lparr>tick := tick s + 1\<rparr>"]
    by (auto simp: hbStateSingle_def read_clock_def Let_def split: option.splits)
qed (auto simp: doHealth_def doReadiness_def doLiveness_def Let_def split_beta)

lemma serve_part: "lb_kv L = K \<Longrightarrow> part (kvs (snd (serve L tag url r s))) = part (kvs s)"
  by (cases "ServeHTTP (newRouter tag generateRoutes) (rq_method r) (rq_path r)")
    (simp_all add: serve_def run_handler_part)

lemma check_apply_part: "check_apply K sc s = Some (sc', s') \<Longrightarrow> part (kvs s') = part (kvs s)"
  by (erule check_apply_cases) simp_all

lemma checker_end_part:
  "checker_end K sc s = (s', b) \<Longrightarrow> \<exists>kv. part kv = part (kvs s) \<and>
     kvs s' = (if 0 < int_param (check_interval (app_params s)) then snd (kv_unlock K kv) else kv)"
  by (rule exI [of _ "store_keys K (sc_update sc) (delete_keys K (sc_delete sc) (kvs s))"])
    (auto simp: checker_end_def delete_keys_part store_keys_part Let_def split: if_splits)

end

text \<open>The lock is such a part.\<close>

definition lock_of :: "'s dist \<Rightarrow> nat option \<times> (nat \<Rightarrow> bool)" where
  "lock_of s = (lk_owner s, cc_session s)"

lemma on_base_lock [simp]: "lock_of (snd (on_base f s)) = lock_of s"
  by (simp add: lock_of_def on_base_def split_beta)

interpretation lock: kvi_frame "etcd_kvi up i K" lock_of for up i K
  by unfold_locales (simp_all add: etcd_kvi_def)

section \<open>The lock in a check\<close>

text \<open>
  Giving the lock back: the session is gone, and the key unless both calls have failed.
\<close>

definition released :: "nat \<Rightarrow> nat option \<times> (nat \<Rightarrow> bool) \<Rightarrow> nat option \<times> (nat \<Rightarrow> bool) \<Rightarrow> bool" where
  "released i l l' \<longleftrightarrow>
     (if snd l i then snd l' = (snd l)(i := False) \<and> (fst l' = fst l \<or> fst l = Some i \<and> fst l' = None)
      else l' = l)"

lemma unlock_lock: "released i (lock_of s) (lock_of (snd (kv_unlock (etcd_kvi up i K) s)))"
  by (simp add: etcd_kvi_def DistUnlock_def session_close_def key_removed_def lock_of_def released_def Let_def)

lemma no_upd: "\<not> f i \<Longrightarrow> f(i := False) = f"
  using fun_upd_triv [of f i] by simp

lemma timed_lock_lock:
  assumes "kv_timed_lock (etcd_kvi up i K) n s = (err, s')"
  shows "case err of
      None \<Rightarrow> \<not> cc_session s i \<and> lk_owner s = None \<and> lock_of s' = (Some i, (cc_session s)(i := True))
    | Some e \<Rightarrow> lock_of s' = lock_of s"
proof -
  have "case DistTimedLock up i n s of
      (None, s') \<Rightarrow> \<not> cc_session s i \<and> lk_owner s = None \<and> lock_of s' = (Some i, (cc_session s)(i := True))
    | (Some e, s') \<Rightarrow> lock_of s' = lock_of s"
    by (auto simp: DistTimedLock_def mutex_lock_def session_close_def lock_of_def no_upd Let_def
        split: option.splits)
  then show ?thesis using assms by (simp add: etcd_kvi_def)
qed

text \<open>
  A check that opens under a positive interval has taken the lock; one that does not leaves the
  sessions as they were, and at most a key that could not be removed.
\<close>

lemma checker_open_lock:
  assumes "checker_open (etcd_kvi up i K) s = (kvlo, s')" "0 < int_param (check_interval (app_params s))"
  shows "if kvlo = None
    then cc_session (kvs s') = cc_session (kvs s) \<and>
      (lk_owner (kvs s') = lk_owner (kvs s) \<or>
       lk_owner (kvs s) = None \<and> \<not> cc_session (kvs s) i \<and> lk_owner (kvs s') = Some i)
    else \<not> cc_session (kvs s) i \<and> lk_owner (kvs s) = None \<and>
      lock_of (kvs s') = (Some i, (cc_session (kvs s))(i := True))"
proof -
  let ?K = "etcd_kvi up i K"
  obtain err kv where l: "kv_timed_lock ?K (int64 (int_param (check_interval (app_params s)) * 2)) (kvs s) = (err, kv)"
    by (metis prod.exhaust)
  note tl = timed_lock_lock [OF l]
  show ?thesis
  proof (cases err)
    case (Some e)
    then show ?thesis
      using assms(1,2) l tl by (auto simp: checker_open_def rearm_hbcheck_timer_def lock_of_def Let_def)
  next
    case None
    obtain l2 e2 kv2 where g: "kv_get_range ?K HB_KEYRANGE_START HB_KEYRANGE_END kv = ((l2, e2), kv2)"
      by (metis prod.exhaust)
    have k2: "lock_of kv2 = (Some i, (cc_session (kvs s))(i := True))"
      using lock.range_part [of up i K HB_KEYRANGE_START HB_KEYRANGE_END kv] g tl None by simp
    then have "released i (Some i, (cc_session (kvs s))(i := True)) (lock_of (snd (kv_unlock ?K kv2)))"
      using unlock_lock [of i kv2 up K] by simp
    then show ?thesis
      using assms(1,2) l g k2 tl None
      by (auto simp: checker_open_def rearm_hbcheck_timer_def released_def lock_of_def no_upd Let_def
          split: if_splits)
  qed
qed

lemma checker_end_lock:
  assumes "checker_end (etcd_kvi up i K) sc s = (s', b)"
  shows "if 0 < int_param (check_interval (app_params s)) then released i (lock_of (kvs s)) (lock_of (kvs s'))
    else lock_of (kvs s') = lock_of (kvs s)"
proof -
  obtain kv where "lock_of kv = lock_of (kvs s)" and
    "kvs s' = (if 0 < int_param (check_interval (app_params s)) then snd (kv_unlock (etcd_kvi up i K) kv) else kv)"
    using lock.checker_end_part [OF assms] by blast
  then show ?thesis using unlock_lock [of i kv up K] by auto
qed

end
