(* ===== verification/Kvs_Etcd.thy ===== *)
theory Kvs_Etcd
  imports Dist_Lock
begin

text \<open>
  The operations of the etcd backend on keys (vendored \<open>hms-hmetcd\<close>, \<open>kvs_etcd.go\<close>), over the calls
  of the etcd client. The client is a record of operations on an abstract state, with the laws its
  documentation states in the locale \<open>etcd_client\<close>; the backend then promises what \<open>kvi_store\<close>
  asks for, so that what is shown of the handlers, the checks and the service for any such store
  holds on etcd. The lock of the backend is that of \<open>Dist_Lock\<close>.
\<close>

section \<open>The client\<close>

text \<open>
  \<open>cl_get C key end\<close> gives \<open>Count\<close> and \<open>Kvs\<close> of the answer; with an empty \<open>end\<close> it is about one key,
  else about the keys from \<open>key\<close> to \<open>end\<close>, \<open>end\<close> itself excluded. \<open>cl_put\<close> takes the lease of
  \<open>WithLease\<close>. What is in an answer that comes with an error is not used by the program.
\<close>

type_synonym lease = int

record 's clientv3 =
  cl_get :: "string \<Rightarrow> string \<Rightarrow> 's \<Rightarrow> ((int \<times> (string \<times> string) list) \<times> kv_error) \<times> 's"
  cl_put :: "string \<Rightarrow> string \<Rightarrow> lease option \<Rightarrow> 's \<Rightarrow> kv_error \<times> 's"
  cl_delete :: "string \<Rightarrow> 's \<Rightarrow> kv_error \<times> 's"
  cl_grant :: "int \<Rightarrow> 's \<Rightarrow> (lease \<times> kv_error) \<times> 's"
  cl_keep_alive_once :: "lease \<Rightarrow> 's \<Rightarrow> kv_error \<times> 's"

text \<open>
  A call that fails, by its timeout for instance, may or may not have taken effect. There is no
  empty key.
\<close>

locale etcd_client =
  fixes C :: "'s clientv3" and view :: "'s \<Rightarrow> string \<rightharpoonup> string"
  assumes no_empty_key: "view s [] = None"
    and get_same: "view (snd (cl_get C k e s)) = view s"
    and get_distinct: "cl_get C k e s = (((n, l), None), s') \<Longrightarrow> n = int (length l) \<and> distinct (map fst l)"
    and get_one: "cl_get C k [] s = (((n, l), None), s') \<Longrightarrow>
      l = (case view s k of None \<Rightarrow> [] | Some v \<Rightarrow> [(k, v)])"
    and get_keys: "cl_get C k e s = (((n, l), None), s') \<Longrightarrow> k \<noteq> [] \<Longrightarrow> k < e \<Longrightarrow>
      (k', v) \<in> set l \<longleftrightarrow> view s k' = Some v \<and> k \<le> k' \<and> k' < e"
    and put_done: "cl_put C k v ls s = (None, s') \<Longrightarrow> view s' = (view s)(k \<mapsto> v)"
    and put_failed: "cl_put C k v ls s = (Some x, s') \<Longrightarrow> view s' = view s \<or> view s' = (view s)(k \<mapsto> v)"
    and delete_done: "cl_delete C k s = (None, s') \<Longrightarrow> view s' = (view s)(k := None)"
    and delete_failed: "cl_delete C k s = (Some x, s') \<Longrightarrow> view s' = view s \<or> view s' = (view s)(k := None)"
    and grant_same: "view (snd (cl_grant C ttl s)) = view s"
    and keep_same: "view (snd (cl_keep_alive_once C lid s)) = view s"

section \<open>The operations\<close>

text \<open>\<open>Kvs[0]\<close> exists when \<open>Count\<close> is 1, as no limit is given.\<close>

definition Kvs_etcd_Get :: "'s clientv3 \<Rightarrow> string \<Rightarrow> 's \<Rightarrow> (string \<times> bool \<times> kv_error) \<times> 's" where
  "Kvs_etcd_Get C key s =
     (let (((count, kvl), err), s1) = cl_get C key [] s in
      ((if err \<noteq> None then ([], False, err)
        else if count = 0 then ([], False, None)
        else if 1 < count then
          ([], False, Some (''WARNING: fetched '' @ itoa count @ '' keys for '' @ CHR 0x27 # key @ CHR 0x27 # '', should only be 1''))
        else (snd (hd kvl), True, None)), s1))"

text \<open>\<open>WithFromKey\<close> replaces an empty key by a zero byte; \<open>WithRange\<close> then sets the end.\<close>

definition Kvs_etcd_GetRange ::
  "'s clientv3 \<Rightarrow> string \<Rightarrow> string \<Rightarrow> 's \<Rightarrow> ((string \<times> string) list \<times> kv_error) \<times> 's" where
  "Kvs_etcd_GetRange C keystart keyend s =
     (let (((count, kvl), err), s1) =
        cl_get C (if keystart = [] then [CHR 0x00] else keystart) keyend s in
      ((if err \<noteq> None then ([], err)
        else if 0 < count then (fold (\<lambda>ev svals. svals @ [ev]) kvl [], None) else ([], None)), s1))"

definition Kvs_etcd_Store :: "'s clientv3 \<Rightarrow> string \<Rightarrow> string \<Rightarrow> 's \<Rightarrow> kv_error \<times> 's" where
  "Kvs_etcd_Store C key val s = (let (err, s1) = cl_put C key val None s in (if err \<noteq> None then err else None, s1))"

definition Kvs_etcd_Delete :: "'s clientv3 \<Rightarrow> string \<Rightarrow> 's \<Rightarrow> kv_error \<times> 's" where
  "Kvs_etcd_Delete C key s = (let (err, s1) = cl_delete C key s in (if err \<noteq> None then err else None, s1))"

definition create_tk_lease :: "'s clientv3 \<Rightarrow> string \<Rightarrow> 's \<Rightarrow> (lease \<times> kv_error) \<times> 's" where
  "create_tk_lease C key s =
     (let ((lid, err), s1) = cl_grant C 10 s in
      if err \<noteq> None then ((0, err), s1)
      else let (perr, s2) = cl_put C key ''1'' (Some lid) s1 in
        if perr \<noteq> None then ((lid, perr), s2) else ((lid, None), s2))"

definition Kvs_etcd_TempKey :: "'s clientv3 \<Rightarrow> string \<Rightarrow> 's \<Rightarrow> kv_error \<times> 's" where
  "Kvs_etcd_TempKey C key s =
     (let ((leaseID, err), s1) = create_tk_lease C key s in (if err \<noteq> None then err else None, s1))"

text \<open>
  A round of the goroutine that \<open>TempKey\<close> starts: the lease of the next round, or None when it ends.
  The client is never set to nil.
\<close>

definition lease_keep_alive_round :: "'s clientv3 \<Rightarrow> string \<Rightarrow> lease \<Rightarrow> 's \<Rightarrow> lease option \<times> 's" where
  "lease_keep_alive_round C key localLid s =
     (let (perr, s1) = cl_keep_alive_once C localLid s in
      if perr \<noteq> None then
        let ((lid, llerr), s2) = create_tk_lease C key s1 in
        (if llerr \<noteq> None then None else Some lid, s2)
      else (Some localLid, s1))"

text \<open>Its two lock operations are never used: \<open>etcd_kvi\<close> adds those of \<open>Dist_Lock\<close>.\<close>

definition etcd_keys :: "'s clientv3 \<Rightarrow> 's kvi" where
  "etcd_keys C =
     \<lparr>kv_get = Kvs_etcd_Get C, kv_get_range = Kvs_etcd_GetRange C, kv_store = Kvs_etcd_Store C,
      kv_delete = Kvs_etcd_Delete C, kv_timed_lock = (\<lambda>n s. (None, s)), kv_unlock = (\<lambda>s. (None, s)),
      kv_temp_key = Kvs_etcd_TempKey C\<rparr>"

definition Kvs_etcd :: "etcd_calls \<Rightarrow> nat \<Rightarrow> 's clientv3 \<Rightarrow> 's dist kvi" where
  "Kvs_etcd up i C = etcd_kvi up i (etcd_keys C)"

section \<open>What the backend promises\<close>

lemmas kvs_etcd_defs = Kvs_etcd_Get_def Kvs_etcd_GetRange_def Kvs_etcd_Store_def Kvs_etcd_Delete_def

lemma fold_snoc [simp]: "fold (\<lambda>x acc. acc @ [x]) xs acc = acc @ xs"
  by (induction xs arbitrary: acc) simp_all

context etcd_client
begin

lemma Get_result:
  assumes "Kvs_etcd_Get C k s = ((v, ok, None), s')"
  shows "view s k = (if ok then Some v else None) \<and> (\<not> ok \<longrightarrow> v = [])"
proof -
  obtain n l e s1 where g: "cl_get C k [] s = (((n, l), e), s1)" by (metis prod.exhaust)
  have e: "e = None" using assms g by (auto simp: Kvs_etcd_Get_def split: if_splits)
  note g' = g [unfolded e]
  have "n = int (length l)" using get_distinct [OF g'] by blast
  then show ?thesis using assms g' get_one [OF g']
    by (cases "view s k") (auto simp: Kvs_etcd_Get_def split: if_splits)
qed

lemma GetRange_result:
  assumes "Kvs_etcd_GetRange C a b s = ((kvl, None), s')"
  shows "distinct (map fst kvl)"
    and "range_ok a b \<Longrightarrow> (k, v) \<in> set kvl \<longleftrightarrow> view s k = Some v \<and> a \<le> k \<and> k < b"
proof -
  let ?a = "if a = [] then [CHR 0x00] else a"
  obtain n l e s1 where g: "cl_get C ?a b s = (((n, l), e), s1)" by (metis prod.exhaust)
  have e: "e = None" using assms g by (auto simp: Kvs_etcd_GetRange_def split: if_splits)
  note g' = g [unfolded e]
  note d = get_distinct [OF g']
  have k: "kvl = l" using assms g' d by (auto simp: Kvs_etcd_GetRange_def split: if_splits)
  show "distinct (map fst kvl)" using d k by simp
  show "(k, v) \<in> set kvl \<longleftrightarrow> view s k = Some v \<and> a \<le> k \<and> k < b" if "range_ok a b"
    using get_keys [OF g', of k v] that k by (auto simp: range_ok_def)
qed

lemma Store_result:
  assumes "Kvs_etcd_Store C k v s = (e, s')"
  shows "e = None \<Longrightarrow> view s' = (view s)(k \<mapsto> v)"
    and "view s' = view s \<or> view s' = (view s)(k \<mapsto> v)"
proof -
  have p: "cl_put C k v None s = (e, s')"
    using assms by (auto simp: Kvs_etcd_Store_def split: prod.splits if_splits)
  show "e = None \<Longrightarrow> view s' = (view s)(k \<mapsto> v)" using put_done p by simp
  show "view s' = view s \<or> view s' = (view s)(k \<mapsto> v)"
    using p put_done put_failed by (cases e) blast+
qed

lemma Delete_result:
  assumes "Kvs_etcd_Delete C k s = (e, s')"
  shows "e = None \<Longrightarrow> view s' = (view s)(k := None)"
    and "view s' = view s \<or> view s' = (view s)(k := None)"
proof -
  have p: "cl_delete C k s = (e, s')"
    using assms by (auto simp: Kvs_etcd_Delete_def split: prod.splits if_splits)
  show "e = None \<Longrightarrow> view s' = (view s)(k := None)" using delete_done p by simp
  show "view s' = view s \<or> view s' = (view s)(k := None)"
    using p delete_done delete_failed by (cases e) blast+
qed

lemma create_tk_lease_result:
  assumes "create_tk_lease C k s = ((lid, e), s')"
  shows "e = None \<Longrightarrow> view s' = (view s)(k \<mapsto> ''1'')"
    and "view s' = view s \<or> view s' = (view s)(k \<mapsto> ''1'')"
proof -
  obtain l1 e1 s1 where g: "cl_grant C 10 s = ((l1, e1), s1)" by (metis prod.exhaust)
  have v: "view s1 = view s" using grant_same [of 10 s] g by simp
  obtain e2 s2 where p: "cl_put C k ''1'' (Some l1) s1 = (e2, s2)" by (metis prod.exhaust)
  have p2: "view s2 = (view s)(k \<mapsto> ''1'')" if "e2 = None" using put_done p that v by simp
  have p3: "view s2 = view s \<or> view s2 = (view s)(k \<mapsto> ''1'')"
    using p put_failed [of k "''1''" "Some l1" s1] p2 v by (cases e2) auto
  show "e = None \<Longrightarrow> view s' = (view s)(k \<mapsto> ''1'')"
    using assms g p p2 by (auto simp: create_tk_lease_def split: if_splits)
  show "view s' = view s \<or> view s' = (view s)(k \<mapsto> ''1'')"
    using assms g p p3 v by (auto simp: create_tk_lease_def split: if_splits)
qed

lemma TempKey_result:
  assumes "Kvs_etcd_TempKey C k s = (None, s')"
  shows "view s' = (view s)(k \<mapsto> ''1'')"
proof -
  obtain lid e s1 where c: "create_tk_lease C k s = ((lid, e), s1)" by (metis prod.exhaust)
  with assms have "e = None" "s1 = s'" by (auto simp: Kvs_etcd_TempKey_def split: if_splits)
  then show ?thesis using create_tk_lease_result(1) [OF c] by simp
qed

text \<open>A round of the keep-alive that has made a new lease has made the key again.\<close>

lemma keep_alive_result:
  assumes "lease_keep_alive_round C k lid s = (r, s')"
  shows "view s' = view s \<or> view s' = (view s)(k \<mapsto> ''1'')"
    and "fst (cl_keep_alive_once C lid s) \<noteq> None \<Longrightarrow> r \<noteq> None \<Longrightarrow> view s' k = Some ''1''"
proof -
  obtain pe s1 where k: "cl_keep_alive_once C lid s = (pe, s1)" by (metis prod.exhaust)
  have v: "view s1 = view s" using keep_same [of lid s] k by simp
  obtain l e s2 where c: "create_tk_lease C k s1 = ((l, e), s2)" by (metis prod.exhaust)
  note cr = create_tk_lease_result [OF c, unfolded v]
  show "view s' = view s \<or> view s' = (view s)(k \<mapsto> ''1'')"
    using assms k c cr(2) v by (auto simp: lease_keep_alive_round_def split: if_splits)
  show "view s' k = Some ''1''" if "fst (cl_keep_alive_once C lid s) \<noteq> None" "r \<noteq> None"
    using assms k c cr(1) that by (auto simp: lease_keep_alive_round_def split: if_splits)
qed

end

sublocale etcd_client \<subseteq> kvi_store "etcd_keys C" view
proof
  show "kv_get (etcd_keys C) k s = ((v, ok, None), s') \<Longrightarrow> view s k = (if ok then Some v else None)"
    for k s v ok s' using Get_result by (auto simp: etcd_keys_def)
  fix a b s kvl s' assume "kv_get_range (etcd_keys C) a b s = ((kvl, None), s')"
  then have r: "Kvs_etcd_GetRange C a b s = ((kvl, None), s')" by (simp add: etcd_keys_def)
  show "distinct (map fst kvl)" by (rule GetRange_result(1) [OF r])
  show "range_ok a b \<Longrightarrow> (k, v) \<in> set kvl \<Longrightarrow> view s k = Some v \<and> a \<le> k \<and> k \<le> b" for k v
    using GetRange_result(2) [OF r, of k v] by (simp add: less_imp_le)
  show "range_ok a b \<Longrightarrow> view s k = Some v \<Longrightarrow> a \<le> k \<Longrightarrow> k < b \<Longrightarrow> (k, v) \<in> set kvl" for k v
    using GetRange_result(2) [OF r, of k v] by simp
next
  show "view (snd (kv_get (etcd_keys C) k s)) = view s" for k s
    using get_same [of k "[]" s] by (simp add: etcd_keys_def Kvs_etcd_Get_def split_beta)
  show "view (snd (kv_get_range (etcd_keys C) a b s)) = view s" for a b s
    using get_same by (simp add: etcd_keys_def Kvs_etcd_GetRange_def split_beta)
  show "kv_get (etcd_keys C) k s = ((v, ok, Some e), s') \<Longrightarrow> \<not> ok" for k s v ok e s'
    by (auto simp: etcd_keys_def Kvs_etcd_Get_def split: prod.splits if_splits)
  show "kv_store (etcd_keys C) k v s = (None, s') \<Longrightarrow> view s' = (view s)(k \<mapsto> v)" for k v s s'
    using Store_result(1) by (simp add: etcd_keys_def)
  show "kv_store (etcd_keys C) k v s = (Some e, s') \<Longrightarrow> view s' = view s \<or> view s' = (view s)(k \<mapsto> v)"
    for k v s e s' using Store_result(2) by (simp add: etcd_keys_def)
  show "kv_delete (etcd_keys C) k s = (None, s') \<Longrightarrow> view s' = (view s)(k := None)" for k s s'
    using Delete_result(1) by (simp add: etcd_keys_def)
  show "kv_delete (etcd_keys C) k s = (Some e, s') \<Longrightarrow> view s' = view s \<or> view s' = (view s)(k := None)"
    for k s e s' using Delete_result(2) by (simp add: etcd_keys_def)
qed (simp_all add: etcd_keys_def)

section \<open>A client\<close>

text \<open>
  A server in memory, with the number of the next lease; it answers every call, but has no empty
  key. \<open>''\0''\<close> as an end is etcd's way to ask for all keys from a key on.
\<close>

definition no_key :: kv_error where "no_key = Some ''etcdserver: key is not provided''"

definition sample_get :: "string \<Rightarrow> string \<Rightarrow> mem \<times> int \<Rightarrow> ((int \<times> (string \<times> string) list) \<times> kv_error) \<times> mem \<times> int" where
  "sample_get k e s =
     ((if k = [] then ((0, []), no_key)
       else let l = filter (\<lambda>(k', v). if e = [] then k' = k else k \<le> k' \<and> (e = [CHR 0x00] \<or> k' < e))
                (gm_entries (fst s))
         in ((int (length l), l), None)), s)"

definition sample_client :: "(mem \<times> int) clientv3" where
  "sample_client =
     \<lparr>cl_get = sample_get,
      cl_put = (\<lambda>k v ls s. if k = [] then (no_key, s) else (None, (gm_set k v (fst s), snd s))),
      cl_delete = (\<lambda>k s. if k = [] then (no_key, s) else (None, (DAList.delete k (fst s), snd s))),
      cl_grant = (\<lambda>ttl s. ((snd s, None), (fst s, snd s + 1))),
      cl_keep_alive_once = (\<lambda>ls s. (None, s))\<rparr>"

definition client_view :: "mem \<times> int \<Rightarrow> string \<rightharpoonup> string" where
  "client_view s k = (if k = [] then None else mem_view (fst s) k)"

lemmas client_defs = sample_client_def sample_get_def client_view_def no_key_def mem_view_def

lemma entries_one:
  fixes m :: mem
  shows "filter (\<lambda>(k', v). k' = k) (gm_entries m) =
     (case DAList.lookup m k of None \<Rightarrow> [] | Some v \<Rightarrow> [(k, v)])"
proof -
  have "filter (\<lambda>(k', v). k' = k) xs = (case map_of xs k of None \<Rightarrow> [] | Some v \<Rightarrow> [(k, v)])"
    if "distinct (map fst xs)" for xs :: "(string \<times> string) list"
    using that
  proof (induction xs)
    case (Cons x xs)
    have "filter (\<lambda>(k', v). k' = k) xs = []" if "fst x = k"
    proof -
      have "k \<notin> fst ` set xs" using Cons.prems that by auto
      then show ?thesis by (fastforce simp: filter_empty_conv image_iff)
    qed
    with Cons show ?case by (cases x) auto
  qed simp
  from this [of "gm_entries m"] show ?thesis by (simp add: gm_entries_def DAList.lookup.rep_eq)
qed

lemma after_zero: "k \<noteq> [] \<Longrightarrow> k < e \<Longrightarrow> e \<noteq> [CHR 0x00]"
  by (cases k) (auto simp: less_char_def)

interpretation sample_etcd: etcd_client sample_client client_view
proof
  fix k e s n l s'
  assume g: "cl_get sample_client k e s = (((n, l), None), s')"
  let ?P = "\<lambda>(k', v). if e = [] then k' = k else k \<le> k' \<and> (e = [CHR 0x00] \<or> k' < e)"
  have l: "k \<noteq> []" "l = filter ?P (gm_entries (fst s))" "n = int (length l)"
    using g by (auto simp: sample_client_def sample_get_def no_key_def Let_def split: if_split_asm)
  have "distinct (map fst (gm_entries (fst s)))" by (simp add: gm_entries_def)
  then show "n = int (length l) \<and> distinct (map fst l)" using l by (simp add: distinct_map_fst_filter)
  show "(k', v) \<in> set l \<longleftrightarrow> client_view s k' = Some v \<and> k \<le> k' \<and> k' < e" if "k \<noteq> []" "k < e" for k' v
  proof -
    have e: "e \<noteq> []" "e \<noteq> [CHR 0x00]" using after_zero [OF that] that(2) by auto
    have "k \<le> k' \<Longrightarrow> k' \<noteq> []" using that(1) by auto
    then show ?thesis by (auto simp: l(2) e client_view_def mem_view_def mem_entries_iff)
  qed
next
  fix k s n l s'
  assume g: "cl_get sample_client k [] s = (((n, l), None), s')"
  then show "l = (case client_view s k of None \<Rightarrow> [] | Some v \<Rightarrow> [(k, v)])"
    by (auto simp: client_defs Let_def entries_one split: if_splits)
qed (auto simp: client_defs fun_eq_iff split: if_splits)

text \<open>With the lock of any instance, the backend \<open>Kvs_etcd\<close> of this client.\<close>

interpretation sample_kvs_etcd: kvi_store "Kvs_etcd up i sample_client" "\<lambda>s. client_view (lk_base s)" for up i
  unfolding Kvs_etcd_def by (rule sample_etcd.etcd_kvi_store)

section \<open>Properties\<close>

text \<open>
  C31: The two backends of the store agree. On the same contents, an operation of the etcd backend
  that reports no error gives what the memory backend gives, and leaves the same contents; a range
  alone differs, in that the entry at the end of the range is left out by etcd.
\<close>

theorem backends_agree:
  assumes "etcd_client C view" "view s = mem_view m"
  shows "(snd (snd (fst (Kvs_etcd_Get C k s))) = None \<longrightarrow> fst (Kvs_etcd_Get C k s) = fst (mem_get k m)) \<and>
    (fst (Kvs_etcd_Store C k v s) = None \<longrightarrow>
       view (snd (Kvs_etcd_Store C k v s)) = mem_view (snd (mem_store k v m))) \<and>
    (fst (Kvs_etcd_Delete C k s) = None \<longrightarrow>
       view (snd (Kvs_etcd_Delete C k s)) = mem_view (snd (mem_delete k m))) \<and>
    (fst (Kvs_etcd_TempKey C k s) = None \<longrightarrow>
       view (snd (Kvs_etcd_TempKey C k s)) = mem_view (snd (mem_temp_key k m))) \<and>
    (range_ok a b \<longrightarrow> snd (fst (Kvs_etcd_GetRange C a b s)) = None \<longrightarrow>
       set (fst (fst (Kvs_etcd_GetRange C a b s))) = {p \<in> set (fst (fst (mem_get_range a b m))). fst p \<noteq> b})"
proof (intro conjI impI)
  note cl = assms(1)
  show "fst (Kvs_etcd_Get C k s) = fst (mem_get k m)" if "snd (snd (fst (Kvs_etcd_Get C k s))) = None"
  proof -
    obtain v ok er s' where r: "Kvs_etcd_Get C k s = ((v, ok, er), s')" by (metis prod.exhaust)
    with that have g: "Kvs_etcd_Get C k s = ((v, ok, None), s')" by simp
    show ?thesis using etcd_client.Get_result [OF cl g] g assms(2)
      by (auto simp: mem_get_def mem_view_def split: if_splits option.split)
  qed
  show "view (snd (Kvs_etcd_Store C k v s)) = mem_view (snd (mem_store k v m))"
    if "fst (Kvs_etcd_Store C k v s) = None"
    using etcd_client.Store_result(1) [OF cl prod.collapse [symmetric] that] assms(2)
    by (simp add: mem_store_def mem_view_def)
  show "view (snd (Kvs_etcd_Delete C k s)) = mem_view (snd (mem_delete k m))"
    if "fst (Kvs_etcd_Delete C k s) = None"
    using etcd_client.Delete_result(1) [OF cl prod.collapse [symmetric] that] assms(2)
    by (auto simp: mem_delete_def mem_view_def)
  show "view (snd (Kvs_etcd_TempKey C k s)) = mem_view (snd (mem_temp_key k m))"
    if "fst (Kvs_etcd_TempKey C k s) = None"
    using etcd_client.TempKey_result [OF cl, of k s] that assms(2)
    by (cases "Kvs_etcd_TempKey C k s") (simp add: mem_temp_key_def mem_view_def)
  show "set (fst (fst (Kvs_etcd_GetRange C a b s))) = {p \<in> set (fst (fst (mem_get_range a b m))). fst p \<noteq> b}"
    if "range_ok a b" "snd (fst (Kvs_etcd_GetRange C a b s)) = None"
  proof -
    obtain l er s' where r: "Kvs_etcd_GetRange C a b s = ((l, er), s')" by (metis prod.exhaust)
    with that(2) have g: "Kvs_etcd_GetRange C a b s = ((l, None), s')" by simp
    show ?thesis using etcd_client.GetRange_result(2) [OF cl g that(1)] g assms(2)
      by (auto simp: mem_get_range_def mem_view_def mem_entries_iff)
  qed
qed

theorem backends_agree_witness:
  "fst (Kvs_etcd_Get sample_client ''x0'' (gm_set ''x0'' ''a'' gm_empty, 7)) = (''a'', True, None) \<and>
   client_view (snd (Kvs_etcd_Store sample_client ''x0'' ''b'' (gm_set ''x0'' ''a'' gm_empty, 7))) ''x0'' = Some ''b'' \<and>
   set (fst (fst (Kvs_etcd_GetRange sample_client ''x'' ''x0'' (gm_set ''x0'' ''a'' gm_empty, 7)))) = {}"
proof -
  let ?m = "gm_set ''x0'' ''a'' gm_empty" and ?C = sample_client
  have v: "client_view (?m, 7) = mem_view ?m"
    by (simp add: client_view_def fun_eq_iff mem_view_def gm_empty_def)
  have ok: "snd (snd (fst (Kvs_etcd_Get ?C ''x0'' (?m, 7)))) = None"
    "fst (Kvs_etcd_Store ?C ''x0'' ''b'' (?m, 7)) = None"
    "snd (fst (Kvs_etcd_GetRange ?C ''x'' ''x0'' (?m, 7))) = None" "range_ok ''x'' ''x0''"
    by (simp_all add: client_defs kvs_etcd_defs Let_def range_ok_def entries_one gm_empty_def split: prod.split)
  note ag = backends_agree [of ?C client_view "(?m, 7)" ?m "''x0''" "''b''" "''x''" "''x0''",
      OF sample_etcd.etcd_client_axioms v]
  have "fst (Kvs_etcd_Get ?C ''x0'' (?m, 7)) = fst (mem_get ''x0'' ?m)" using ag ok(1) by blast
  moreover have "client_view (snd (Kvs_etcd_Store ?C ''x0'' ''b'' (?m, 7))) = mem_view (snd (mem_store ''x0'' ''b'' ?m))"
    using ag ok(2) by blast
  moreover have "set (fst (fst (Kvs_etcd_GetRange ?C ''x'' ''x0'' (?m, 7)))) =
      {p \<in> set (fst (fst (mem_get_range ''x'' ''x0'' ?m))). fst p \<noteq> ''x0''}"
    using ag ok(3,4) by blast
  ultimately show ?thesis
    by (auto simp: mem_get_def mem_store_def mem_view_def mem_get_range_def mem_entries_iff gm_empty_def)
qed

end
