(* ===== verification/Cluster.thy ===== *)
theory Cluster
  imports Service Dist_Lock
begin

text \<open>
  Several instances of the service on one store: each is a service of its own, the keys and the
  lock of the checks are shared. Any access of any instance to the store may come between two of
  another.
\<close>

section \<open>Instances\<close>

record 's cluster =
  cl_store :: "'s dist"
  cl_inst :: "nat \<Rightarrow> 's dist service"

text \<open>An instance with the store as it is now, and the cluster after a step of the instance.\<close>

definition inst_at :: "'s cluster \<Rightarrow> nat \<Rightarrow> 's dist service" where
  "inst_at c i = (cl_inst c i)\<lparr>sv_proc := (sv_proc (cl_inst c i))\<lparr>kvs := cl_store c\<rparr>\<rparr>"

definition inst_put :: "nat \<Rightarrow> 's dist service \<Rightarrow> 's cluster \<Rightarrow> 's cluster" where
  "inst_put i v c = c\<lparr>cl_store := kvs (sv_proc v), cl_inst := (cl_inst c)(i := v)\<rparr>"

text \<open>
  A step of an instance, its library calls on the shared store, with any answers of etcd; and what
  happens to the lock without any call. A stray key is one whose session is closed on the side of
  the instance but whose lease could not be revoked (or the key of a \<open>Lock\<close> that has failed): it can
  become the first and so own the mutex until its lease ends. With \<open>lossy\<close> the lease of a session that
  is in use can end as well, when its renewals have failed for as long as the lease lasts.
\<close>

definition owned_by :: "nat option \<Rightarrow> 's cluster \<Rightarrow> 's cluster" where
  "owned_by ow c = c\<lparr>cl_store := (cl_store c)\<lparr>lk_owner := ow\<rparr>\<rparr>"

inductive cluster_step :: "'s kvi \<Rightarrow> bool \<Rightarrow> 's cluster \<Rightarrow> 's cluster \<Rightarrow> bool" for K lossy where
  acts: "lb_kv L = etcd_kvi up i K \<Longrightarrow> own_step L (inst_at c i) v \<Longrightarrow> cluster_step K lossy c (inst_put i v c)"
| stray_first: "lk_owner (cl_store c) = None \<Longrightarrow> \<not> cc_session (cl_store c) i \<Longrightarrow>
    cluster_step K lossy c (owned_by (Some i) c)"
| stray_ends: "lk_owner (cl_store c) = Some i \<Longrightarrow> \<not> cc_session (cl_store c) i \<Longrightarrow>
    cluster_step K lossy c (owned_by None c)"
| lease_lost: "lossy \<Longrightarrow> lk_owner (cl_store c) = Some i \<Longrightarrow> cc_session (cl_store c) i \<Longrightarrow>
    cluster_step K lossy c (owned_by None c)"

inductive cluster_reachable ::
  "'s kvi \<Rightarrow> bool \<Rightarrow> ('s cluster \<Rightarrow> bool) \<Rightarrow> 's cluster \<Rightarrow> 's cluster \<Rightarrow> bool" for K lossy ok c0 where
  start: "cluster_reachable K lossy ok c0 c0"
| step: "cluster_reachable K lossy ok c0 c \<Longrightarrow> ok c \<Longrightarrow> cluster_step K lossy c c' \<Longrightarrow>
    cluster_reachable K lossy ok c0 c'"

definition interval_of :: "'s cluster \<Rightarrow> nat \<Rightarrow> int" where
  "interval_of c i = int_param (check_interval (app_params (sv_proc (cl_inst c i))))"

definition running :: "'s cluster \<Rightarrow> nat \<Rightarrow> check list" where
  "running c i = sv_checks (cl_inst c i)"

lemma inst_simps [simp]:
  "sv_checks (inst_at c i) = running c i" "kvs (sv_proc (inst_at c i)) = cl_store c"
  "app_params (sv_proc (inst_at c i)) = app_params (sv_proc (cl_inst c i))"
  "checks_alive (inst_at c i) = checks_alive (cl_inst c i)"
  "running (inst_put i v c) = (running c)(i := sv_checks v)"
  "cl_store (inst_put i v c) = kvs (sv_proc v)" "cl_inst (inst_put i v c) = (cl_inst c)(i := v)"
  by (simp_all add: inst_at_def inst_put_def running_def checks_alive_def fun_eq_iff)

lemma owned_simps [simp]:
  "running (owned_by ow c) = running c" "cl_inst (owned_by ow c) = cl_inst c"
  "lk_owner (cl_store (owned_by ow c)) = ow" "cc_session (cl_store (owned_by ow c)) = cc_session (cl_store c)"
  "lk_base (cl_store (owned_by ow c)) = lk_base (cl_store c)"
  by (simp_all add: owned_by_def running_def fun_eq_iff)

section \<open>The lock under the steps of an instance\<close>

text \<open>
  A step leaves the lock and the number of running checks as they are, or it is the begin or the
  end of a check, or of one that fails and may leave a stray key.
\<close>

lemma own_step_lock:
  assumes L: "lb_kv L = etcd_kvi up i K" and st: "own_step L v v'"
  obtains (same) "lock_of (kvs (sv_proc v')) = lock_of (kvs (sv_proc v))"
      "length (sv_checks v') = length (sv_checks v)"
    | (strays) "sv_checks v' = sv_checks v" "lk_owner (kvs (sv_proc v)) = None"
      "\<not> cc_session (kvs (sv_proc v)) i" "lock_of (kvs (sv_proc v')) = (Some i, cc_session (kvs (sv_proc v)))"
    | (begins) "timers (sv_proc v) \<noteq> []" "length (sv_checks v') = Suc (length (sv_checks v))"
      "0 < int_param (check_interval (app_params (sv_proc v))) \<longrightarrow>
        \<not> cc_session (kvs (sv_proc v)) i \<and> lk_owner (kvs (sv_proc v)) = None \<and>
        lock_of (kvs (sv_proc v')) = (Some i, (cc_session (kvs (sv_proc v)))(i := True))"
    | (fails) "timers (sv_proc v) \<noteq> []" "sv_checks v' = sv_checks v"
      "\<not> 0 < int_param (check_interval (app_params (sv_proc v)))"
    | (ends) "Suc (length (sv_checks v')) = length (sv_checks v)"
      "if 0 < int_param (check_interval (app_params (sv_proc v)))
       then released i (lock_of (kvs (sv_proc v))) (lock_of (kvs (sv_proc v')))
       else lock_of (kvs (sv_proc v')) = lock_of (kvs (sv_proc v))"
  using st
proof cases
  case (request tag url r w s')
  then have "lock_of (kvs s') = lock_of (kvs (sv_proc v))"
    using lock.serve_part [OF L, of tag url r "sv_proc v"] by simp
  then show ?thesis using request(1) same by simp
next
  case (beat_reads tag r x ts st rd s')
  have "lock_of (kvs s') = lock_of (kvs (sv_proc v))"
    using lock.updateHB_read_part [of up i K URL_HEARTBEAT x new_response "sv_proc v"] beat_reads(3) L by simp
  then show ?thesis using beat_reads(1) same by simp
next
  case (beat_writes b w new s')
  have "lock_of (kvs s') = lock_of (kvs (sv_proc v))"
    using lock.updateHB_write_part [of up i K "lb_clk L" URL_HEARTBEAT "br_comp b" "br_time b" "br_status b"
        "br_read b" new_response "sv_proc v"] beat_writes(3) L by simp
  then show ?thesis using beat_writes(1) same by simp
next
  case (beat_notifies hb)
  then show ?thesis using same by simp
next
  case (patch_sets q)
  then show ?thesis using same by simp
next
  case (patch_stores w s')
  then have "lock_of (kvs s') = lock_of (kvs (sv_proc v))"
    using lock.params_store_part [of up i K new_response "sv_proc v"] L by simp
  then show ?thesis using patch_stores(1) same by simp
next
  case (check_fails t s')
  have tm: "timers (sv_proc v) \<noteq> []" using check_fails(2) by auto
  show ?thesis
  proof (cases "0 < int_param (check_interval (app_params (sv_proc v)))")
    case True
    then have "cc_session (kvs s') = cc_session (kvs (sv_proc v)) \<and>
        (lk_owner (kvs s') = lk_owner (kvs (sv_proc v)) \<or> lk_owner (kvs (sv_proc v)) = None \<and>
         \<not> cc_session (kvs (sv_proc v)) i \<and> lk_owner (kvs s') = Some i)"
      using checker_open_lock [OF check_fails(3) [unfolded L]] by simp
    then show ?thesis
      using same strays by (auto simp: check_fails(1) lock_of_def)
  qed (use fails check_fails(1) tm in simp)
next
  case (check_begins t kvl s')
  have "timers (sv_proc v) \<noteq> []" using check_begins(2) by auto
  then show ?thesis
    using check_begins checker_open_lock [OF check_begins(3) [unfolded L]] begins by simp
next
  case (check_record c kv kvl sc s')
  have "kvs s' = kvs (sv_proc v)"
    using check_one_frame(4) [of "lb_clk L" kv "(ck_scan c, sv_proc v)"] check_record(4) by simp
  then show ?thesis using check_record(1) length_removed [OF check_record(2)] same by simp
next
  case (check_applies c sc s')
  have "lock_of (kvs s') = lock_of (kvs (sv_proc v))"
    using lock.check_apply_part [OF check_applies(4) [unfolded L]] by simp
  then show ?thesis using check_applies(1) length_removed [OF check_applies(2)] same by simp
next
  case (check_ends c s')
  then show ?thesis
    using length_removed [OF check_ends(2)] checker_end_lock [OF check_ends(4) [unfolded L]] ends by simp
next
  case (check_blocks c s')
  then show ?thesis
    using length_removed [OF check_blocks(2)] checker_end_lock [OF check_blocks(4) [unfolded L]] ends by simp
qed (use same in simp_all)

section \<open>One check at a time\<close>

text \<open>
  While all intervals are positive and no lease in use is lost, a session is that of the owner, and a
  running check is the only one of an instance with a session.
\<close>

definition lock_inv :: "'s cluster \<Rightarrow> bool" where
  "lock_inv c \<longleftrightarrow> (\<forall>i. cc_session (cl_store c) i \<longrightarrow> lk_owner (cl_store c) = Some i) \<and>
     (\<forall>i. length (running c i) \<le> 1 \<and> (0 < length (running c i) \<longrightarrow> cc_session (cl_store c) i))"

lemma lock_of_eq: "lock_of s = (ow, f) \<longleftrightarrow> lk_owner s = ow \<and> cc_session s = f"
  by (auto simp: lock_of_def)

lemma lock_of_cong: "lock_of s = lock_of t \<longleftrightarrow> lk_owner s = lk_owner t \<and> cc_session s = cc_session t"
  by (auto simp: lock_of_def)

lemma lock_inv_step:
  assumes inv: "lock_inv c" and pos: "\<And>i. 0 < interval_of c i" and st: "cluster_step K False c c'"
  shows "lock_inv c'"
  using st
proof cases
  case (acts L up i v)
  have se: "cc_session (cl_store c) j \<Longrightarrow> lk_owner (cl_store c) = Some j"
    and le: "length (running c j) \<le> 1" "0 < length (running c j) \<Longrightarrow> cc_session (cl_store c) j" for j
    using inv unfolding lock_inv_def by blast+
  have p: "0 < int_param (check_interval (app_params (sv_proc (cl_inst c i))))"
    using pos [of i] by (simp add: interval_of_def)
  from acts(2,3) show ?thesis
  proof (cases rule: own_step_lock)
    case same
    then have "sv_checks v = [] \<longleftrightarrow> running c i = []" by (metis inst_simps(1) length_0_conv)
    with same se le show ?thesis unfolding lock_inv_def acts(1) lock_of_cong by simp
  next
    case strays
    then have "\<not> cc_session (cl_store c) j" for j using se [of j] by auto
    moreover from this have "running c j = []" for j using le(2) [of j] by blast
    ultimately show ?thesis using strays by (auto simp: lock_inv_def acts(1) lock_of_eq)
  next
    case begins
    then have own: "lk_owner (cl_store c) = None" using p by simp
    then have "\<not> cc_session (cl_store c) j" for j using se [of j] by auto
    moreover from this have "running c j = []" for j using le(2) [of j] by blast
    ultimately show ?thesis using begins p by (auto simp: lock_inv_def acts(1) lock_of_eq)
  next
    case fails
    then show ?thesis using p by simp
  next
    case ends
    have n: "Suc (length (sv_checks v)) = length (running c i)" using ends(1) by simp
    have ci: "cc_session (cl_store c) i" by (rule le(2)) (use n in linarith)
    have v: "sv_checks v = []" using n le(1) [of i] by (metis One_nat_def Suc_le_mono le_zero_eq length_0_conv)
    have cj: "\<not> cc_session (cl_store c) j" if "j \<noteq> i" for j using se [OF ci] se [of j] that by auto
    then have "running c j = []" if "j \<noteq> i" for j using le(2) [of j] that by blast
    then show ?thesis
      using ends(2) p v ci cj by (auto simp: lock_inv_def acts(1) lock_of_def released_def)
  qed
next
  case (stray_first i)
  then have "\<not> cc_session (cl_store c) j" for j using inv unfolding lock_inv_def by (metis option.distinct(1))
  then show ?thesis using inv by (simp add: lock_inv_def stray_first(1))
next
  case (stray_ends i)
  then have "\<not> cc_session (cl_store c) j" for j using inv unfolding lock_inv_def by (metis option.inject)
  then show ?thesis using inv by (simp add: lock_inv_def stray_ends(1))
qed simp

lemma cluster_invariant:
  assumes "cluster_reachable K lossy ok c0 c" "P c0"
    and "\<And>c c'. P c \<Longrightarrow> ok c \<Longrightarrow> cluster_step K lossy c c' \<Longrightarrow> P c'"
  shows "P c"
  using assms(1) by induction (use assms(2,3) in blast)+

section \<open>No check ever\<close>

text \<open>An instance holds the lock and has no check that could release it.\<close>

definition lock_stuck :: "nat \<Rightarrow> 's cluster \<Rightarrow> bool" where
  "lock_stuck i c \<longleftrightarrow> lk_owner (cl_store c) = Some i \<and> (\<forall>j. cc_session (cl_store c) j \<longleftrightarrow> j = i) \<and>
     (\<forall>j. running c j = []) \<and> checks_alive (cl_inst c i) = 0"

lemma lock_stuck_step:
  assumes inv: "lock_stuck i c" and pos: "\<And>j. j \<noteq> i \<Longrightarrow> 0 < interval_of c j" and st: "cluster_step K False c c'"
  shows "lock_stuck i c'"
  using st
proof cases
  case (acts L up k v)
  have ow: "lk_owner (cl_store c) = Some i" and se: "\<And>j. cc_session (cl_store c) j \<longleftrightarrow> j = i"
    and none: "\<And>j. running c j = []" and al: "checks_alive (cl_inst c i) = 0"
    using inv by (simp_all add: lock_stuck_def)
  have tm: "timers (sv_proc (inst_at c k)) \<noteq> [] \<Longrightarrow> k \<noteq> i"
    using al by (auto simp: checks_alive_def inst_at_def)
  from acts(2,3) show ?thesis
  proof (cases rule: own_step_lock)
    case same
    then have "sv_checks v = []" using none by simp
    moreover have "k = i \<Longrightarrow> checks_alive v = 0" using own_step_checks_alive [OF acts(3)] al by simp
    ultimately show ?thesis
      using same(1) ow se none al by (auto simp: lock_stuck_def acts(1) lock_of_cong)
  next
    case strays
    then show ?thesis using ow by simp
  next
    case begins
    then show ?thesis using tm pos [of k] ow by (simp add: interval_of_def)
  next
    case fails
    then show ?thesis using tm pos [of k] by (simp add: interval_of_def)
  next
    case ends
    then show ?thesis using none by simp
  qed
qed (use inv in \<open>simp_all add: lock_stuck_def\<close>)

text \<open>
  How it comes to that: the interval is set to zero while the check runs, so \<open>hb_checker\<close> does not
  unlock at its end.
\<close>

lemma stuck_after_end:
  assumes own: "lk_owner (cl_store c) = Some i" "\<And>j. cc_session (cl_store c) j \<longleftrightarrow> j = i"
    and one: "running c i = [ck]" "\<And>j. j \<noteq> i \<Longrightarrow> running c j = []"
    and idle: "timers (sv_proc (cl_inst c i)) = []" "sv_blocked (cl_inst c i) = []"
    and patch: "lb_kv L = etcd_kvi up i K" "serve L tag url r (sv_proc (inst_at c i)) = (w, s1)"
      "int_param (check_interval (app_params s1)) \<le> 0"
    and fin: "checker_end (etcd_kvi up' i K) (ck_scan ck) s1 = (s2, True)"
  shows "lock_stuck i (inst_put i ((inst_at c i)\<lparr>sv_proc := s2, sv_checks := []\<rparr>) c)"
proof -
  have "lock_of (kvs s1) = lock_of (cl_store c)"
    using lock.serve_part [OF patch(1), of tag url r "sv_proc (inst_at c i)"] patch(2) by simp
  then have lk: "lock_of (kvs s2) = lock_of (cl_store c)" using checker_end_lock [OF fin] patch(3) by simp
  have "timers s1 = []"
    using serve_control [of "sv_proc (inst_at c i)" L tag url r] patch(2) idle(1)
    by (simp add: same_control_def inst_at_def)
  then have "timers s2 = []" using checker_end_simps(8) [OF fin] patch(3) by simp
  then show ?thesis
    using lk own one(2) idle(2) by (simp add: lock_stuck_def lock_of_cong checks_alive_def inst_at_def)
qed

section \<open>An instance among others\<close>

text \<open>
  For one instance the steps of the others are writes to the store: \<open>service_step\<close> describes it in
  any company.
\<close>

lemma cluster_inv_step:
  assumes K: "kvi_store K view" and inv: "\<forall>i. service_inv (\<lambda>s. view (lk_base s)) (inst_at c i)"
    and st: "cluster_step K lossy c c'"
  shows "\<forall>i. service_inv (\<lambda>s. view (lk_base s)) (inst_at c' i)"
  using st
proof cases
  case (acts L up i v)
  have L: "kvi_store (lb_kv L) (\<lambda>s. view (lk_base s))"
    unfolding acts(2) by (rule kvi_store.etcd_kvi_store [OF K])
  have me: "service_inv (\<lambda>s. view (lk_base s)) v"
    by (rule service_inv_step [OF L _ service_step.own [OF acts(3)]]) (use inv in blast)
  have "service_inv (\<lambda>s. view (lk_base s)) (inst_at c' j)" for j
  proof (cases "j = i")
    case True
    then show ?thesis using me by (simp add: acts(1) inst_at_def)
  next
    case False
    have "stored_ok (view (lk_base (kvs (sv_proc v))))" using me by (simp add: service_inv_def)
    then have "service_step L (\<lambda>s. view (lk_base s)) (inst_at c j)
        ((inst_at c j)\<lparr>sv_proc := (sv_proc (inst_at c j))\<lparr>kvs := kvs (sv_proc v)\<rparr>\<rparr>)"
      by (rule service_step.other_instance)
    moreover have "(inst_at c j)\<lparr>sv_proc := (sv_proc (inst_at c j))\<lparr>kvs := kvs (sv_proc v)\<rparr>\<rparr> = inst_at c' j"
      using False by (simp add: acts(1) inst_at_def)
    ultimately show ?thesis using service_inv_step [OF L] inv by metis
  qed
  then show ?thesis by blast
qed (use inv in \<open>simp_all add: service_inv_def inst_at_def held_good_def checks_alive_def\<close>)

lemma cluster_inv_start:
  assumes "kvi_store K view" "stored_ok (view (lk_base (cl_store c)))"
    and "\<forall>i. \<exists>up getenv fl ready opens rnd kv s key. stored_ok (view (lk_base kv)) \<and>
      main_start (etcd_kvi up i K) getenv fl ready opens rnd kv = Serving s key \<and> cl_inst c i = service_start s"
  shows "service_inv (\<lambda>s. view (lk_base s)) (inst_at c i)"
proof -
  obtain up getenv fl ready opens rnd kv s key where s: "stored_ok (view (lk_base kv))"
    "main_start (etcd_kvi up i K) getenv fl ready opens rnd kv = Serving s key" "cl_inst c i = service_start s"
    using assms(3) by blast
  have "service_inv (\<lambda>s. view (lk_base s)) (service_start s)"
    by (rule service_inv_start [OF kvi_store.etcd_kvi_store [OF assms(1)] s(1,2)])
  then show ?thesis using assms(2) s(3)
    by (simp add: service_inv_def inst_at_def held_good_def checks_alive_def)
qed

section \<open>Properties\<close>

text \<open>On a store that does not fail, with all calls of the lock answered, a check opens when the lock is free.\<close>

definition all_up :: etcd_calls where
  "all_up = \<lparr>ec_grant = None, ec_session = None, ec_lock = None, ec_unlock = None, ec_close = None\<rparr>"

lemma opens_free:
  assumes "kvi_reliable K view" "lk_owner (kvs s) = None" "\<not> cc_session (kvs s) j"
    and "0 < int_param (check_interval (app_params s))"
  obtains kvl s' where "checker_open (etcd_kvi all_up j K) s = (Some kvl, s')"
proof -
  let ?K = "etcd_kvi all_up j K" and ?n = "int64 (int_param (check_interval (app_params s)) * 2)"
  obtain err kv where l: "kv_timed_lock ?K ?n (kvs s) = (err, kv)" by (metis prod.exhaust)
  have e: "err = None"
    using l assms(2,3) by (simp add: etcd_kvi_def DistTimedLock_def mutex_lock_def all_up_def)
  obtain l2 e2 kv2 where g: "kv_get_range ?K HB_KEYRANGE_START HB_KEYRANGE_END kv = ((l2, e2), kv2)"
    by (metis prod.exhaust)
  have "e2 = None"
    using kvi_reliable.range_never [OF kvi_reliable.etcd_kvi_reliable [OF assms(1)], of all_up j HB_KEYRANGE_START
        HB_KEYRANGE_END kv] g by simp
  then show ?thesis using that l e g assms(4) by (simp add: checker_open_def Let_def)
qed

text \<open>
  C4: The lock does its work while its lease lasts. As long as the check interval of every instance
  stays positive and no instance loses the lease of a lock it holds, never are two checks running at
  once anywhere: neither on two instances nor twice on one, whatever the instances do, and also when
  calls of the lock fail and leave a key behind that owns the lock until its lease ends. (What a lost
  lease does is shown by \<open>checks_overlap_after_lease\<close>.)
\<close>

theorem checks_exclude:
  assumes "\<forall>i. running c0 i = []" "\<forall>i. \<not> cc_session (cl_store c0) i"
    and "cluster_reachable K False (\<lambda>c. \<forall>i. 0 < interval_of c i) c0 c"
  shows "length (running c i) \<le> 1 \<and> (running c i \<noteq> [] \<and> running c j \<noteq> [] \<longrightarrow> i = j)"
proof -
  have "lock_inv c"
    using assms(3)
  proof (rule cluster_invariant [where P = lock_inv])
    show "lock_inv c0" using assms(1,2) by (simp add: lock_inv_def)
  qed (use lock_inv_step in blast)
  then have le: "length (running c i) \<le> 1" and ow: "\<And>k. running c k \<noteq> [] \<Longrightarrow> lk_owner (cl_store c) = Some k"
    unfolding lock_inv_def by blast+
  show ?thesis using le ow [of i] ow [of j] by auto
qed

definition dist_lib :: "nat \<Rightarrow> mem dist lib" where
  "dist_lib i =
     \<lparr>lb_kv = etcd_kvi all_up i mem_kvi, lb_clk = (\<lambda>n. 100), lb_valid_xname = (\<lambda>x. True),
      lb_norm_xname = (\<lambda>x. x), lb_msgbus = None, lb_pprof = (\<lambda>n r w. w)\<rparr>"

definition sample_dist :: "nat option \<Rightarrow> mem dist" where
  "sample_dist ow = \<lparr>lk_base = gm_empty, lk_owner = ow, cc_session = (\<lambda>j. ow = Some j)\<rparr>"

definition two_instances :: "mem cluster" where
  "two_instances = \<lparr>cl_store = sample_dist None,
     cl_inst = (\<lambda>j. service_start ((sample_state (sample_dist None))\<lparr>timers := [5]\<rparr>))\<rparr>"

lemma sample_opens:
  "checker_open (etcd_kvi all_up 0 mem_kvi) (sample_state (sample_dist None)) =
    (Some [], sample_state (sample_dist (Some 0)))"
  by (simp add: checker_open_def etcd_kvi_def DistTimedLock_def mutex_lock_def all_up_def sample_dist_def
      sample_state_def initAppParams_def int_app_def on_base_def mem_kvi_def mem_get_range_def
      gm_entries_def gm_empty_def DAList.empty.rep_eq Let_def fun_eq_iff)

theorem checks_exclude_witness:
  "\<exists>c. cluster_step mem_kvi False two_instances c \<and> length (running c 0) = 1 \<and> running c 1 = []"
proof -
  let ?v = "inst_at two_instances 0" and ?s = "sample_state (sample_dist (Some 0))"
  have v: "sv_proc ?v = (sample_state (sample_dist None))\<lparr>timers := [5]\<rparr>"
    by (simp add: inst_at_def two_instances_def service_start_def sample_state_def)
  have t: "(5 :: int) \<in> set (timers (sv_proc ?v))" by (simp add: v)
  have e: "(sv_proc ?v)\<lparr>timers := remove1 5 (timers (sv_proc ?v))\<rparr> = sample_state (sample_dist None)"
    by (simp add: v sample_state_def)
  have "checker_open (lb_kv (dist_lib 0)) ((sv_proc ?v)\<lparr>timers := remove1 5 (timers (sv_proc ?v))\<rparr>) = (Some [], ?s)"
    unfolding e using sample_opens by (simp add: dist_lib_def)
  from own_step.check_begins [OF t this]
  have "own_step (dist_lib 0) ?v (?v\<lparr>sv_proc := ?s, sv_checks := \<lparr>ck_todo = [], ck_scan = init_scan\<rparr> # sv_checks ?v\<rparr>)" .
  from cluster_step.acts [of "dist_lib 0" all_up 0 mem_kvi _ _ False, OF _ this]
  obtain c where st: "cluster_step mem_kvi False two_instances c" and r: "running c 0 \<noteq> []"
    by (simp add: dist_lib_def)
  let ?ok = "\<lambda>c :: mem cluster. \<forall>i. 0 < interval_of c i"
  have i0: "\<forall>i. running two_instances i = []" "\<forall>i. \<not> cc_session (cl_store two_instances) i" "?ok two_instances"
    by (simp_all add: two_instances_def running_def interval_of_def service_start_def sample_dist_def
        sample_state_def initAppParams_def int_app_def)
  have "cluster_reachable mem_kvi False ?ok two_instances c"
    by (rule cluster_reachable.step [where c = two_instances]) (use cluster_reachable.start i0(3) st in blast)+
  note x = checks_exclude [OF i0(1,2) this]
  have "length (running c 0) = 1" using x [of 0 0] r by (cases "running c 0") auto
  moreover have "running c 1 = []" using x [of 0 1] r by auto
  ultimately show ?thesis using st by blast
qed

text \<open>
  C6: Checks overlap when a lease is lost. An instance runs a check and its lease ends, since the
  renewals have failed; it does not notice, as nothing watches the session. Another instance whose
  timer has run out then gets the lock and starts its own check, while the first still runs and
  believes to hold the lock: two checks work on the same records at once.
\<close>

theorem checks_overlap_after_lease:
  assumes "kvi_reliable K view" "running c i \<noteq> []" "lk_owner (cl_store c) = Some i" "cc_session (cl_store c) i"
    and "j \<noteq> i" "\<not> cc_session (cl_store c) j" "timers (sv_proc (cl_inst c j)) \<noteq> []" "0 < interval_of c j"
  shows "\<exists>c1 c2. cluster_step K True c c1 \<and> cluster_step K True c1 c2 \<and>
    running c2 i \<noteq> [] \<and> running c2 j \<noteq> [] \<and>
    lk_owner (cl_store c2) = Some j \<and> cc_session (cl_store c2) i"
proof -
  let ?c1 = "owned_by None c"
  have t: "hd (timers (sv_proc (inst_at ?c1 j))) \<in> set (timers (sv_proc (inst_at ?c1 j)))"
    using assms(7) by (simp add: inst_at_def)
  let ?t = "hd (timers (sv_proc (inst_at ?c1 j)))"
  let ?L = "\<lparr>lb_kv = etcd_kvi all_up j K, lb_clk = (\<lambda>n. 0), lb_valid_xname = (\<lambda>x. True),
      lb_norm_xname = (\<lambda>x. x), lb_msgbus = None, lb_pprof = (\<lambda>n r w. w)\<rparr>"
  let ?s = "(sv_proc (inst_at ?c1 j))\<lparr>timers := remove1 ?t (timers (sv_proc (inst_at ?c1 j)))\<rparr>"
  have ci: "0 < int_param (check_interval (app_params ?s))" using assms(8) by (simp add: interval_of_def)
  obtain kvl s' where op: "checker_open (etcd_kvi all_up j K) ?s = (Some kvl, s')"
    by (rule opens_free [OF assms(1), of ?s j]) (use assms(6) ci in simp_all)
  let ?v = "(inst_at ?c1 j)\<lparr>sv_proc := s', sv_checks := \<lparr>ck_todo = kvl, ck_scan = init_scan\<rparr> # sv_checks (inst_at ?c1 j)\<rparr>"
  have "own_step ?L (inst_at ?c1 j) ?v" by (rule own_step.check_begins [OF t]) (use op in simp)
  then have "cluster_step K True ?c1 (inst_put j ?v ?c1)" by (intro cluster_step.acts [of ?L all_up]) simp_all
  moreover have "cluster_step K True c ?c1" by (rule cluster_step.lease_lost [OF TrueI assms(3,4)])
  moreover have "lock_of (kvs s') = (Some j, (cc_session (cl_store c))(j := True))"
    using checker_open_lock [OF op ci] by simp
  ultimately show ?thesis
    using assms(2,4,5) by (intro exI [of _ ?c1] exI [of _ "inst_put j ?v ?c1"]) (simp add: lock_of_def)
qed

definition first_checks :: "mem cluster" where
  "first_checks = \<lparr>cl_store = sample_dist (Some 0),
     cl_inst = (\<lambda>j. (service_start ((sample_state (sample_dist None))\<lparr>timers := [5]\<rparr>))
       \<lparr>sv_checks := if j = 0 then [\<lparr>ck_todo = [], ck_scan = init_scan\<rparr>] else []\<rparr>)\<rparr>"

theorem checks_overlap_after_lease_witness:
  "\<exists>c1 c2. cluster_step mem_kvi True first_checks c1 \<and> cluster_step mem_kvi True c1 c2 \<and>
    running c2 0 \<noteq> [] \<and> running c2 1 \<noteq> []"
proof -
  have "running first_checks 0 \<noteq> []" "lk_owner (cl_store first_checks) = Some 0" "cc_session (cl_store first_checks) 0"
    "(1 :: nat) \<noteq> 0" "\<not> cc_session (cl_store first_checks) 1" "timers (sv_proc (cl_inst first_checks 1)) \<noteq> []"
    "0 < interval_of first_checks 1"
    by (simp_all add: first_checks_def running_def sample_dist_def interval_of_def service_start_def
        sample_state_def initAppParams_def int_app_def)
  from checks_overlap_after_lease [OF mem.kvi_reliable_axioms this] show ?thesis by blast
qed

text \<open>
  C12: Setting the interval of one instance to zero can end the checks of all. When the PATCH comes
  while the instance runs a check, \<open>hb_checker\<close> ends without releasing the lock it has taken, since
  it looks at the interval again before it unlocks; the instance has no further check that could
  release it, also after a later PATCH to a positive interval, and the check of every other
  instance fails to get the lock. From then on no component is ever looked at by any instance
  whose interval is positive, as long as the client of the first instance, which keeps renewing the
  lease of the lock, does not lose it.
\<close>

theorem interval_zero_stops_all:
  assumes "lk_owner (cl_store c) = Some i" "\<forall>j. cc_session (cl_store c) j \<longleftrightarrow> j = i"
    and "running c i = [ck]" "\<forall>j. j \<noteq> i \<longrightarrow> running c j = []"
    and "timers (sv_proc (cl_inst c i)) = []" "sv_blocked (cl_inst c i) = []"
    and "lb_kv L = etcd_kvi up i K" "serve L tag url r (sv_proc (inst_at c i)) = (w, s1)"
    and "int_param (check_interval (app_params s1)) \<le> 0"
    and "checker_end (etcd_kvi up' i K) (ck_scan ck) s1 = (s2, True)"
    and "cluster_reachable K False (\<lambda>c. \<forall>j. j \<noteq> i \<longrightarrow> 0 < interval_of c j)
      (inst_put i ((inst_at c i)\<lparr>sv_proc := s2, sv_checks := []\<rparr>) c) c'"
  shows "(\<forall>j. running c' j = []) \<and> lk_owner (cl_store c') = Some i"
proof -
  have "lock_stuck i c'"
    using assms(11)
  proof (rule cluster_invariant [where P = "lock_stuck i"])
    show "lock_stuck i (inst_put i ((inst_at c i)\<lparr>sv_proc := s2, sv_checks := []\<rparr>) c)"
      by (rule stuck_after_end [OF assms(1) _ assms(3) _ assms(5-10)]) (use assms(2,4) in auto)
  qed (use lock_stuck_step in blast)
  then show ?thesis by (simp add: lock_stuck_def)
qed

definition one_checking :: "mem cluster" where
  "one_checking = \<lparr>cl_store = sample_dist (Some 0),
     cl_inst = (\<lambda>j. if j = 0
       then (service_start (sample_state (sample_dist None)))\<lparr>sv_checks := [\<lparr>ck_todo = [], ck_scan = init_scan\<rparr>]\<rparr>
       else service_start ((sample_state (sample_dist None))\<lparr>timers := [5]\<rparr>))\<rparr>"

theorem interval_zero_stops_all_witness:
  "\<exists>w s1 s2. serve (dist_lib 0) False (\<lambda>u. u) (interval_patch ''0'') (sv_proc (inst_at one_checking 0)) = (w, s1) \<and>
    rw_status w = Some 200 \<and> checker_end (etcd_kvi all_up 0 mem_kvi) init_scan s1 = (s2, True) \<and>
    (\<forall>j. running (inst_put 0 ((inst_at one_checking 0)\<lparr>sv_proc := s2, sv_checks := []\<rparr>) one_checking) j = []) \<and>
    lk_owner (kvs s2) = Some 0"
proof -
  let ?s = "sv_proc (inst_at one_checking 0)"
  have L: "kvi_reliable (lb_kv (dist_lib 0)) (\<lambda>s. mem_view (lk_base s))"
    using etcd.kvi_reliable_axioms by (simp add: dist_lib_def)
  obtain w s1 where sv: "serve (dist_lib 0) False (\<lambda>u. u) (interval_patch ''0'') ?s = (w, s1)"
    "rw_status w = Some 200" "int_param (check_interval (app_params s1)) = 0"
    using interval_patch_effect [OF L, of "''0''" "\<lambda>u. u" ?s] one_digit(2) by auto
  have "hsm_q s1 = hsm_q ?s"
    using serve_control [of ?s "dist_lib 0" False "\<lambda>u. u" "interval_patch ''0''"] sv(1) by (simp add: same_control_def)
  then have "hsm_q s1 = []" by (simp add: one_checking_def inst_at_def service_start_def sample_state_def)
  then obtain s2 where fin: "checker_end (etcd_kvi all_up 0 mem_kvi) init_scan s1 = (s2, True)"
    by (auto simp: checker_end_def hsmUpdateQ_cap_def Let_def)
  let ?ck = "\<lparr>ck_todo = [], ck_scan = init_scan\<rparr>"
  have c: "lk_owner (cl_store one_checking) = Some 0" "\<forall>j. cc_session (cl_store one_checking) j \<longleftrightarrow> j = 0"
    "running one_checking 0 = [?ck]" "\<forall>j. j \<noteq> 0 \<longrightarrow> running one_checking j = []"
    "timers (sv_proc (cl_inst one_checking 0)) = []" "sv_blocked (cl_inst one_checking 0) = []"
    by (simp_all add: one_checking_def sample_dist_def running_def service_start_def sample_state_def)
  have l: "lb_kv (dist_lib 0) = etcd_kvi all_up 0 mem_kvi" "int_param (check_interval (app_params s1)) \<le> 0"
    "checker_end (etcd_kvi all_up 0 mem_kvi) (ck_scan ?ck) s1 = (s2, True)"
    using sv(3) fin by (simp_all add: dist_lib_def)
  from interval_zero_stops_all [OF c l(1) sv(1) l(2,3) cluster_reachable.start]
  have "(\<forall>j. running (inst_put 0 ((inst_at one_checking 0)\<lparr>sv_proc := s2, sv_checks := []\<rparr>) one_checking) j = []) \<and>
    lk_owner (cl_store (inst_put 0 ((inst_at one_checking 0)\<lparr>sv_proc := s2, sv_checks := []\<rparr>) one_checking)) = Some 0"
    by simp
  then show ?thesis using sv(1,2) fin by simp
qed

text \<open>
  C5: The invariant of all instances. In every state that any number of started instances reaches
  on one store, whatever each of them does, whichever calls fail and whatever leases are lost, the
  record under a tracked key is complete and names the component of the key, or what JSON makes of a
  name that is not valid UTF-8; every instance has at most one check armed, running or waiting, and
  no queue of an instance exceeds its capacity.
\<close>

theorem cluster_service_invariant:
  assumes "kvi_store K view" "stored_ok (view (lk_base (cl_store c0)))"
    and "\<forall>i. \<exists>up getenv fl ready opens rnd kv s key. stored_ok (view (lk_base kv)) \<and>
      main_start (etcd_kvi up i K) getenv fl ready opens rnd kv = Serving s key \<and> cl_inst c0 i = service_start s"
    and "cluster_reachable K lossy (\<lambda>c. True) c0 c"
  shows "stored_ok (view (lk_base (cl_store c))) \<and>
    (let v = cl_inst c i in length (timers (sv_proc v)) + length (sv_checks v) + length (sv_blocked v) \<le> 1 \<and>
       length (hsm_q (sv_proc v)) \<le> hsmUpdateQ_cap \<and>
       length (nt_telemetry (notif (sv_proc v))) \<le> telemetryQ_cap)"
proof -
  have "\<forall>i. service_inv (\<lambda>s. view (lk_base s)) (inst_at c i)"
    using assms(4)
  proof (rule cluster_invariant)
    show "\<forall>i. service_inv (\<lambda>s. view (lk_base s)) (inst_at c0 i)"
      using cluster_inv_start [OF assms(1-3)] by blast
  qed (use cluster_inv_step [OF assms(1)] in blast)
  then have "service_inv (\<lambda>s. view (lk_base s)) (inst_at c i)" by blast
  then show ?thesis by (simp add: service_inv_def checks_alive_def inst_at_def Let_def)
qed

definition started_at :: "nat \<Rightarrow> mem dist hbtd" where
  "started_at i = (case main_start (etcd_kvi all_up i mem_kvi) (\<lambda>x. []) sample_flags (\<lambda>n. True) (\<lambda>ix. True)
     i (sample_dist None) of Serving s key \<Rightarrow> s | _ \<Rightarrow> sample_state (sample_dist None))"

theorem cluster_service_invariant_witness:
  "stored_ok (mem_view (lk_base (sample_dist None))) \<and> length (timers (started_at 3)) \<le> 1"
proof -
  let ?c = "\<lparr>cl_store = sample_dist None, cl_inst = (\<lambda>i. service_start (started_at i))\<rparr>"
  have e: "stored_ok (mem_view (lk_base (sample_dist None)))"
    by (simp add: sample_dist_def stored_ok_def mem_view_empty)
  have st: "main_start (etcd_kvi all_up i mem_kvi) (\<lambda>x. []) sample_flags (\<lambda>n. True) (\<lambda>ix. True) i
      (sample_dist None) = Serving (started_at i) (createInstanceKey i)" for i
    using start_sample [OF etcd.kvi_reliable_axioms, of all_up i "\<lambda>x. []" "i" "sample_dist None"]
    by (auto simp: started_at_def)
  have w: "stored_ok (mem_view (lk_base (cl_store ?c)))" using e by simp
  have "\<forall>i. \<exists>up getenv fl ready opens rnd kv s key. stored_ok (mem_view (lk_base kv)) \<and>
      main_start (etcd_kvi up i mem_kvi) getenv fl ready opens rnd kv = Serving s key \<and> cl_inst ?c i = service_start s"
    using e st by (intro allI exI conjI) auto
  from cluster_service_invariant [OF mem.kvi_store_axioms w this cluster_reachable.start, of 3]
  show ?thesis using e by (simp add: Let_def service_start_def)
qed

end
