(* ===== verification/Xname.thy ===== *)
theory Xname
  imports Checker_Passes
begin

text \<open>
  Names of components, from the vendored \<open>hms-xname\<close> (\<open>xnametypes/hmstypes.go\<close>): which names
  \<open>GetHMSType\<close> recognises, which \<open>hbRcv\<close> asks, and their normal form \<open>NormalizeHMSCompID\<close>, which
  the handlers with a name in the URL use. They instantiate the arguments \<open>valid_xname\<close> and
  \<open>norm_xname\<close> of the handlers.
\<close>

section \<open>The recognition table\<close>

text \<open>
  The regular expressions of the table are anchored sequences of character classes, with
  repetitions: \<open>[..]\<close>, \<open>[..]*\<close>, up to \<open>n\<close> of \<open>[..]\<close>, and \<open>.\<close> (a rune other than the newline).
\<close>

datatype atom = Cls string | Star string | Upto nat string | AnyRune

function rx_match :: "atom list \<Rightarrow> string \<Rightarrow> bool" where
  "rx_match [] s = (s = [])"
| "rx_match (Cls cs # as) [] = False"
| "rx_match (Cls cs # as) (c # s) = (c \<in> set cs \<and> rx_match as s)"
| "rx_match (Star cs # as) [] = rx_match as []"
| "rx_match (Star cs # as) (c # s) = (rx_match as (c # s) \<or> c \<in> set cs \<and> rx_match (Star cs # as) s)"
| "rx_match (Upto n cs # as) [] = rx_match as []"
| "rx_match (Upto n cs # as) (c # s) =
     (rx_match as (c # s) \<or> 0 < n \<and> c \<in> set cs \<and> rx_match (Upto (n - 1) cs # as) s)"
| "rx_match (AnyRune # as) [] = False"
| "rx_match (AnyRune # as) (c # s) =
     (c \<noteq> CHR 0x0A \<and> rx_match as (drop (max 1 (rune_len (c # s)) - 1) s))"
  by pat_completeness auto
termination
  by (relation "measure (\<lambda>(as, s). length as + length s)") auto

definition digits :: string where "digits = ''0123456789''"

definition nums :: "atom list" where "nums = [Cls digits, Star digits]"

definition pos :: "atom list" where "pos = [Cls ''123456789'', Star digits]"

definition seg :: "string \<Rightarrow> atom list \<Rightarrow> atom list" where "seg cs as = Cls cs # as"

definition literal :: "string \<Rightarrow> atom list" where "literal s = map (\<lambda>c. Cls [c]) s"

definition xX :: "atom list" where "xX = seg ''x'' [Cls digits, Upto 3 digits]"

definition xXcC :: "atom list" where "xXcC = xX @ seg ''c'' [Cls ''01234567'']"

text \<open>
  The types with their expressions, two for the one with an optional group. The entry
  \<open>HMSTypeInvalid\<close>, whose expression is the text \<open>INVALID\<close>, gives what an unrecognised name gives.
\<close>

definition hmsCompRecognitionTable :: "(string \<times> atom list list) list" where
  "hmsCompRecognitionTable =
     [(''All'', [literal ''all'']),
      (''AllSvc'', [literal ''all_svc'']),
      (''AllComp'', [literal ''all_comp'']),
      (''Partition'', [seg ''p'' nums, seg ''p'' nums @ AnyRune # nums]),
      (''System'', [literal ''s0'']),
      (''SMSBox'', [literal ''sms'' @ nums]),
      (''CDU'', [seg ''d'' nums]),
      (''CDUMgmtSwitch'', [seg ''d'' nums @ seg ''w'' nums]),
      (''CabinetCDU'', [xX @ seg ''d'' [Cls ''01'']]),
      (''CabinetPDUController'', [xX @ seg ''m'' [Cls ''0123'']]),
      (''CabinetPDU'', [xX @ seg ''m'' [Cls ''0123''] @ seg ''p'' [Cls ''01234567'']]),
      (''CabinetPDUNic'', [xX @ seg ''m'' [Cls ''0123''] @ seg ''i'' [Cls ''0123'']]),
      (''CabinetPDUOutlet'', [xX @ seg ''m'' [Cls ''0123''] @ seg ''p'' [Cls ''01234567''] @ seg ''j'' pos]),
      (''CabinetPDUPowerConnector'', [xX @ seg ''m'' [Cls ''0123''] @ seg ''p'' [Cls ''01234567''] @ seg ''v'' pos]),
      (''CEC'', [xX @ seg ''e'' [Cls ''01'']]),
      (''Cabinet'', [xX]),
      (''CabinetBMC'', [xX @ seg ''b'' [Cls ''0'']]),
      (''Chassis'', [xXcC]),
      (''ChassisBMC'', [xXcC @ seg ''b'' [Cls ''0'']]),
      (''ChassisBMCNic'', [xXcC @ seg ''b'' [Cls ''0''] @ seg ''i'' [Cls ''0123'']]),
      (''CMMFpga'', [xXcC @ seg ''f'' [Cls ''0'']]),
      (''CMMRectifier'', [xXcC @ seg ''t'' [Cls ''0123456789'']]),
      (''ComputeModule'', [xXcC @ seg ''s'' nums]),
      (''StorageGroup'', [xXcC @ seg ''s'' nums @ seg ''b'' nums @ seg ''n'' nums @ seg ''g'' nums]),
      (''Drive'', [xXcC @ seg ''s'' nums @ seg ''b'' nums @ seg ''n'' nums @ seg ''g'' nums @ seg ''k'' nums]),
      (''NodeFpga'', [xXcC @ seg ''s'' nums @ seg ''b'' nums @ seg ''f'' [Cls ''0'']]),
      (''NodeBMC'', [xXcC @ seg ''s'' nums @ seg ''b'' nums]),
      (''NodeBMCNic'', [xXcC @ seg ''s'' nums @ seg ''b'' nums @ seg ''i'' [Cls ''0123'']]),
      (''NodeEnclosure'', [xXcC @ seg ''s'' nums @ seg ''e'' nums]),
      (''NodeEnclosurePowerSupply'', [xXcC @ seg ''s'' nums @ seg ''e'' nums @ seg ''t'' nums]),
      (''NodePowerConnector'', [xXcC @ seg ''s'' nums @ seg ''jv'' [Cls ''12'']]),
      (''HSNBoard'', [xXcC @ seg ''r'' nums @ seg ''e'' nums]),
      (''Node'', [xXcC @ seg ''s'' nums @ seg ''b'' nums @ seg ''n'' nums]),
      (''VirtualNode'', [xXcC @ seg ''s'' nums @ seg ''b'' nums @ seg ''n'' nums @ seg ''v'' nums]),
      (''NodeNic'', [xXcC @ seg ''s'' nums @ seg ''b'' nums @ seg ''n'' nums @ seg ''i'' [Cls ''0123'']]),
      (''NodeHsnNic'', [xXcC @ seg ''s'' nums @ seg ''b'' nums @ seg ''n'' nums @ seg ''h'' [Cls ''0123'']]),
      (''NodeAccel'', [xXcC @ seg ''s'' nums @ seg ''b'' nums @ seg ''n'' nums @ seg ''a'' nums]),
      (''NodeAccelRiser'', [xXcC @ seg ''s'' nums @ seg ''b'' nums @ seg ''n'' nums @ seg ''r'' [Cls ''01234567'']]),
      (''Memory'', [xXcC @ seg ''s'' nums @ seg ''b'' nums @ seg ''n'' nums @ seg ''d'' nums]),
      (''Processor'', [xXcC @ seg ''s'' nums @ seg ''b'' nums @ seg ''n'' nums @ seg ''p'' [Cls ''0123'']]),
      (''RouterModule'', [xXcC @ seg ''r'' nums]),
      (''RouterFpga'', [xXcC @ seg ''r'' nums @ seg ''f'' [Cls ''01'']]),
      (''RouterTOR'', [xXcC @ seg ''r'' nums @ seg ''t'' nums]),
      (''RouterTORFpga'', [xXcC @ seg ''r'' nums @ seg ''t'' nums @ seg ''f'' [Cls ''01'']]),
      (''RouterBMC'', [xXcC @ seg ''r'' nums @ seg ''b'' nums]),
      (''RouterBMCNic'', [xXcC @ seg ''r'' nums @ seg ''b'' nums @ seg ''i'' [Cls ''0123'']]),
      (''RouterPowerConnector'', [xXcC @ seg ''r'' nums @ seg ''v'' [Cls ''12'']]),
      (''HSNAsic'', [xXcC @ seg ''r'' nums @ seg ''a'' [Cls ''0123'']]),
      (''HSNConnector'', [xXcC @ seg ''r'' nums @ seg ''j'' pos]),
      (''HSNConnectorPort'', [xXcC @ seg ''r'' nums @ seg ''j'' pos @ seg ''p'' [Cls ''012'']]),
      (''HSNLink'', [xXcC @ seg ''r'' nums @ seg ''a'' [Cls ''0123''] @ seg ''l'' nums]),
      (''MgmtSwitch'', [xXcC @ seg ''w'' pos]),
      (''MgmtSwitchConnector'', [xXcC @ seg ''w'' pos @ seg ''j'' pos]),
      (''MgmtHLSwitchEnclosure'', [xXcC @ seg ''h'' pos]),
      (''MgmtHLSwitch'', [xXcC @ seg ''h'' pos @ seg ''s'' [Cls ''123456789'']])]"

definition HMSTypeInvalid :: string where "HMSTypeInvalid = ''INVALID''"

definition GetHMSType :: "string \<Rightarrow> string" where
  "GetHMSType xname =
     (case find (\<lambda>(t, res). list_ex (\<lambda>re. rx_match re xname) res) hmsCompRecognitionTable of
        None \<Rightarrow> HMSTypeInvalid | Some (t, _) \<Rightarrow> t)"

definition hms_valid :: "string \<Rightarrow> bool" where
  "hms_valid xname \<longleftrightarrow> GetHMSType xname \<noteq> HMSTypeInvalid"

section \<open>The normal form\<close>

text \<open>
  \<open>unicode.IsNumber\<close> of a byte taken as a rune, and the white space of \<open>strings.TrimSpace\<close> in ASCII.
\<close>

definition is_number :: "char \<Rightarrow> bool" where
  "is_number c \<longleftrightarrow> 48 \<le> byte_of c \<and> byte_of c \<le> 57 \<or> byte_of c \<in> {0xB2, 0xB3, 0xB9, 0xBC, 0xBD, 0xBE}"

definition is_space :: "char \<Rightarrow> bool" where
  "is_space c \<longleftrightarrow> byte_of c \<in> {9, 10, 11, 12, 13, 32}"

definition trim_space :: "string \<Rightarrow> string" where
  "trim_space s = rev (dropWhile is_space (rev (dropWhile is_space s)))"

text \<open>The loop of \<open>RemoveLeadingZeros\<close>; the flag is \<open>lastLetter\<close>.\<close>

fun remove_zeros :: "bool \<Rightarrow> string \<Rightarrow> string" where
  "remove_zeros lastLetter (c # d # s) =
     (if c = CHR ''0'' \<and> lastLetter \<and> is_number d then remove_zeros lastLetter (d # s)
      else c # remove_zeros (\<not> is_number c) (d # s))"
| "remove_zeros lastLetter s = s"

definition RemoveLeadingZeros :: "string \<Rightarrow> string" where
  "RemoveLeadingZeros s = remove_zeros True s"

text \<open>Names with other than ASCII characters are left to \<open>other\<close>, which needs Unicode's tables.\<close>

definition NormalizeHMSCompID :: "(string \<Rightarrow> string) \<Rightarrow> string \<Rightarrow> string" where
  "NormalizeHMSCompID other xname =
     (if ascii xname then to_lower (RemoveLeadingZeros (trim_space xname)) else other xname)"

section \<open>Recognised names\<close>

text \<open>Every expression begins with a cabinet, \<open>x\<close> and a digit, or with a letter before \<open>x\<close>.\<close>

fun begins :: "atom list \<Rightarrow> bool" where
  "begins (Cls cs # as) \<longleftrightarrow>
     (if cs = ''x'' then (\<exists>bs. as = Cls digits # bs) else length cs = 1 \<and> hd cs < CHR ''x'')"
| "begins as \<longleftrightarrow> False"

lemmas table_defs = hmsCompRecognitionTable_def seg_def literal_def xX_def xXcC_def nums_def pos_def

lemma table_begins: "list_all (\<lambda>(t, res). list_all begins res) hmsCompRecognitionTable"
  by (simp add: table_defs)

lemma begins_match:
  assumes "begins re" "rx_match re x"
  shows "(\<exists>d s. x = CHR ''x'' # d # s \<and> d \<in> set digits) \<or> (\<exists>c s. x = c # s \<and> c < CHR ''x'')"
proof -
  obtain cs as where re: "re = Cls cs # as" using assms(1) by (cases re rule: begins.cases) auto
  obtain c s where x: "x = c # s" "c \<in> set cs" "rx_match as s"
    using assms(2) by (cases x) (auto simp: re)
  show ?thesis
  proof (cases "cs = ''x''")
    case True
    then obtain bs where "as = Cls digits # bs" using assms(1) by (auto simp: re)
    then obtain d s' where "s = d # s'" "d \<in> set digits" using x(3) by (cases s) auto
    with x True show ?thesis by auto
  next
    case False
    then obtain b where "cs = [b]" "b < CHR ''x''"
      using assms(1) by (cases cs) (auto simp: re)
    with x show ?thesis by auto
  qed
qed

lemma hms_valid_begins:
  assumes "hms_valid x"
  shows "(\<exists>d s. x = CHR ''x'' # d # s \<and> d \<in> set digits) \<or> (\<exists>c s. x = c # s \<and> c < CHR ''x'')"
proof -
  obtain t res where "(t, res) \<in> set hmsCompRecognitionTable" "list_ex (\<lambda>re. rx_match re x) res"
    using assms by (auto simp: hms_valid_def GetHMSType_def find_Some_iff split: option.splits)
      (metis nth_mem)
  moreover from this(1) have "list_all begins res" using table_begins by (auto simp: list_all_iff)
  ultimately obtain re where "begins re" "rx_match re x" by (auto simp: list_ex_iff list_all_iff)
  then show ?thesis by (rule begins_match)
qed

lemma cabinet_in_range: "d \<in> set digits \<Longrightarrow> in_range (CHR ''x'' # d # s)"
  by (auto simp: digits_def in_range_def HB_KEYRANGE_START_def HB_KEYRANGE_END_def)

lemma before_x_out: "c < CHR ''x'' \<Longrightarrow> \<not> HB_KEYRANGE_START \<le> c # s"
  by (auto simp: HB_KEYRANGE_START_def)

section \<open>The normal form is normal\<close>

lemma remove_zeros_keep: "\<not> is_number d \<Longrightarrow> \<exists>t. remove_zeros l (d # s) = d # t"
  by (cases s) (auto simp: is_number_def)

lemma remove_zeros_nonempty: "remove_zeros l (d # s) \<noteq> []"
  by (induction l "d # s" arbitrary: d s rule: remove_zeros.induct) auto

lemma remove_zeros_again: "remove_zeros l (remove_zeros l s) = remove_zeros l s"
proof (induction l s rule: remove_zeros.induct)
  case (1 l c d s)
  show ?case
  proof (cases "c = CHR ''0'' \<and> l \<and> is_number d")
    case False
    obtain e t where et: "remove_zeros (\<not> is_number c) (d # s) = e # t"
      using remove_zeros_nonempty by (meson list.exhaust)
    have "\<not> (c = CHR ''0'' \<and> l \<and> is_number e)"
      using False remove_zeros_keep [of d "\<not> is_number c" s] et by auto
    then show ?thesis using 1(2) False et by auto
  qed (use 1(1) in simp)
qed simp_all

lemma lower_number [simp]: "is_number (lower_byte c) = is_number c"
  by (simp add: is_number_def lower_byte_def)

lemma lower_zero [simp]: "lower_byte c = CHR ''0'' \<longleftrightarrow> c = CHR ''0''"
proof (cases "65 \<le> byte_of c \<and> byte_of c \<le> 90")
  case True
  then have "\<not> is_number c" by (auto simp: is_number_def)
  moreover have "is_number CHR ''0''" by (simp add: is_number_def)
  ultimately show ?thesis using lower_number by metis
qed (auto simp: lower_byte_def)

lemma lower_space [simp]: "is_space (lower_byte c) = is_space c"
  by (auto simp: is_space_def lower_byte_def)

lemma lower_again [simp]: "lower_byte (lower_byte c) = lower_byte c"
  by (simp add: lower_byte_def)

lemma remove_zeros_lower: "remove_zeros l (map lower_byte s) = map lower_byte (remove_zeros l s)"
  by (induction l s rule: remove_zeros.induct) simp_all

lemma last_remove_zeros: "s \<noteq> [] \<Longrightarrow> last (remove_zeros l s) = last s \<and> remove_zeros l s \<noteq> []"
  by (induction l s rule: remove_zeros.induct) auto

lemma hd_remove_zeros:
  "s \<noteq> [] \<Longrightarrow> hd (remove_zeros l s) = hd s \<or> is_number (hd (remove_zeros l s))"
proof (induction l s rule: remove_zeros.induct)
  case (1 l c d s)
  then show ?case by (cases "c = CHR ''0'' \<and> l \<and> is_number d") auto
qed simp_all

lemma number_no_space: "is_number c \<Longrightarrow> \<not> is_space c"
  by (auto simp: is_number_def is_space_def)

lemma trim_id:
  assumes "s = [] \<or> \<not> is_space (hd s) \<and> \<not> is_space (last s)"
  shows "trim_space s = s"
proof (cases "s = []")
  case False
  then have "dropWhile is_space s = s" "dropWhile is_space (rev s) = rev s"
    using assms by (simp_all add: dropWhile_eq_self_iff hd_rev)
  then show ?thesis by (simp add: trim_space_def)
qed (simp add: trim_space_def)

lemma trimmed: "trim_space s = [] \<or> \<not> is_space (hd (trim_space s)) \<and> \<not> is_space (last (trim_space s))"
proof (cases "trim_space s = []")
  case False
  define t where "t = dropWhile is_space s"
  have r: "trim_space s = rev (dropWhile is_space (rev t))" by (simp add: trim_space_def t_def)
  with False have ne: "dropWhile is_space (rev t) \<noteq> []" by simp
  then have "\<not> is_space (hd (dropWhile is_space (rev t)))" by (rule hd_dropWhile)
  then have l: "\<not> is_space (last (trim_space s))" using ne by (simp add: r last_rev)
  have "t \<noteq> []" using ne by auto
  then have h: "\<not> is_space (hd t)" unfolding t_def by (rule hd_dropWhile)
  obtain a where "rev t = a @ dropWhile is_space (rev t)" by (metis takeWhile_dropWhile_id)
  then have "t = rev (dropWhile is_space (rev t)) @ rev a" by (metis rev_append rev_rev_ident)
  then have "t = trim_space s @ rev a" by (simp only: r)
  then have "hd t = hd (trim_space s)" using False by (metis hd_append2)
  with h l show ?thesis by simp
qed simp

lemma ascii_parts:
  "ascii s \<Longrightarrow> ascii (trim_space s)" "ascii s \<Longrightarrow> ascii (remove_zeros l s)" "ascii s \<Longrightarrow> ascii (to_lower s)"
proof -
  have "set (trim_space s) \<subseteq> set s" by (auto simp: trim_space_def dest!: set_dropWhileD)
  then show "ascii s \<Longrightarrow> ascii (trim_space s)" by (auto simp: ascii_def list_all_iff)
  have "set (remove_zeros l s) \<subseteq> set s" by (induction l s rule: remove_zeros.induct) auto
  then show "ascii s \<Longrightarrow> ascii (remove_zeros l s)" by (auto simp: ascii_def list_all_iff)
  show "ascii s \<Longrightarrow> ascii (to_lower s)" by (auto simp: ascii_def list_all_iff to_lower_def lower_byte_def)
qed

lemma normalize_again:
  assumes "ascii x"
  shows "NormalizeHMSCompID other (NormalizeHMSCompID other x) = NormalizeHMSCompID other x"
proof -
  let ?t = "trim_space x" and ?n = "map lower_byte (remove_zeros True (trim_space x))"
  have n: "NormalizeHMSCompID other x = ?n"
    using assms by (simp add: NormalizeHMSCompID_def to_lower_def RemoveLeadingZeros_def)
  have a: "ascii ?n" using ascii_parts(3) [OF ascii_parts(2) [OF ascii_parts(1) [OF assms]]] by (simp add: to_lower_def)
  have "?n = [] \<or> \<not> is_space (hd ?n) \<and> \<not> is_space (last ?n)"
  proof (cases "?t = []")
    case False
    with trimmed [of x] last_remove_zeros [OF False, of True] hd_remove_zeros [OF False, of True] show ?thesis
      by (auto simp: hd_map last_map dest: number_no_space)
  qed simp
  then have "trim_space ?n = ?n" by (rule trim_id)
  moreover have "remove_zeros True ?n = ?n" by (simp add: remove_zeros_lower remove_zeros_again)
  moreover have "map lower_byte ?n = ?n" by (simp add: comp_def)
  ultimately show ?thesis
    using a assms unfolding n by (simp add: NormalizeHMSCompID_def to_lower_def RemoveLeadingZeros_def)
qed

section \<open>Properties\<close>

text \<open>
  Normalising a name is idempotent: what \<open>NormalizeHMSCompID\<close> gives for a name in ASCII, without
  the space around it, the leading zeros of its numbers and its capitals, is its own normal form.
\<close>

theorem normalize_idempotent:
  assumes "ascii x"
  shows "NormalizeHMSCompID other (NormalizeHMSCompID other x) = NormalizeHMSCompID other x"
  by (rule normalize_again [OF assms])

theorem normalize_idempotent_witness:
  "NormalizeHMSCompID (\<lambda>x. x) '' X0012c000b'' = ''x12c0b'' \<and> NormalizeHMSCompID (\<lambda>x. x) ''x12c0b'' = ''x12c0b''"
proof -
  have a: "ascii '' X0012c000b''" by (simp add: ascii_def)
  have low: "lower_byte CHR ''X'' = CHR ''x''" by code_simp
  have "to_lower (RemoveLeadingZeros (trim_space '' X0012c000b'')) = ''x12c0b''"
    by (simp add: to_lower_def RemoveLeadingZeros_def trim_space_def is_space_def is_number_def low)
      (simp add: lower_byte_def)
  then have "NormalizeHMSCompID (\<lambda>x. x) '' X0012c000b'' = ''x12c0b''"
    using a by (simp add: NormalizeHMSCompID_def)
  with normalize_idempotent [OF a, of "\<lambda>x. x"] show ?thesis by simp
qed

text \<open>
  The comment of \<open>NormalizeHMSCompID\<close> says that a name is as valid after it as before; with five
  digits a cabinet number is invalid before and valid after.
\<close>

lemma normalize_changes_validity:
  "\<not> hms_valid ''x00001'' \<and> hms_valid (NormalizeHMSCompID other ''x00001'')"
proof -
  have "NormalizeHMSCompID other ''x00001'' = ''x1''"
    by (simp add: NormalizeHMSCompID_def to_lower_def RemoveLeadingZeros_def trim_space_def
        is_space_def is_number_def lower_byte_def ascii_def)
  moreover have "GetHMSType ''x1'' = ''Cabinet''"
    by (simp add: GetHMSType_def table_defs digits_def)
  moreover have "GetHMSType ''x00001'' = HMSTypeInvalid"
    by (simp add: GetHMSType_def table_defs digits_def)
  ultimately show ?thesis by (simp add: hms_valid_def HMSTypeInvalid_def)
qed

text \<open>
  C13: Which accepted heartbeats are watched. A heartbeat that \<open>hbRcv\<close> accepts names a component of the
  recognition table; it is judged by every later pass of the checker if the name begins with \<open>x\<close>.
  The table has other names, the system, partitions, service nodes, cooling units and the words
  \<open>all\<close>, \<open>all_svc\<close> and \<open>all_comp\<close>: their heartbeats are recorded and announced, and no pass ever
  looks at them.
\<close>

theorem accepted_components_judged:
  assumes "kvi_reliable K view" "hb_parse hms_valid r = Some (c, ts, st)"
    and "hbRcv K clk hms_valid r new_response s = (w, s1)" "prior (view (kvs s)) c h0"
    and "clean_pass K view clk s1 s'"
  shows "if hd c = CHR ''x''
    then \<exists>v h. view (kvs s1) c = Some v \<and> good_rec c v h \<and>
      (\<exists>n \<ge> tick s1. kept c (fst (verdict_at clk s1 n h)) (view (kvs s') c) \<and>
         pending_in s' c = change_or (pending_in s1 c) (snd (verdict_at clk s1 n h)))
    else view (kvs s') c = view (kvs s1) c \<and> view (kvs s') c \<noteq> None \<and> pending_in s' c = pending_in s1 c"
proof -
  from kvi_reliable.updateHB_prior [OF assms(1,4), of clk URL_HEARTBEAT ts st new_response]
  have rec: "recorded view c (beat (clk (tick s)) ts st h0) s s1"
    using assms(3) hbRcv_parsed [OF assms(2), of K clk new_response s] by auto
  then obtain v where v: "view (kvs s1) c = Some v" using recordedD(1) by fastforce
  have "hms_valid c" using assms(2) by (auto simp: hb_parse_def Let_def split: prod.splits if_splits)
  note b = hms_valid_begins [OF this]
  show ?thesis
  proof (cases "hd c = CHR ''x''")
    case True
    then have rng: "in_range c" using b cabinet_in_range by auto
    have "wf_store (view (kvs s1))" using assms(5) by (simp add: clean_pass_def)
    then obtain h where h: "good_rec c v h"
      using v rng unfolding wf_store_def in_range_def by (meson less_imp_le)
    from clean_pass_effect(1) [OF assms(5) rng v h] v h True show ?thesis by auto
  next
    case False
    then have "\<not> HB_KEYRANGE_START \<le> c" using b before_x_out by auto
    with clean_pass_effect(2) [OF assms(5), of c] v False show ?thesis by simp
  qed
qed

lemma sample_valid: "hms_valid ''x0''" "hms_valid ''all''"
  by (simp_all add: hms_valid_def GetHMSType_def HMSTypeInvalid_def table_defs digits_def)

lemma sample_hms_parse: "hb_parse hms_valid sample_request = Some (''x0'', ''now'', ''OK'')"
  using sample_parse sample_valid(1) by (auto simp: hb_parse_def Let_def split: prod.splits if_splits)

lemma sample_beat_pass:
  assumes "recorded mem_view ''x0'' h (sample_store had) s1" "ascii had" "sanitize (Component h) = ''x0''"
  shows "\<exists>s'. clean_pass mem_kvi mem_view clk s1 s'"
proof -
  obtain v where v: "complete v (sane h)" "mem_view (kvs s1) = (mem_view (kvs (sample_store had)))(''x0'' \<mapsto> v)"
    using recordedD(1) [OF assms(1)] by blast
  have "good_rec ''x0'' v (sane h)" using v(1) assms(3) by (simp add: good_rec_def sane_def)
  then have wf: "wf_store (mem_view (kvs s1))" by (auto simp: wf_store_def v(2) sample_view split: if_splits)
  have n: "notif s1 = init_notify" "sm_local s1 = no_changes" "hsm_q s1 = []"
    using recordedD(2,6,7) [OF assms(1)] by (simp_all add: sample_view) (simp_all add: sample_store_def sample_state_def)
  have "seq_room (mem_view (kvs s1)) s1"
    by (simp add: seq_room_def n v(2) sample_view) (simp add: init_notify_def)
  with wf n(3) show ?thesis by (intro mem_clean_pass) (simp_all add: hsmUpdateQ_cap_def)
qed

theorem accepted_components_judged_witness:
  "\<exists>w s1 s'. hbRcv mem_kvi (\<lambda>n. 100) hms_valid sample_request new_response (sample_store HB_WARN_NONE) = (w, s1) \<and>
    clean_pass mem_kvi mem_view (\<lambda>n. 100) s1 s' \<and>
    (\<exists>v h n. good_rec ''x0'' v h \<and> kept ''x0'' (fst (verdict_at (\<lambda>n. 100) s1 n h)) (mem_view (kvs s') ''x0''))"
proof -
  let ?s = "sample_store HB_WARN_NONE"
  obtain w s1 where w: "hbRcv mem_kvi (\<lambda>n. 100) hms_valid sample_request new_response ?s = (w, s1)"
    by (metis prod.exhaust)
  have pr: "prior (mem_view (kvs ?s)) ''x0'' (sample_rec HB_WARN_NONE)"
    using sample_good [OF ascii_warnings(1)] by (simp add: prior_def sample_view good_rec_def complete_def)
  from mem.updateHB_prior [OF pr, of "\<lambda>n. 100" URL_HEARTBEAT "''now''" "''OK''" new_response] w
    hbRcv_parsed [OF sample_hms_parse, of mem_kvi "\<lambda>n. 100" new_response ?s]
  have rec: "recorded mem_view ''x0'' (beat 100 ''now'' ''OK'' (sample_rec HB_WARN_NONE)) ?s s1" by auto
  have "sanitize (Component (beat 100 ''now'' ''OK'' (sample_rec HB_WARN_NONE))) = ''x0''"
    by (simp add: sample_rec_def ascii_def)
  from sample_beat_pass [OF rec ascii_warnings(1) this]
  obtain s' where p: "clean_pass mem_kvi mem_view (\<lambda>n. 100) s1 s'" by blast
  from accepted_components_judged [OF mem.kvi_reliable_axioms sample_hms_parse w pr p] w p
  show ?thesis by auto
qed

end
