(* ===== verification/Shutdown.thy ===== *)
theory Shutdown
  imports Prelude
begin

text \<open>
  The end of the process (\<open>main\<close> of \<open>hbtd.go\<close>, from \<open>signal.Notify\<close> on): the server loop, the
  thread that waits for a signal and shuts the server down, and the wait for it before the exit.
  What the operating system and \<open>net/http\<close> do is given by the events.
\<close>

section \<open>The threads\<close>

text \<open>\<open>lf_signal\<close> is the channel \<open>c\<close>, of capacity 1; \<open>lf_idle_closed\<close> is \<open>idleConnsClosed\<close>.\<close>

datatype signal_thread = Awaiting | Shutting_down | Finished

datatype main_thread = Listening | Awaiting_idle | Gone

record life =
  lf_signal :: bool
  Running :: bool
  lf_thread :: signal_thread
  lf_idle_closed :: bool
  lf_main :: main_thread

definition life_init :: life where
  "life_init = \<lparr>lf_signal = False, Running = True, lf_thread = Awaiting, lf_idle_closed = False,
     lf_main = Listening\<rparr>"

text \<open>
  A signal arrives (\<open>signal.Notify\<close> does not block: a second one is dropped while the first is in
  the channel); the thread receives it and calls \<open>Shutdown\<close>; \<open>Shutdown\<close> returns, with or without
  an error; \<open>ListenAndServe\<close> returns, with \<open>ErrServerClosed\<close> once \<open>Shutdown\<close> has been called, or
  with another error at any time; \<open>main\<close> exits.
\<close>

datatype life_event = Signal | Receives | Shutdown_returns | Server_closed | Server_fails | Exits

fun life_step :: "life_event \<Rightarrow> life \<Rightarrow> life option" where
  "life_step Signal l = Some (l\<lparr>lf_signal := True\<rparr>)"
| "life_step Receives l =
     (if lf_thread l = Awaiting \<and> lf_signal l
      then Some (l\<lparr>lf_signal := False, Running := False, lf_thread := Shutting_down\<rparr>) else None)"
| "life_step Shutdown_returns l =
     (if lf_thread l = Shutting_down
      then Some (l\<lparr>lf_thread := Finished, lf_idle_closed := True\<rparr>) else None)"
| "life_step Server_closed l =
     (if lf_main l = Listening \<and> lf_thread l \<noteq> Awaiting then Some (l\<lparr>lf_main := Awaiting_idle\<rparr>) else None)"
| "life_step Server_fails l =
     (if lf_main l = Listening then Some (l\<lparr>lf_main := Awaiting_idle\<rparr>) else None)"
| "life_step Exits l =
     (if lf_main l = Awaiting_idle \<and> lf_idle_closed l then Some (l\<lparr>lf_main := Gone\<rparr>) else None)"

fun life_run :: "life_event list \<Rightarrow> life \<Rightarrow> life option" where
  "life_run [] l = Some l"
| "life_run (e # es) l = Option.bind (life_step e l) (life_run es)"

section \<open>What the threads know of a signal\<close>

definition signalled :: "life \<Rightarrow> bool" where
  "signalled l \<longleftrightarrow> lf_signal l \<or> lf_thread l \<noteq> Awaiting"

definition life_inv :: "life \<Rightarrow> bool" where
  "life_inv l \<longleftrightarrow> (lf_idle_closed l \<longleftrightarrow> lf_thread l = Finished) \<and> (Running l \<longleftrightarrow> lf_thread l = Awaiting) \<and>
     (lf_main l = Gone \<longrightarrow> lf_thread l = Finished)"

lemma life_step_inv: "life_inv l \<Longrightarrow> life_step e l = Some l' \<Longrightarrow> life_inv l'"
  by (cases e) (auto simp: life_inv_def split: if_splits)

lemma life_step_signalled: "life_step e l = Some l' \<Longrightarrow> signalled l' \<longleftrightarrow> signalled l \<or> e = Signal"
  by (cases e) (auto simp: signalled_def split: if_splits)

lemma life_run_inv: "life_inv l \<Longrightarrow> life_run es l = Some l' \<Longrightarrow> life_inv l'"
  by (induction es arbitrary: l) (auto simp: bind_eq_Some_conv intro: life_step_inv)

lemma life_run_signalled: "life_run es l = Some l' \<Longrightarrow> signalled l' \<longleftrightarrow> signalled l \<or> Signal \<in> set es"
  by (induction es arbitrary: l) (auto simp: bind_eq_Some_conv dest!: life_step_signalled)

text \<open>From a state that has seen a signal, the threads can go on to the exit by themselves.\<close>

lemma finished_exits:
  assumes "life_inv l" "lf_thread l = Finished"
  shows "\<exists>es l'. Signal \<notin> set es \<and> life_run es l = Some l' \<and> lf_main l' = Gone"
proof (cases "lf_main l")
  case Listening
  then show ?thesis using assms by (intro exI [of _ "[Server_closed, Exits]"]) (simp add: life_inv_def)
next
  case Awaiting_idle
  then show ?thesis using assms by (intro exI [of _ "[Exits]"]) (simp add: life_inv_def)
next
  case Gone
  then show ?thesis by (intro exI [of _ "[]"]) simp
qed

lemma run_cons:
  assumes "life_step e l = Some l1" "e \<noteq> Signal"
    and "\<exists>es l'. Signal \<notin> set es \<and> life_run es l1 = Some l' \<and> lf_main l' = Gone"
  shows "\<exists>es l'. Signal \<notin> set es \<and> life_run es l = Some l' \<and> lf_main l' = Gone"
proof -
  obtain es l' where "Signal \<notin> set es" "life_run es l1 = Some l'" "lf_main l' = Gone" using assms(3) by blast
  then show ?thesis using assms(1,2) by (intro exI [of _ "e # es"]) auto
qed

lemma shutting_exits:
  assumes "life_inv l" "lf_thread l = Shutting_down"
  shows "\<exists>es l'. Signal \<notin> set es \<and> life_run es l = Some l' \<and> lf_main l' = Gone"
proof (rule run_cons)
  show "life_step Shutdown_returns l = Some (l\<lparr>lf_thread := Finished, lf_idle_closed := True\<rparr>)"
    using assms(2) by simp
  show "\<exists>es l'. Signal \<notin> set es \<and> life_run es (l\<lparr>lf_thread := Finished, lf_idle_closed := True\<rparr>) = Some l' \<and>
      lf_main l' = Gone"
    by (rule finished_exits) (use assms in \<open>auto simp: life_inv_def\<close>)
qed simp

lemma signalled_exits:
  assumes "life_inv l" "signalled l"
  shows "\<exists>es l'. Signal \<notin> set es \<and> life_run es l = Some l' \<and> lf_main l' = Gone"
proof (cases "lf_thread l")
  case Awaiting
  show ?thesis
  proof (rule run_cons)
    show "life_step Receives l = Some (l\<lparr>lf_signal := False, Running := False, lf_thread := Shutting_down\<rparr>)"
      using Awaiting assms(2) by (simp add: signalled_def)
    show "\<exists>es l'. Signal \<notin> set es \<and>
        life_run es (l\<lparr>lf_signal := False, Running := False, lf_thread := Shutting_down\<rparr>) = Some l' \<and>
        lf_main l' = Gone"
      by (rule shutting_exits) (use assms(1) Awaiting in \<open>auto simp: life_inv_def\<close>)
  qed simp
qed (use assms shutting_exits finished_exits in blast)+

section \<open>Properties\<close>

text \<open>
  C21: The process ends exactly on a signal. From any state it can reach, the process can go on to
  its exit by itself if and only if a signal has arrived; after an error of \<open>ListenAndServe\<close>
  without a signal it therefore neither serves nor exits, but waits on \<open>idleConnsClosed\<close>, which
  only the signal's thread closes.
\<close>

theorem exits_iff_signal:
  assumes "life_run es life_init = Some l"
  shows "(\<exists>es' l'. Signal \<notin> set es' \<and> life_run es' l = Some l' \<and> lf_main l' = Gone) \<longleftrightarrow> Signal \<in> set es"
proof -
  have inv: "life_inv l"
    by (rule life_run_inv [OF _ assms]) (simp add: life_inv_def life_init_def)
  have sg: "signalled l \<longleftrightarrow> Signal \<in> set es"
    using life_run_signalled [OF assms] by (simp add: signalled_def life_init_def)
  show ?thesis
  proof
    assume "\<exists>es' l'. Signal \<notin> set es' \<and> life_run es' l = Some l' \<and> lf_main l' = Gone"
    then obtain es' l' where r: "Signal \<notin> set es'" "life_run es' l = Some l'" "lf_main l' = Gone" by blast
    then have "signalled l'" using life_run_inv [OF inv r(2)] by (simp add: life_inv_def signalled_def)
    then show "Signal \<in> set es" using life_run_signalled [OF r(2)] r(1) sg by simp
  qed (use signalled_exits [OF inv] sg in simp)
qed

theorem exits_iff_signal_witness:
  "\<exists>l. life_run [Server_fails] life_init = Some l \<and> lf_main l = Awaiting_idle \<and>
    \<not> (\<exists>es' l'. Signal \<notin> set es' \<and> life_run es' l = Some l' \<and> lf_main l' = Gone)"
proof -
  obtain l where l: "life_run [Server_fails] life_init = Some l" "lf_main l = Awaiting_idle"
    by (simp add: life_init_def)
  from exits_iff_signal [OF l(1)] l show ?thesis by simp
qed

end
