(* ===== verification/Cmdline.thy ===== *)
theory Cmdline
  imports Params
begin

text \<open>
  From the arguments of the process to its flags, as \<open>parse_cmd_line\<close> declares them and Go's
  \<open>flag\<close> package parses them, and what the process prints about its options and parameters
  (\<open>printHelp\<close>, \<open>printParams\<close>, \<open>hbtd.go\<close>).
\<close>

section \<open>Flags\<close>

text \<open>\<open>strconv.ParseBool\<close>, and \<open>strconv.ParseInt(s, 0, 64)\<close> of an integer flag.\<close>

definition parse_bool :: "string \<Rightarrow> bool option" where
  "parse_bool v =
     (if v \<in> {''1'', ''t'', ''T'', ''true'', ''TRUE'', ''True''} then Some True
      else if v \<in> {''0'', ''f'', ''F'', ''false'', ''FALSE'', ''False''} then Some False
      else None)"

definition flag_intval :: "string \<Rightarrow> int option" where
  "flag_intval v = (case parse_int v 0 64 of (i, None) \<Rightarrow> Some i | _ \<Rightarrow> None)"

definition bool_flags :: "string list" where
  "bool_flags = [''help'', ''nosm'']"

definition value_flags :: "string list" where
  "value_flags = [''debug'', ''use_telemetry'', ''telemetry_host'', ''warntime'', ''errtime'',
     ''interval'', ''port'', ''kv_url'', ''sm_url'', ''sm_retries'', ''sm_timeout'']"

text \<open>\<open>Value.Set\<close> of a declared flag; \<open>None\<close> is an invalid value.\<close>

definition set_flag :: "string \<Rightarrow> string \<Rightarrow> flags \<Rightarrow> flags option" where
  "set_flag nm v f =
     (if nm = ''help'' then map_option (\<lambda>b. f\<lparr>fl_help := b\<rparr>) (parse_bool v)
      else if nm = ''nosm'' then map_option (\<lambda>b. f\<lparr>fl_nosm := b\<rparr>) (parse_bool v)
      else if nm = ''debug'' then map_option (\<lambda>i. f\<lparr>fl_debug := i\<rparr>) (flag_intval v)
      else if nm = ''warntime'' then map_option (\<lambda>i. f\<lparr>fl_warntime := i\<rparr>) (flag_intval v)
      else if nm = ''errtime'' then map_option (\<lambda>i. f\<lparr>fl_errtime := i\<rparr>) (flag_intval v)
      else if nm = ''interval'' then map_option (\<lambda>i. f\<lparr>fl_interval := i\<rparr>) (flag_intval v)
      else if nm = ''sm_retries'' then map_option (\<lambda>i. f\<lparr>fl_sm_retries := i\<rparr>) (flag_intval v)
      else if nm = ''sm_timeout'' then map_option (\<lambda>i. f\<lparr>fl_sm_timeout := i\<rparr>) (flag_intval v)
      else if nm = ''use_telemetry'' then Some (f\<lparr>fl_use_telemetry := v\<rparr>)
      else if nm = ''telemetry_host'' then Some (f\<lparr>fl_telemetry_host := v\<rparr>)
      else if nm = ''port'' then Some (f\<lparr>fl_port := v\<rparr>)
      else if nm = ''kv_url'' then Some (f\<lparr>fl_kv_url := v\<rparr>)
      else if nm = ''sm_url'' then Some (f\<lparr>fl_sm_url := v\<rparr>)
      else None)"

text \<open>
  \<open>flag.Parse\<close>: the flags, with the arguments after them left unread; or the usage that the
  package prints for an undeclared \<open>-h\<close> (exit status 0) or after an error (exit status 2).
\<close>

datatype flag_result = Parsed flags | Usage int

text \<open>Name and value of \<open>-name=value\<close>, \<open>None\<close> for an argument without a value.\<close>

definition flag_split :: "string \<Rightarrow> string \<times> string option" where
  "flag_split s =
     (if CHR ''='' \<in> set (tl s)
      then (let (n, v) = (takeWhile (\<lambda>c. c \<noteq> CHR ''='') (tl s), dropWhile (\<lambda>c. c \<noteq> CHR ''='') (tl s))
            in (hd s # n, Some (tl v)))
      else (s, None))"

fun flag_parse :: "string list \<Rightarrow> flags \<Rightarrow> flag_result" where
  "flag_parse [] f = Parsed f"
| "flag_parse (a # rest) f =
     (if length a < 2 \<or> hd a \<noteq> CHR ''-'' then Parsed f
      else if a = ''--'' then Parsed f
      else
        let body = (if a ! 1 = CHR ''-'' then drop 2 a else tl a)
        in if body = [] \<or> hd body = CHR ''-'' \<or> hd body = CHR ''='' then Usage 2
           else
             let (nm, val) = flag_split body
             in if nm \<notin> set bool_flags \<and> nm \<notin> set value_flags
                then Usage (if nm = ''h'' then 0 else 2)
                else if nm \<in> set bool_flags
                then (case set_flag nm (case val of None \<Rightarrow> ''true'' | Some v \<Rightarrow> v) f of
                        None \<Rightarrow> Usage 2 | Some f' \<Rightarrow> flag_parse rest f')
                else (case val of
                        Some v \<Rightarrow> (case set_flag nm v f of
                                     None \<Rightarrow> Usage 2 | Some f' \<Rightarrow> flag_parse rest f')
                      | None \<Rightarrow>
                          (case rest of
                             [] \<Rightarrow> Usage 2
                           | v # rest' \<Rightarrow> (case set_flag nm v f of
                                            None \<Rightarrow> Usage 2 | Some f' \<Rightarrow> flag_parse rest' f'))))"

section \<open>What is printed\<close>

definition lines_text :: "string list \<Rightarrow> string" where
  "lines_text ls = concat (map (\<lambda>l. l @ [CHR 0x0A]) ls)"

text \<open>The text of \<open>--help\<close>; the argument is \<open>path.Base(os.Args[0])\<close>.\<close>

definition printHelp :: "string \<Rightarrow> string" where
  "printHelp app = lines_text
     [''Usage: '' @ app @ '' [options]'', [],
      ''  --help                      Help text.'',
      ''  --debug=num                 Debug level.  (Default: 0)'',
      ''  --use_telemetry=yes|no      Inject notifications into message.'',
      ''                              bus. (Default: yes)'',
      ''  --telemetry_host=h:p:t      Hostname:port:topic of telemetry service'',
      ''  --warntime=secs             Seconds before sending a warning of'',
      ''                              node heartbeat failure.  '',
      ''                              (Default: 10 seconds)'',
      ''  --errtime=secs              Seconds before sending an error of'',
      ''                              node heartbeat failure.  '',
      ''                              (Default: 30 seconds)'',
      ''  --interval=secs             Heartbeat check interval.'',
      ''                              (Default: 5 seconds)'',
      ''  --port=num                  HTTPS port to listen on.  (Default: '' @ URL_PORT @ '')'',
      ''  --kv_url=url                Key-Value service '' @ [CHR 0x27] @ ''base'' @ [CHR 0x27] @ '' URL..  (Default: '' @ KV_URL_BASE @ '')'',
      ''  --sm_url=url                State Manager '' @ [CHR 0x27] @ ''base'' @ [CHR 0x27] @ '' URL.  (Default: '' @ SM_URL_BASE @ '')'',
      ''  --sm_retries=num            Number of State Manager access retries. (Default: '' @ itoa SM_RETRIES @ '')'',
      ''  --sm_timeout=secs           State Manager access timeout. (Default: '' @ itoa SM_TIMEOUT @ '')'',
      ''  --nosm                      Don'' @ [CHR 0x27] @ ''t contact State Manager (for testing).'', []]"

text \<open>The lines of \<open>printParams\<close>, without the time stamps of the logger.\<close>

definition printParams :: "op_params \<Rightarrow> string" where
  "printParams p = lines_text
     [''debug_level    '' @ itoa (int_param (debug_level p)),
      ''nosm           '' @ itoa (int_param (nosm p)),
      ''use_telemetry  '' @ itoa (int_param (use_telemetry p)),
      ''telemetry_host '' @ string_param (telemetry_host p),
      ''warntime       '' @ itoa (int_param (warntime p)),
      ''errtime        '' @ itoa (int_param (errtime p)),
      ''port           '' @ string_param (port p),
      ''kv_url         '' @ string_param (kv_url p),
      ''interval       '' @ itoa (int_param (check_interval p)),
      ''sm_url         '' @ string_param (statemgr_url p),
      ''sm_timeout     '' @ itoa (int_param (statemgr_timeout p)),
      ''sm_retries     '' @ itoa (int_param (statemgr_retries p))]"

text \<open>
  The command line as a whole: the exit status and what the program itself printed (\<open>None\<close> when the
  \<open>flag\<close> package printed its usage), or the parameters.
\<close>

datatype cmdline = Exit int "string option" | Params "op_params \<times> string"

definition cmd_line :: "string \<Rightarrow> string list \<Rightarrow> op_params \<times> string \<Rightarrow> cmdline" where
  "cmd_line app args pp =
     (case flag_parse args default_flags of
        Usage code \<Rightarrow> Exit code None
      | Parsed f \<Rightarrow> (case parse_cmd_line f pp of
                       None \<Rightarrow> Exit 0 (Some (printHelp app))
                     | Some pp' \<Rightarrow> Params pp'))"

section \<open>Flags given as arguments\<close>

definition bool_text :: "bool \<Rightarrow> string" where
  "bool_text b = (if b then ''true'' else ''false'')"

definition flag_arg :: "string \<Rightarrow> string \<Rightarrow> string" where
  "flag_arg nm v = ''--'' @ nm @ ''='' @ v"

definition flag_args :: "flags \<Rightarrow> string list" where
  "flag_args f =
     [flag_arg ''help'' (bool_text (fl_help f)), flag_arg ''debug'' (itoa (fl_debug f)),
      flag_arg ''use_telemetry'' (fl_use_telemetry f), flag_arg ''telemetry_host'' (fl_telemetry_host f),
      flag_arg ''warntime'' (itoa (fl_warntime f)), flag_arg ''errtime'' (itoa (fl_errtime f)),
      flag_arg ''interval'' (itoa (fl_interval f)), flag_arg ''port'' (fl_port f),
      flag_arg ''kv_url'' (fl_kv_url f), flag_arg ''sm_url'' (fl_sm_url f),
      flag_arg ''sm_retries'' (itoa (fl_sm_retries f)), flag_arg ''sm_timeout'' (itoa (fl_sm_timeout f)),
      flag_arg ''nosm'' (bool_text (fl_nosm f))]"

lemma parse_bool_text [simp]: "parse_bool (bool_text b) = Some b"
  by (simp add: parse_bool_def bool_text_def)

lemma flag_intval_itoa [simp]: "fits_int64 i \<Longrightarrow> flag_intval (itoa i) = Some i"
  by (simp add: flag_intval_def parse_int0_itoa)

lemma flag_split_arg: "CHR ''='' \<notin> set nm \<Longrightarrow> flag_split (c # nm @ CHR ''='' # v) = (c # nm, Some v)"
proof -
  assume n: "CHR ''='' \<notin> set nm"
  have "takeWhile (\<lambda>c. c \<noteq> CHR ''='') (nm @ CHR ''='' # v) = nm"
    "dropWhile (\<lambda>c. c \<noteq> CHR ''='') (nm @ CHR ''='' # v) = CHR ''='' # v"
    using n by (induction nm) auto
  then show ?thesis by (simp add: flag_split_def)
qed

text \<open>One argument \<open>--name=value\<close> for a declared flag.\<close>

lemma flag_parse_arg:
  assumes "nm \<in> set bool_flags \<union> set value_flags"
  shows "flag_parse (flag_arg nm v # rest) f =
    (case set_flag nm v f of None \<Rightarrow> Usage 2 | Some f' \<Rightarrow> flag_parse rest f')"
proof -
  obtain c n where nm: "nm = c # n" "c \<noteq> CHR ''-''" "c \<noteq> CHR ''=''" "CHR ''='' \<notin> set n"
    using assms by (cases nm) (auto simp: bool_flags_def value_flags_def)
  have sp: "flag_split (c # n @ CHR ''='' # v) = (nm, Some v)"
    using flag_split_arg [OF nm(4), of c v] nm(1) by simp
  have "flag_arg nm v = CHR ''-'' # CHR ''-'' # c # n @ CHR ''='' # v" by (simp add: flag_arg_def nm(1))
  then show ?thesis
    using assms nm(2,3) sp
    by (cases "nm \<in> set bool_flags") (simp_all split: option.splits)
qed

section \<open>Properties\<close>

text \<open>
  C22: Every setting of the flags can be given on the command line. The arguments \<open>--name=value\<close> for
  any values of the flags, integers of 64 bits and arbitrary strings, are parsed to exactly these
  flags, whatever the flags were before.
\<close>

theorem flags_roundtrip:
  assumes "fits_int64 (fl_debug f)" "fits_int64 (fl_warntime f)" "fits_int64 (fl_errtime f)"
    and "fits_int64 (fl_interval f)" "fits_int64 (fl_sm_retries f)" "fits_int64 (fl_sm_timeout f)"
  shows "flag_parse (flag_args f) g = Parsed f"
  unfolding flag_args_def using assms
  by (simp add: flag_parse_arg bool_flags_def value_flags_def set_flag_def del: flag_parse.simps(2))

theorem flags_roundtrip_witness:
  "flag_parse (flag_args (default_flags\<lparr>fl_interval := -7, fl_help := True\<rparr>)) default_flags =
    Parsed (default_flags\<lparr>fl_interval := -7, fl_help := True\<rparr>)"
  by (rule flags_roundtrip) (simp_all add: default_flags_def UNINT_def fits_int64_def)

end
