(* ===== verification/Spec2Isabelle.thy ===== *)
theory Spec2Isabelle
  imports Patches Kvs_Etcd Cluster Xname Shutdown Cmdline
begin

text \<open>
  \<^bold>\<open>The Cray HPE heartbeat tracker, \<open>hbtd\<close>\<close> (\<open>src/cmd/hbtd\<close>).

  Components of a machine send heartbeats to this service over HTTP. It keeps one record per
  component in a key/value store that all instances share, checks the records periodically, and
  tells the Hardware State Manager and a telemetry bus when a component has started, may have
  stopped, has restarted or is dead.

  \<^bold>\<open>Parts and how they interact.\<close> A process keeps its global variables (record \<open>hbtd\<close> in
  \<open>Process\<close>). Handlers and threads are functions from that state to the new one; the store is a
  component of it, reached through the operations of \<open>kvi\<close>. A heartbeat (\<open>hbRcv\<close>, \<open>hbRcvXName\<close>)
  writes the component's record and may notify a start; the checker reads all records, notifies
  changes, deletes and updates records, and puts a token on \<open>hsmUpdateQ\<close>; a notification enters
  the change in one of four maps under the next sequence number and puts a message on
  \<open>telemetryQ\<close>; the sender takes a token, merges the global maps into its own and sends each
  component's latest change; the telemetry handler writes the messages to the bus.

  \<^bold>\<open>Theories.\<close>
  \<^item> \<open>Prelude\<close>: Go integers with their wrap-around, Go maps as association lists with distinct keys,
    fact collections. \<open>Go_Strconv\<close>: \<open>strconv\<close>'s parsing and printing of integers.
  \<^item> \<open>Json\<close>: JSON values, printing and parsing as \<open>encoding/json\<close> does it, decoding into structs
    of strings. \<open>Json_Roundtrip\<close>: what is printed parses to the same value, up to the replacement
    of invalid UTF-8 (\<open>sanitize\<close>).
  \<^item> \<open>Hbinfo\<close>: the record of a component (\<open>hbinfo\<close>, \<open>track.go\<close>), its JSON, receive times in
    hexadecimal. \<open>Notify\<close>: \<open>hb_update_notify\<close>, the change maps, the telemetry queue; which change
    of a component is the latest. \<open>Params\<close>: the application parameters (\<open>hbtd.go\<close>): defaults,
    environment, command line, \<open>parse_parm_json\<close>, \<open>gen_cur_param_json\<close>.
  \<^item> \<open>Cmdline\<close>: the arguments of the process as the declared flags and Go's \<open>flag\<close> package take
    them, the help text, the printed parameters. \<open>Shutdown\<close>: the threads of \<open>main\<close> from
    \<open>signal.Notify\<close> to the exit.
  \<^item> \<open>Hsm_Sender\<close>: \<open>send_sm_req\<close> with its grooming functions, a turn cut into \<open>sm_take\<close> and
    \<open>sm_answer\<close>. \<open>Sender_History\<close>: refinement of histories of notifications and turns to a map from
    components to the change still to be told; what is lost when two notifications overlap.
  \<^item> \<open>Kv_Store\<close>: the store's interface (vendored \<open>hms-hmetcd\<close>) as two locales, \<open>kvi_store\<close> (any
    operation may fail) and \<open>kvi_reliable\<close> (none does), interpreted on the in-memory backend and
    on one with scheduled failures. \<open>Http\<close>: requests, responses, problem reports (vendored
    \<open>hms-base\<close>). \<open>Process\<close>: the state, the URLs, the clock, the key range.
  \<^item> \<open>Kvs_Etcd\<close>: the operations of the etcd backend on keys, over the calls of the etcd client
    (locale \<open>etcd_client\<close>, its documented laws); they are a \<open>kvi_store\<close>, and agree with the memory
    backend.
  \<^item> \<open>Heartbeat\<close>: \<open>updateHB\<close> in three parts (read, write, notify), \<open>hbRcv\<close>, \<open>hbRcvXName\<close>.
    \<open>Checker\<close>: \<open>hb_checker\<close>, cut where other handlers can run, and its refinement to a verdict per
    record. \<open>Checker_Passes\<close>: what a pass without failures does to one component. \<open>Overlaps\<close>: checks
    that overlap with a heartbeat. \<open>Xname\<close>: which names the vendored \<open>hms-xname\<close> recognises and
    their normal form. \<open>Query\<close>: \<open>paramsIO\<close>, a PATCH in three parts (read, assign, store);
    \<open>isHeartbeating\<close>, \<open>hbStates\<close>, \<open>hbStateSingle\<close>. \<open>Health\<close>: \<open>health.go\<close>.
  \<^item> \<open>Telebus\<close>: \<open>telebusConnect\<close> and \<open>telemetry_handler\<close>, round by round. \<open>Startup\<close>: \<open>openKV\<close>, the
    life keys, \<open>main\<close> up to the server loop. \<open>Routes\<close>: the table of routes (\<open>api.go\<close>, \<open>pprof.go\<close>),
    the part of gorilla/mux it is given to, and \<open>serve\<close>, a request from path to answer.
    \<open>Requests\<close>: what a request leaves alone and writes.
  \<^item> \<open>Service\<close>: the running process as a step relation that interleaves its threads at their accesses
    to the shared state: requests; heartbeats that read, write and notify; checks that open, go
    through one record, do one delete or update, end, wait or fail; PATCHes that read, assign and store;
    turns that take the changes and get their answers; telemetry rounds; writes of other instances.
    Reachable states and their invariants. \<open>Atomicity\<close>: a library lemma that ties the cut operations
    to the whole ones of the component theories, each of which is a run of these steps. \<open>Patches\<close>:
    PATCHes that overlap.
  \<^item> \<open>Dist_Lock\<close>: the lock of the etcd backend that the instances share, a key with a lease, and that
    nothing but a check touches it. \<open>Cluster\<close>: several instances, each a \<open>Service\<close>, on one store and
    one lock. Besides the steps of the instances there are those of etcd: the lease of a lock in use
    ends (only in the \<open>lossy\<close> runs), a key that a failed call has left behind becomes the first or ends.
  \<^item> This theory: properties that need several of these parts at once.

  \<^bold>\<open>What the lemmas show.\<close> The store lemmas say which keys an operation can change and what it
  leaves there, with and without failures; from them follow the effects of heartbeats, checks and
  requests on single components. \<open>stored_rec\<close> and \<open>stored_ok\<close> are the representation invariant of the
  records, kept by every operation whatever names the requests carry; \<open>good_rec\<close> and \<open>wf_store\<close> say
  further that a record names the very key it is under, which holds of names in valid UTF-8, and are
  what the statements about the effect of a pass assume. \<open>seq_ok\<close> and \<open>sender_ok\<close> order the sequence numbers; the
  refinement of the sender rests on them. \<open>checks_alive\<close> counts the checks of a process: its
  invariance gives both that monitoring goes on and that it cannot come back. \<open>lock_inv\<close> ties the
  running checks of all instances to the owner of the lock while no lease of a lock in use ends;
  \<open>checks_overlap_after_lease\<close> shows what happens when one does, \<open>lock_stuck\<close> how a lock that is kept
  can stop all checks for good.

  \<^bold>\<open>Bounds and termination.\<close> Sequence numbers are 64-bit words; statements about the order of
  changes assume that the counter has room for the notifications at hand (\<open>seq_room\<close>,
  \<open>seq_left\<close>; at a million notifications a second that is half a million years). Queue
  capacities are the code's. The retry loops of \<open>openKV\<close>, of the life key and of \<open>waitForHSM\<close>
  may run forever: they are partial functions into option, with theorems that say exactly when
  they return. All other loops are structural or have a measure; no fuel is used.

  \<^bold>\<open>Parameters of the model.\<close> The answers of the State Manager (\<open>hsm\<close>), the clock (readings in
  the order they are taken), the functions on names (\<open>valid_xname\<close>, \<open>norm_xname\<close>,
  which \<open>hms_valid\<close> and \<open>NormalizeHMSCompID\<close> of \<open>Xname\<close> instantiate; the latter takes the normal
  form of names with other than ASCII characters as an argument), the status and the connections
  of the message bus, which attempts to open the store succeed, the calls of the etcd client and
  their answers for the lock, the random number of the instance key, what the profiling handlers answer. The
  hypotheses about them are \<open>kvi_store\<close> and \<open>kvi_reliable\<close> for the store (which \<open>etcd_client\<close>
  gives for etcd: the former only, as its calls can fail), \<open>clock_range\<close> (times are
  not negative and fit 63 bits).

  \<^bold>\<open>Not modelled.\<close> Logging; the closing of bodies; TLS and timeouts of the HTTP client; the delay
  \<open>HBTD_RSLEEP\<close> of the checker, for tests; the operations of the store's backends that the service
  never calls (transactions, watches); the end of a process; how long \<open>Lock\<close> waits, which is one step
  at the moment it returns; bodies of redirects. A query and a notification are one step each of the service, and so is the assignment
  of all parameters at the end of a PATCH; a turn reads the parameters once when it gets its answers, a check reads them at every
  record. That \<open>hbSeq++\<close> and the entry of the change can be interleaved with those of another thread
  is shown separately (\<open>overlapping_notifications_lost\<close>); the statements about which change is sent
  (\<open>changes_stay_sendable\<close>, \<open>sender_history\<close>) assume it does not happen. Go's random iteration order over maps is the order of the association list,
  which no property depends on; the requests of one turn run in parallel in the code and one after
  the other here.
\<close>

section \<open>A heartbeat and the queries after it\<close>

lemma serve_heartbeat:
  assumes "one_segment x" "rq_method r = ''POST''" "rq_path r = URL_HEARTBEAT @ ''/'' @ x"
  shows "serve L tag url r s =
    hbRcvXName (lb_kv L) (lb_clk L) (lb_norm_xname L) (r\<lparr>rq_xname := x\<rparr>) new_response s"
proof -
  have "(URL_HEARTBEAT @ ''/'' @ x, [(''POST'', H_hbRcvXName)], [(''xname'', x)],
      [''GET'', ''PATCH'']) \<in> set (api x)" by (simp only: api_def set_simps insert_iff simp_thms)
  from api_dispatched [OF assms(1) this, of tag "''POST''"]
  have "ServeHTTP (newRouter tag generateRoutes) ''POST'' (URL_HEARTBEAT @ ''/'' @ x) = Routed H_hbRcvXName [(''xname'', x)]"
    unfolding dispatched_def prod.case by simp
  then show ?thesis unfolding serve_def assms(2,3) by simp
qed

lemma serve_hbstate:
  assumes "one_segment x" "rq_method r = ''GET''" "rq_path r = URL_HB_STATE @ ''/'' @ x"
  shows "serve L tag url r s =
    hbStateSingle (lb_kv L) (lb_clk L) (lb_norm_xname L) (r\<lparr>rq_xname := x\<rparr>) new_response s"
proof -
  have "(URL_HB_STATE @ ''/'' @ x, [(''GET'', H_hbStateSingle)], [(''xname'', x)], []) \<in> set (api x)"
    by (simp only: api_def set_simps insert_iff simp_thms)
  from api_dispatched [OF assms(1) this, of tag "''GET''"]
  have "ServeHTTP (newRouter tag generateRoutes) ''GET'' (URL_HB_STATE @ ''/'' @ x) = Routed H_hbStateSingle [(''xname'', x)]"
    unfolding dispatched_def prod.case by simp
  then show ?thesis unfolding serve_def assms(2,3) by simp
qed

lemma hbStateSingle_reliable:
  assumes "kvi_reliable K view" "readable (view (kvs s) (f (rq_xname r)))"
  shows "\<exists>s'. hbStateSingle K clk f r new_response s =
    (json_rsp (URL_HB_STATE @ ''/'' @ f (rq_xname r)) (single_json \<lparr>hs_XName = f (rq_xname r),
       hs_Heartbeating = alive (app_params s) (clk (tick s)) (view (kvs s) (f (rq_xname r)))\<rparr>) new_response, s')"
proof -
  let ?x = "f (rq_xname r)"
  obtain s' where "isHeartbeating K ?x (clk (tick s)) (URL_HB_STATE @ ''/'' @ ?x) (s\<lparr>tick := tick s + 1\<rparr>) =
      ((alive (app_params s) (clk (tick s)) (view (kvs s) ?x), None), s')"
    using kvi_reliable.isHeartbeating_result [OF assms(1), of ?x "clk (tick s)"
        "URL_HB_STATE @ ''/'' @ ?x" "s\<lparr>tick := tick s + 1\<rparr>"] assms(2) by auto
  then show ?thesis by (simp add: hbStateSingle_def read_clock_def Let_def)
qed

text \<open>
  Serving a heartbeat on \<open>/heartbeat/{xname}\<close> and then \<open>/hbstate/{xname}\<close>, with any spelling \<open>y\<close> of a name.
\<close>

lemma beat_then_query:
  assumes "kvi_reliable (lb_kv L) view" "one_segment x" "one_segment y"
    and "rq_method r = ''POST''" "rq_path r = URL_HEARTBEAT @ ''/'' @ x"
    and "hb_parse_xname (lb_norm_xname L) (r\<lparr>rq_xname := x\<rparr>) = Some (x, ts, st)"
    and "prior (view (kvs s)) x h0"
    and "rq_method q = ''GET''" "rq_path q = URL_HB_STATE @ ''/'' @ y"
  obtains s1 s2 v where "serve L tag url r s = (new_response, s1)"
    and "complete v (sane (beat (lb_clk L (tick s)) ts st h0))" "view (kvs s1) = (view (kvs s))(x \<mapsto> v)"
    and "readable (((view (kvs s))(x \<mapsto> v)) (lb_norm_xname L y)) \<Longrightarrow>
      serve L tag url' q s1 = (json_rsp (URL_HB_STATE @ ''/'' @ lb_norm_xname L y)
        (single_json \<lparr>hs_XName = lb_norm_xname L y, hs_Heartbeating = alive (app_params s)
           (lb_clk L (tick s + 1)) (((view (kvs s))(x \<mapsto> v)) (lb_norm_xname L y))\<rparr>) new_response, s2)"
proof -
  obtain s1 where s1: "updateHB (lb_kv L) (lb_clk L) URL_HEARTBEAT x ts st new_response s = (new_response, s1)"
    and rec: "recorded view x (beat (lb_clk L (tick s)) ts st h0) s s1"
    using kvi_reliable.updateHB_prior [OF assms(1,7)] by blast
  have sv: "serve L tag url r s = (new_response, s1)"
    unfolding serve_heartbeat [OF assms(2,4,5)] hbRcvXName_parsed [OF assms(6)] by (rule s1)
  obtain v where v: "complete v (sane (beat (lb_clk L (tick s)) ts st h0))"
    "view (kvs s1) = (view (kvs s))(x \<mapsto> v)" using recordedD(1) [OF rec] by blast
  let ?q = "q\<lparr>rq_xname := y\<rparr>"
  obtain s2 where "readable (view (kvs s1) (lb_norm_xname L y)) \<Longrightarrow>
      hbStateSingle (lb_kv L) (lb_clk L) (lb_norm_xname L) ?q new_response s1 =
      (json_rsp (URL_HB_STATE @ ''/'' @ lb_norm_xname L y) (single_json \<lparr>hs_XName = lb_norm_xname L y,
         hs_Heartbeating = alive (app_params s1) (lb_clk L (tick s1)) (view (kvs s1) (lb_norm_xname L y))\<rparr>)
         new_response, s2)"
    using hbStateSingle_reliable [OF assms(1), of s1 "lb_norm_xname L" ?q "lb_clk L"]
    by (cases "readable (view (kvs s1) (lb_norm_xname L y))") auto
  then show ?thesis
    using that [OF sv v, of s2] recordedD(3,4) [OF rec] v(2)
    unfolding serve_hbstate [OF assms(3,8,9)] by simp
qed

text \<open>
  C14: A component that has just sent a heartbeat is reported alive. When \<open>POST /heartbeat/{x}\<close>
  has been accepted and the next request is \<open>GET /hbstate/{y}\<close> for any spelling \<open>y\<close> whose normal form
  is \<open>x\<close>, less than the error time later, it is answered 200 and says that \<open>x\<close> is heartbeating.
\<close>

theorem heartbeat_then_heartbeating:
  assumes "kvi_reliable (lb_kv L) view" "one_segment x" "one_segment y"
    and "rq_method r = ''POST''" "rq_path r = URL_HEARTBEAT @ ''/'' @ x"
    and "hb_parse_xname (lb_norm_xname L) (r\<lparr>rq_xname := x\<rparr>) = Some (x, ts, st)"
    and "prior (view (kvs s)) x h0"
    and "rq_method q = ''GET''" "rq_path q = URL_HB_STATE @ ''/'' @ y"
    and "lb_norm_xname L y = x" "clock_range (lb_clk L)"
    and "int64 (lb_clk L (tick s + 1) - lb_clk L (tick s)) < int_param (errtime (app_params s))"
  shows "\<exists>s1 s2 w. serve L tag url r s = (new_response, s1) \<and> serve L tag url' q s1 = (w, s2) \<and>
    rw_status w = Some 200 \<and> rw_body w = render (single_json \<lparr>hs_XName = x, hs_Heartbeating = True\<rparr>)"
proof -
  obtain s1 s2 v where sv: "serve L tag url r s = (new_response, s1)"
    and v: "complete v (sane (beat (lb_clk L (tick s)) ts st h0))"
    and q: "readable (((view (kvs s))(x \<mapsto> v)) (lb_norm_xname L y)) \<Longrightarrow>
      serve L tag url' q s1 = (json_rsp (URL_HB_STATE @ ''/'' @ lb_norm_xname L y)
        (single_json \<lparr>hs_XName = lb_norm_xname L y, hs_Heartbeating = alive (app_params s)
           (lb_clk L (tick s + 1)) (((view (kvs s))(x \<mapsto> v)) (lb_norm_xname L y))\<rparr>) new_response, s2)"
    by (rule beat_then_query [OF assms(1-9)]) blast
  have um: "hbinfo_unmarshal v no_hbinfo = (sane (beat (lb_clk L (tick s)) ts st h0), True)"
    using v by (simp add: complete_def)
  have t: "parse_time (format_time (lb_clk L (tick s))) = lb_clk L (tick s)"
    using parse_format_time [of "lb_clk L (tick s)"] assms(11) by (simp add: clock_range_def)
  have "alive (app_params s) (lb_clk L (tick s + 1)) (Some v)"
    using assms(12) by (simp add: alive_def um t)
  moreover have "readable (Some v)" by (simp add: readable_def um)
  ultimately show ?thesis using sv q assms(10) by simp
qed

definition query_sample :: "string \<Rightarrow> request" where
  "query_sample x = \<lparr>rq_method = ''GET'', rq_body = [], rq_read_error = False, rq_xname = [],
     rq_path = URL_HB_STATE @ ''/'' @ x\<rparr>"

text \<open>The service with the functions on names that it uses.\<close>

definition sample_names :: "clock \<Rightarrow> mem lib" where
  "sample_names clk = (sample_lib clk)\<lparr>lb_norm_xname := NormalizeHMSCompID (\<lambda>x. x)\<rparr>"

lemma normal_X0: "NormalizeHMSCompID other ''X0'' = ''x0''"
proof -
  have "lower_byte CHR ''X'' = CHR ''x''" by code_simp
  then have "to_lower (RemoveLeadingZeros (trim_space ''X0'')) = ''x0''"
    by (simp add: to_lower_def RemoveLeadingZeros_def trim_space_def is_space_def is_number_def)
  then show ?thesis by (simp add: NormalizeHMSCompID_def ascii_def)
qed

lemma sample_xname_shape:
  "rq_method (sample_xname_request x) = ''POST''" "rq_path (sample_xname_request x) = URL_HEARTBEAT @ ''/'' @ x"
  "(sample_xname_request x)\<lparr>rq_xname := x\<rparr> = sample_xname_request x"
  "rq_method (query_sample x) = ''GET''" "rq_path (query_sample x) = URL_HB_STATE @ ''/'' @ x"
  by (simp_all add: sample_xname_request_def query_sample_def)

lemma sample_prior:
  "prior (mem_view (kvs (sample_state gm_empty))) x (no_hbinfo\<lparr>Component := x\<rparr>)"
  by (simp add: prior_def sample_state_def mem_view_empty)

theorem heartbeat_then_heartbeating_witness:
  "\<exists>s1 s2 w. serve (sample_names (\<lambda>n. if n = 0 then 100 else 120)) False (\<lambda>u. u) (sample_xname_request ''x0'')
      (sample_state gm_empty) = (new_response, s1) \<and>
    serve (sample_names (\<lambda>n. if n = 0 then 100 else 120)) False (\<lambda>u. u) (query_sample ''X0'') s1 = (w, s2) \<and>
    rw_body w = render (single_json \<lparr>hs_XName = ''x0'', hs_Heartbeating = True\<rparr>)"
proof -
  let ?L = "sample_names (\<lambda>n. if n = 0 then 100 else 120)" and ?s = "sample_state gm_empty"
  have L: "kvi_reliable (lb_kv ?L) mem_view" using mem.kvi_reliable_axioms by (simp add: sample_names_def)
  have x: "one_segment ''x0''" "one_segment ''X0''" by (simp_all add: one_segment_def)
  have pa: "hb_parse_xname (lb_norm_xname ?L) ((sample_xname_request ''x0'')\<lparr>rq_xname := ''x0''\<rparr>) =
      Some (''x0'', ''now'', ''OK'')"
    unfolding sample_xname_shape(3) by (rule sample_xname_parse) simp
  have n: "lb_norm_xname ?L ''X0'' = ''x0''" by (simp add: sample_names_def normal_X0)
  have c: "clock_range (lb_clk ?L)" by (simp add: sample_names_def sample_lib_def clock_range_def clock_ok_def)
  have d: "int64 (lb_clk ?L (tick ?s + 1) - lb_clk ?L (tick ?s)) < int_param (errtime (app_params ?s))"
    by (simp add: sample_names_def sample_lib_def sample_int64 sample_state_def initAppParams_def int_app_def)
  from heartbeat_then_heartbeating [OF L x sample_xname_shape(1,2) pa sample_prior sample_xname_shape(4,5) n c d,
      of False "\<lambda>u. u" "\<lambda>u. u"]
  show ?thesis by blast
qed

text \<open>
  A component that uses another spelling of its name never shows up. \<open>POST /heartbeat/{x}\<close>
  records the heartbeat under the name in the URL as it is, while \<open>GET /hbstate/{x}\<close> looks for
  the name in normal form: when the two differ and nothing is recorded under the normal form, the
  heartbeat is answered 200 and the query right after it says that the component is not
  heartbeating.
\<close>

theorem unnormalised_name_unseen:
  assumes "kvi_reliable (lb_kv L) view" "one_segment x"
    and "rq_method r = ''POST''" "rq_path r = URL_HEARTBEAT @ ''/'' @ x"
    and "hb_parse_xname (lb_norm_xname L) (r\<lparr>rq_xname := x\<rparr>) = Some (x, ts, st)"
    and "prior (view (kvs s)) x h0"
    and "rq_method q = ''GET''" "rq_path q = URL_HB_STATE @ ''/'' @ x"
    and "lb_norm_xname L x \<noteq> x" "view (kvs s) (lb_norm_xname L x) = None"
  shows "\<exists>s1 s2 w. serve L tag url r s = (new_response, s1) \<and> view (kvs s1) x \<noteq> None \<and>
    serve L tag url' q s1 = (w, s2) \<and> rw_status w = Some 200 \<and>
    rw_body w = render (single_json \<lparr>hs_XName = lb_norm_xname L x, hs_Heartbeating = False\<rparr>)"
proof -
  obtain s1 s2 v where sv: "serve L tag url r s = (new_response, s1)" "view (kvs s1) = (view (kvs s))(x \<mapsto> v)"
    and q: "readable (((view (kvs s))(x \<mapsto> v)) (lb_norm_xname L x)) \<Longrightarrow>
      serve L tag url' q s1 = (json_rsp (URL_HB_STATE @ ''/'' @ lb_norm_xname L x)
        (single_json \<lparr>hs_XName = lb_norm_xname L x, hs_Heartbeating = alive (app_params s)
           (lb_clk L (tick s + 1)) (((view (kvs s))(x \<mapsto> v)) (lb_norm_xname L x))\<rparr>) new_response, s2)"
    by (rule beat_then_query [OF assms(1,2,2,3-8)]) blast
  have "((view (kvs s))(x \<mapsto> v)) (lb_norm_xname L x) = None" using assms(9,10) by simp
  then show ?thesis using sv q by (simp add: readable_def alive_def)
qed

theorem unnormalised_name_unseen_witness:
  "\<exists>s1 s2 w. serve (sample_names (\<lambda>n. 100)) False (\<lambda>u. u)
      (sample_xname_request ''X0'') (sample_state gm_empty) = (new_response, s1) \<and>
    serve (sample_names (\<lambda>n. 100)) False (\<lambda>u. u) (query_sample ''X0'') s1 = (w, s2) \<and>
    rw_body w = render (single_json \<lparr>hs_XName = ''x0'', hs_Heartbeating = False\<rparr>)"
proof -
  let ?L = "sample_names (\<lambda>n. 100)" and ?s = "sample_state gm_empty"
  have L: "kvi_reliable (lb_kv ?L) mem_view" using mem.kvi_reliable_axioms by (simp add: sample_names_def)
  have x: "one_segment ''X0''" by (simp add: one_segment_def)
  have pa: "hb_parse_xname (lb_norm_xname ?L) ((sample_xname_request ''X0'')\<lparr>rq_xname := ''X0''\<rparr>) =
      Some (''X0'', ''now'', ''OK'')"
    unfolding sample_xname_shape(3) by (rule sample_xname_parse) simp
  have nx: "lb_norm_xname ?L ''X0'' = ''x0''" by (simp add: sample_names_def normal_X0)
  then have n: "lb_norm_xname ?L ''X0'' \<noteq> ''X0''" by simp
  have none: "mem_view (kvs ?s) (lb_norm_xname ?L ''X0'') = None" by (simp add: sample_state_def mem_view_empty)
  from unnormalised_name_unseen [OF L x sample_xname_shape(1,2) pa sample_prior sample_xname_shape(4,5) n none,
      of False "\<lambda>u. u" "\<lambda>u. u"]
  obtain s1 s2 w where "serve ?L False (\<lambda>u. u) (sample_xname_request ''X0'') ?s = (new_response, s1)"
    "serve ?L False (\<lambda>u. u) (query_sample ''X0'') s1 = (w, s2)"
    "rw_body w = render (single_json \<lparr>hs_XName = lb_norm_xname ?L ''X0'', hs_Heartbeating = False\<rparr>)"
    by blast
  then show ?thesis by (intro exI [of _ s1] exI [of _ s2] exI [of _ w] conjI) (simp_all add: nx)
qed

section \<open>From silence to the State Manager\<close>

lemma clean_pass_frame:
  assumes "clean_pass K view clk s s'"
  shows "app_params s' = app_params s" "hsm_q s' = hsm_q s @ [HSMQ_NEW]"
proof -
  obtain sc s1 where beg: "checker_begin K clk s = (Some sc, s1)"
    using assms by (cases "checker_begin K clk s") (auto simp: clean_pass_def)
  then have "checker_end K sc s1 = (s', True)" using assms by (simp add: clean_pass_def hb_checker_def)
  with checker_begin_frame [OF beg] checker_end_simps(3,6) [of K sc s1 s']
  show "app_params s' = app_params s" "hsm_q s' = hsm_q s @ [HSMQ_NEW]" by simp_all
qed

lemma round_accepted:
  assumes "\<And>u b. accepted (hsm u b)" "int_param (nosm p) = 0" "pending cp g x = Some c"
  obtains rd ids where "send_sm_round hsm tm p True cp g = Some rd" "x \<in> set ids"
    and "rd_bsi rd c = (bulk_for c ids)\<lparr>needSend := True, sentOK := True\<rparr>"
    and "pending (rd_local rd) (rd_global rd) x = None"
proof -
  have "hsm u b \<noteq> Bad_url" for u b using assms(1) [of u b] by (auto simp: accepted_def)
  then obtain rd where r: "send_sm_round hsm tm p True cp g = Some rd"
    using round_no_panic [of hsm tm p True cp g] by blast
  let ?ids = "ComponentIDs (rd_bsi rd c)"
  have x: "x \<in> set ?ids" using send_sm_round_result(1) [OF r, of c] assms(3) by simp
  then have ne: "?ids \<noteq> []" by auto
  have b: "rd_bsi rd c = (bulk_for c ?ids)\<lparr>needSend := True, sentOK := True\<rparr>"
    using send_sm_round_bsi [OF r, of c] ne assms(1,2) by simp
  have "sent_ok (rd_bsi rd) c" using sent_ok_iff [OF r, of c] ne assms(1,2) by simp
  moreover have "has_key (after_pre cp g) x c" by (rule has_key_after_pre) (rule pending_nz [OF assms(3)])
  ultimately have "pending (rd_local rd) (rd_global rd) x = None"
    using pending_after_turn [OF r, of x] by auto
  with r x b show ?thesis by (rule that)
qed

text \<open>
  C2: A dead component is told to the State Manager. When a component has been silent for the
  error time and a check runs to its end outside a monitoring gap, its record is gone and a token
  for the sender is queued; the turn on that token, with the State Manager in use, ready and
  accepting, sends the component in the list of dead ones, with state Standby and flag Alert, and
  nothing is left to be told of it.
\<close>

theorem death_is_told:
  assumes "clean_pass K view clk s s'" "in_range k" "view (kvs s) k = Some v" "good_rec k v h"
    and "\<not> staleKeys s" "\<forall>n \<ge> tick s. int_param (errtime (app_params s)) \<le> overdue clk n h"
    and "int_param (nosm (app_params s)) = 0" "\<And>u b. accepted (hsm u b)"
  shows "view (kvs s') k = None \<and> hsm_q s' = hsm_q s @ [HSMQ_NEW] \<and>
    (\<exists>rd ids. send_sm_req hsm False (app_params s') True HSMQ_NEW (sm_local s') (nt_maps (notif s')) = Turned rd \<and>
       k \<in> set ids \<and> rd_bsi rd StopError = \<lparr>ComponentIDs = ids, bk_State = StateStandby, bk_Flag = FlagAlert,
         bk_Message = ''Heartbeat stopped -- declared dead'', needSend = True, sentOK = True\<rparr> \<and>
       pending (rd_local rd) (rd_global rd) k = None)"
proof -
  note dead = dead_removed [OF assms(1-6)] and fr = clean_pass_frame [OF assms(1)]
  have "pending (sm_local s') (nt_maps (notif s')) k = Some StopError"
    using dead by (simp add: pending_in_def)
  then obtain rd ids where r: "send_sm_round hsm False (app_params s') True (sm_local s') (nt_maps (notif s')) = Some rd"
    and k: "k \<in> set ids" and b: "rd_bsi rd StopError = (bulk_for StopError ids)\<lparr>needSend := True, sentOK := True\<rparr>"
    and p: "pending (rd_local rd) (rd_global rd) k = None"
    using round_accepted [of hsm "app_params s'", OF assms(8)] assms(7) fr(1) by metis
  have "send_sm_req hsm False (app_params s') True HSMQ_NEW (sm_local s') (nt_maps (notif s')) = Turned rd"
    using r by (simp add: send_sm_req_def HSMQ_NEW_def HSMQ_DIE_def)
  moreover have "rd_bsi rd StopError = \<lparr>ComponentIDs = ids, bk_State = StateStandby, bk_Flag = FlagAlert,
      bk_Message = ''Heartbeat stopped -- declared dead'', needSend = True, sentOK = True\<rparr>"
    by (simp add: b bulk_for_def)
  ultimately show ?thesis using dead fr(2) k p by blast
qed

theorem death_is_told_witness:
  "\<exists>s' rd. hb_checker mem_kvi (\<lambda>n. 200) (sample_store HB_WARN_NORMAL) = (s', True) \<and>
    send_sm_req (hsm_up True) False (app_params s') True HSMQ_NEW (sm_local s') (nt_maps (notif s')) = Turned rd \<and>
    ''x0'' \<in> set (ComponentIDs (rd_bsi rd StopError))"
proof -
  let ?s = "sample_store HB_WARN_NORMAL"
  obtain s' where p: "clean_pass mem_kvi mem_view (\<lambda>n. 200) ?s s'"
    using sample_pass by (metis ascii_warnings(2))
  have v: "mem_view (kvs ?s) ''x0'' = Some (the (hbinfo_marshal (sample_rec HB_WARN_NORMAL)))" "\<not> staleKeys ?s"
    "\<forall>n \<ge> tick ?s. int_param (errtime (app_params ?s)) \<le> overdue (\<lambda>n. 200) n (sample_rec HB_WARN_NORMAL)"
    by (simp_all add: sample_view sample_overdue clock_ok_def sample_int64)
  have nosm: "int_param (nosm (app_params ?s)) = 0"
    by (simp add: sample_store_def sample_state_def initAppParams_def int_app_def)
  have acc: "accepted (hsm_up True u b)" for u b by (simp add: accepted_up)
  from death_is_told [where hsm = "hsm_up True", OF p sample_in_range v(1) sample_good [OF ascii_warnings(2)] v(2,3) nosm acc]
  obtain rd ids where rd: "send_sm_req (hsm_up True) False (app_params s') True HSMQ_NEW (sm_local s')
      (nt_maps (notif s')) = Turned rd" "''x0'' \<in> set ids"
    and b: "rd_bsi rd StopError = \<lparr>ComponentIDs = ids, bk_State = StateStandby, bk_Flag = FlagAlert,
         bk_Message = ''Heartbeat stopped -- declared dead'', needSend = True, sentOK = True\<rparr>"
    by blast
  have "ComponentIDs (rd_bsi rd StopError) = ids" unfolding b by simp
  moreover have "hb_checker mem_kvi (\<lambda>n. 200) ?s = (s', True)" using p by (simp add: clean_pass_def)
  ultimately show ?thesis using rd by blast
qed

section \<open>A restart of the whole service\<close>

text \<open>
  C17: After an outage nobody is declared dead by the first check. When an instance starts on a
  store without the life key of any other (as far as the scan of the life keys sees it) and
  \<open>clear_on_gap\<close> is off, the first check it completes keeps the record of every tracked
  component, however old, and leaves no stop error to be sent for it.
\<close>

theorem restart_spares:
  assumes "kvi_reliable K view" "main_start K getenv fl hsmReady opens rnd kv = Serving s key"
    and "\<forall>k. view kv k \<noteq> None \<and> life_key k \<longrightarrow> life_end < k"
    and "int_param (clear_on_gap (app_params s)) = 0"
    and "in_range k" "view kv k = Some v" "good_rec k v h" "clean_pass K view clk s s'"
  shows "view (kvs s') k \<noteq> None \<and> pending_in s' k \<noteq> Some StopError"
proof -
  note store = kvi_reliable.axioms(1) [OF assms(1)]
  obtain p up s1 where s: "s = rearm_hbcheck_timer (checkLifeKeys K s1)"
    and op: "openKV K getenv opens (process_start p up kv) = Some s1"
    using assms(2) by (auto simp: main_start_def split: option.splits)
  obtain kv' q where s1: "s1 = (process_start p up kv)\<lparr>app_params := q, kvs := kv'\<rparr>"
    and rt: "retry (store_try K) kv = Some kv'"
    using openKV_result [OF op] by (auto simp: process_start_def)
  have v1: "view (kvs s1) = (view kv)(HBTD_HEALTH_KEY \<mapsto> HBTD_HEALTH_OK)"
    using kvi_store.store_try_result [OF store rt] by (simp add: s1)
  have hk: "\<not> life_key HBTD_HEALTH_KEY" "HBTD_HEALTH_KEY \<noteq> k"
    using health_key_outside assms(5) by (auto simp: life_key_def HBTD_HEALTH_KEY_def HBTD_LIFE_KEY_PRE_def in_range_def)
  then have "\<forall>k. view (kvs s1) k \<noteq> None \<and> life_key k \<longrightarrow> life_end < k"
    using assms(3) by (auto simp: v1)
  note lm = life_missed_result [OF assms(1) this]
  have stale: "staleKeys s" using lm by (simp add: s)
  have "view (kvs s) = view (kvs s1)" using lm assms(4) by (simp add: s checkLifeKeys_frame)
  then have vk: "view (kvs s) k = Some v" using hk(2) assms(6) by (simp add: v1)
  have none: "pending_in s k = None"
    by (simp add: pending_in_def s checkLifeKeys_frame) (simp add: s1 process_start_def init_notify_def)
  obtain n where n: "kept k (fst (verdict_at clk s n h)) (view (kvs s') k)"
    "pending_in s' k = change_or (pending_in s k) (snd (verdict_at clk s n h))"
    using clean_pass_effect(1) [OF assms(8,5) vk assms(7)] by blast
  have "fst (verdict_at clk s n h) \<noteq> None \<and> change_or None (snd (verdict_at clk s n h)) \<noteq> Some StopError"
    using stale by (auto simp: verdict_at_def verdict_def change_or_def Let_def)
  with n none show ?thesis by (auto simp: kept_def split: option.splits)
qed

theorem restart_spares_witness:
  "\<exists>s s'. main_start mem_kvi (\<lambda>x. []) sample_flags (\<lambda>n. True) (\<lambda>ix. True) 7
      (kvs (sample_store HB_WARN_NONE)) = Serving s (createInstanceKey 7) \<and>
    clean_pass mem_kvi mem_view (\<lambda>n. 200) s s' \<and> mem_view (kvs s') ''x0'' \<noteq> None"
proof -
  let ?kv = "kvs (sample_store HB_WARN_NONE)"
  obtain s where s: "main_start mem_kvi (\<lambda>x. []) sample_flags (\<lambda>n. True) (\<lambda>ix. True) 7 ?kv =
      Serving s (createInstanceKey 7)" and gap: "clear_on_gap (app_params s) = clear_on_gap (parse_env_vars (\<lambda>x. []) initAppParams)"
    using sample_main_start by blast
  have gap0: "int_param (clear_on_gap (app_params s)) = 0"
    unfolding gap by (simp add: parse_env_vars_def Let_def env_int_def env_parse_int_def initAppParams_def int_app_def)
  have "\<not> life_key ''x0''" by (simp add: life_key_def HBTD_LIFE_KEY_PRE_def)
  then have none: "\<forall>k. mem_view ?kv k \<noteq> None \<and> life_key k \<longrightarrow> life_end < k"
    by (auto simp: sample_view split: if_splits)
  have wf: "wf_store (mem_view ?kv)"
    using sample_good [OF ascii_warnings(1)] by (auto simp: wf_store_def sample_view split: if_splits)
  note res = main_start_result [OF mem.kvi_store_axioms s]
  have wf': "wf_store (mem_view (kvs s))" using res sub_range_wf [OF wf] by blast
  have d: "dom (mem_view (kvs s)) \<subseteq> {HBTD_HEALTH_KEY, ''x0''}"
    using main_start_dom [OF mem.kvi_store_axioms s] by (simp add: sample_view)
  have "card (dom (mem_view (kvs s))) \<le> 2"
    using card_mono [OF _ d] card_insert_le_m1 [of 2] by (simp add: card_insert_if split: if_splits)
  moreover have "finite (dom (mem_view (kvs s)))" using d finite_subset by blast
  ultimately have "seq_room (mem_view (kvs s)) s"
    using res by (simp add: seq_room_def init_notify_def)
  then obtain s' where p: "clean_pass mem_kvi mem_view (\<lambda>n. 200) s s'"
    using mem_clean_pass [of s "\<lambda>n. 200"] res wf' by (auto simp: hsmUpdateQ_cap_def)
  have v: "mem_view ?kv ''x0'' = Some (the (hbinfo_marshal (sample_rec HB_WARN_NONE)))" by (simp add: sample_view)
  from restart_spares [OF mem.kvi_reliable_axioms s none gap0 sample_in_range v
      sample_good [OF ascii_warnings(1)] p] s p
  show ?thesis by blast
qed

section \<open>A bad URL of the State Manager\<close>

lemma round_panics:
  assumes "pending cp g x = Some c" "\<And>b. hsm (patch_url tm p) b = Bad_url" "int_param (nosm p) = 0"
  shows "send_sm_round hsm tm p True cp g = None"
proof (rule ccontr)
  assume "send_sm_round hsm tm p True cp g \<noteq> None"
  then obtain r where r: "send_sm_round hsm tm p True cp g = Some r" by blast
  obtain all cp' g' where pre: "groomCompLocalMapsPRE gm_empty cp g = (all, cp', g')"
    by (cases "groomCompLocalMapsPRE gm_empty cp g") auto
  let ?b = "fill_bsi cp' (gm_keys all) createBSI c"
  have "start_patch hsm tm p ?b \<noteq> None"
    using r pre by (auto simp: send_sm_round_def sm_take_def sm_answer_def Let_def list_ex_iff split: if_splits)
  then have nil: "ComponentIDs ?b = []"
    using assms(2,3) by (auto simp: start_patch_def send_sm_patch_def json_marshal_def split: if_splits)
  then have "rd_bsi r c = ?b"
    using r pre by (auto simp: send_sm_round_def sm_take_def sm_answer_def Let_def start_patch_def split: if_splits)
  with nil ids_nonempty [OF r, of c] assms(1) show False by auto
qed

text \<open>
  C38: One PATCH can bring the service down. The new State Manager URL is not checked: a PATCH
  whose \<open>Sm_url\<close> makes no request possible is answered 200, and from then on a turn with a
  change to tell panics, and the process with it, as long as the State Manager is in use and was
  seen ready.
\<close>

theorem bad_sm_url_panics:
  assumes "kvi_reliable K view" "rq_method r = ''PATCH''" "\<not> rq_read_error r"
    and "unmarshal_strings (inidata_fields no_inidata) (rq_body r) = (fs, True)"
    and "inidata_of fs = no_inidata\<lparr>Sm_url := u\<rparr>" "u \<noteq> []"
    and "\<And>b. hsm (u @ ''/'' @ SM_URL_MID @ ''/'' @ SM_URL_SUFFIX) b = Bad_url"
    and "pending_in s x = Some c" "int_param (nosm (app_params s)) = 0" "qval \<noteq> HSMQ_DIE"
  shows "\<exists>w s'. paramsIO K r new_response s = (w, s') \<and> rw_status w = Some 200 \<and>
    send_sm_req hsm False (app_params s') True qval (sm_local s') (nt_maps (notif s')) = Panicked"
proof -
  let ?jd = "no_inidata\<lparr>Sm_url := u\<rparr>"
  obtain w s' where p: "paramsIO K r new_response s = (w, s')" by (metis prod.exhaust)
  have acc: "acceptable PARAM_PATCH ?jd" by (simp add: acceptable_def no_inidata_def)
  have w: "rw_status w = Some 200" and a: "app_params s' = patched ?jd (app_params s)"
    and eq: "s' = s\<lparr>app_params := app_params s', server_url_port := string_param (port (app_params s)), kvs := kvs s'\<rparr>"
    using patch_params_result [OF assms(1-4) p, unfolded assms(5) if_P [OF conjI [OF TrueI acc]]] by blast+
  have "sm_local s' = sm_local s" "notif s' = notif s"
    using arg_cong [OF eq, of sm_local] arg_cong [OF eq, of notif] by simp_all
  then have pend: "pending (sm_local s') (nt_maps (notif s')) x = Some c"
    using assms(8) by (simp add: pending_in_def)
  have url: "hsm (patch_url False (app_params s')) b = Bad_url" for b
    unfolding patch_url_def a using assms(6) assms(7) [of b]
    by (simp add: patched_def new_str_def no_inidata_def)
  have "int_param (nosm (app_params s')) = 0"
    using assms(9) by (simp add: a patched_def new_flag_def no_inidata_def)
  from round_panics [where hsm = hsm, OF pend url this] show ?thesis
    using p w assms(10) by (simp add: send_sm_req_def)
qed

text \<open>A URL that cannot be parsed, and a change to tell.\<close>

definition bad_url_patch :: request where
  "bad_url_patch =
     \<lparr>rq_method = ''PATCH'', rq_body = render (fields_json [(''Sm_url'', '':'')]),
      rq_read_error = False, rq_xname = [], rq_path = URL_PARAMS\<rparr>"

theorem bad_sm_url_panics_witness:
  "\<exists>w s'. paramsIO mem_kvi bad_url_patch new_response
      ((sample_state gm_empty)\<lparr>notif := hb_update_notify (sample_rec HB_WARN_NONE) HB_started init_notify\<rparr>) = (w, s') \<and>
    rw_status w = Some 200 \<and>
    send_sm_req (\<lambda>u b. if u = '':/State/Components/BulkStateData'' then Bad_url else Answer 200) False
      (app_params s') True HSMQ_NEW (sm_local s') (nt_maps (notif s')) = Panicked"
proof -
  let ?s = "(sample_state gm_empty)\<lparr>notif := hb_update_notify (sample_rec HB_WARN_NONE) HB_started init_notify\<rparr>"
  let ?hsm = "\<lambda>u (b :: string). if u = '':/State/Components/BulkStateData'' then Bad_url else Answer 200"
  let ?jd = "no_inidata\<lparr>Sm_url := '':''\<rparr>"
  have rq: "rq_method bad_url_patch = ''PATCH''" "\<not> rq_read_error bad_url_patch"
    by (simp_all add: bad_url_patch_def)
  have um: "unmarshal_strings (inidata_fields no_inidata) (rq_body bad_url_patch) = (inidata_fields ?jd, True)"
    using unmarshal_members [of "[(''Sm_url'', '':'')]" "inidata_fields no_inidata"]
    by (simp add: bad_url_patch_def inidata_fields_def no_inidata_def ascii_def)
  have jd: "inidata_of (inidata_fields ?jd) = ?jd"
    by (simp add: inidata_of_def inidata_fields_def no_inidata_def field_def)
  have h: "?hsm ('':'' @ ''/'' @ SM_URL_MID @ ''/'' @ SM_URL_SUFFIX) b = Bad_url" for b
    by (simp add: SM_URL_MID_def SM_URL_SUFFIX_def)
  have ok: "sender_ok no_changes (nt_maps init_notify) (nt_seq init_notify)" "nt_seq init_notify + 1 \<noteq> 0"
    by (simp_all add: init_notify_def)
  have pend: "pending_in ?s ''x0'' = Some Started"
    using pending_notify [OF ok change_of_simps(1), of "sample_rec HB_WARN_NONE"]
    by (simp add: pending_in_def sample_state_def) (simp add: sample_rec_def)
  have nosm: "int_param (nosm (app_params ?s)) = 0"
    by (simp add: sample_state_def initAppParams_def int_app_def)
  have q: "HSMQ_NEW \<noteq> HSMQ_DIE" by (simp add: HSMQ_NEW_def HSMQ_DIE_def)
  show ?thesis
    using bad_sm_url_panics [where hsm = ?hsm, OF mem.kvi_reliable_axioms rq um jd _ h pend nosm q] by simp
qed

end
